(* ===== verification/C_Prelude.thy ===== *)
theory C_Prelude
  imports Main "HOL-Library.Word" "HOL-Library.Code_Target_Nat"
begin

text \<open>
  Shared vocabulary of the development: the fixed-width integer types of the C sources as
  words, byte strings, the shape of a C function that returns a status and updates an object
  through a pointer, and the arithmetic that relates words to the naturals they denote.
\<close>

unbundle bit_operations_syntax

named_theorems word_nat \<open>rewriting the value of a word expression into arithmetic on naturals\<close>
named_theorems mask_simps \<open>bit masks of the sources as \<open>take_bit\<close>\<close>

subsection \<open>Types\<close>

type_synonym u8 = "8 word"
type_synonym u16 = "16 word"
type_synonym u32 = "32 word"
type_synonym u64 = "64 word"

text \<open>A run of memory that a pointer and a length describe.\<close>

type_synonym bytes = "u8 list"

text \<open>
  A C function that returns 0 or 1, writes its result through an out-parameter and updates an
  object \<open>'s\<close> in place: the result is \<open>None\<close> where the function returns 0, and the second
  component is the object afterwards, on both branches.
\<close>

type_synonym ('s, 'a) cfun = "'s \<Rightarrow> 'a option \<times> 's"

text \<open>The number of values of a \<open>size_t\<close>, which is 64 bits wide on the target.\<close>

definition SIZE_MOD :: nat where
  "SIZE_MOD = 2 ^ 64"

text \<open>\<open>size_t\<close> addition, with its wrap-around.\<close>

definition szadd :: "nat \<Rightarrow> nat \<Rightarrow> nat" where
  "szadd a b = (a + b) mod SIZE_MOD"

lemma szadd_exact: "a + b < SIZE_MOD \<Longrightarrow> szadd a b = a + b"
  by (simp add: szadd_def)

lemma szadd_wraps:
  assumes "a < SIZE_MOD" "b < SIZE_MOD"
  shows "szadd a b < a \<longleftrightarrow> SIZE_MOD \<le> a + b"
proof (cases "a + b < SIZE_MOD")
  case True
  then show ?thesis by (simp add: szadd_exact)
next
  case False
  then have "(a + b) mod SIZE_MOD = a + b - SIZE_MOD"
    using assms by (simp add: mod_if)
  with False assms show ?thesis by (simp add: szadd_def)
qed

subsection \<open>Words as naturals\<close>

lemma unat_bound [simp]: "unat (w :: 'a::len word) < 2 ^ LENGTH('a)"
  by transfer simp

lemma unat_u8_less [simp]: "unat (w :: u8) < 256"
  and unat_u8_le [simp]: "unat (w :: u8) \<le> 255"
  using unat_bound [of w] by simp_all

lemma unat_u16_less [simp]: "unat (w :: u16) < 65536"
  using unat_bound [of w] by simp

lemma unat_u32_less [simp]: "unat (w :: u32) < 4294967296"
  using unat_bound [of w] by simp

lemma unat_u64_less [simp]: "unat (w :: u64) < 18446744073709551616"
  using unat_bound [of w] by simp

lemma unat_take_bit_mod [word_nat]: "unat (take_bit n (w :: 'a::len word)) = unat w mod 2 ^ n"
  by (simp add: unsigned_take_bit_eq flip: take_bit_eq_mod)

lemma unat_drop_bit_div [word_nat]: "unat (drop_bit n (w :: 'a::len word)) = unat w div 2 ^ n"
  by (subst unat_drop_bit_eq) (simp add: drop_bit_eq_div)

lemma unat_push_bit_mod [word_nat]:
  "unat (push_bit n (w :: 'a::len word)) = unat w * 2 ^ n mod 2 ^ LENGTH('a)"
  by (subst unsigned_push_bit_eq) (simp add: push_bit_eq_mult take_bit_eq_mod)

lemma unat_ucast_mod [word_nat]:
  "unat (ucast (w :: 'b::len word) :: 'a::len word) = unat w mod 2 ^ LENGTH('a)"
  by (simp add: unsigned_ucast_eq take_bit_eq_mod)

lemma unat_ucast_u8_u64 [simp]: "unat (ucast (b :: u8) :: u64) = unat b"
  by (simp add: unat_ucast_mod) (rule mod_less, rule order.strict_trans [OF unat_u8_less], simp)

lemma unat_ucast_u8_u32 [simp]: "unat (ucast (b :: u8) :: u32) = unat b"
  by (simp add: unat_ucast_mod) (rule mod_less, rule order.strict_trans [OF unat_u8_less], simp)

lemma unat_ucast_u32_u64 [simp]: "unat (ucast (b :: u32) :: u64) = unat b"
  by (simp add: unat_ucast_mod) (rule mod_less, rule order.strict_trans [OF unat_u32_less], simp)

lemma bit_unat_odd: "bit (w :: 'a::len word) n \<longleftrightarrow> odd (unat w div 2 ^ n)"
proof -
  have "bit (unat w) n \<longleftrightarrow> bit w n" by (simp add: bit_unsigned_iff)
  then show ?thesis by (simp add: bit_iff_odd)
qed

lemma push_or_ucast:
  fixes r :: "'a::len word" and b :: "'b::len word"
  assumes "unat b < 2 ^ n"
  shows "push_bit n r OR ucast b = r * 2 ^ n + ucast b"
proof -
  have "take_bit n b = b"
    using assms by (simp add: word_unat_eq_iff word_nat)
  then have hi: "\<not> bit b k" if "n \<le> k" for k
    using that by (metis bit_take_bit_iff not_le)
  have "push_bit n r + ucast b = push_bit n r OR ucast b"
    by (rule disjunctive_add) (auto simp: bit_simps dest: hi)
  then show ?thesis by (simp add: push_bit_eq_mult)
qed

subsection \<open>The masks of the sources\<close>

lemma and_7f [mask_simps]: "(b :: u8) AND 0x7f = take_bit 7 b"
  and and_1f [mask_simps]: "b AND 0x1f = take_bit 5 b"
  by (simp_all add: take_bit_eq_mask mask_numeral)

lemma nat_div_eq_iff: "0 < m \<Longrightarrow> x div m = q \<longleftrightarrow> q * m \<le> x \<and> x < Suc q * m" for x :: nat
  using div_less_iff_less_mult [of m x "Suc q"] less_eq_div_iff_mult_less_eq [of m q x] by auto

lemma unat_u8_div_128: "unat (b :: u8) div 128 = (if unat b < 128 then 0 else 1)"
  using unat_u8_less [of b] by (simp add: nat_div_eq_iff del: unat_u8_less)

lemma unat_u8_mod_128: "128 \<le> unat (b :: u8) \<Longrightarrow> 128 + unat b mod 128 = unat b"
  using div_mult_mod_eq [of "unat b" 128] unat_u8_div_128 [of b] by simp

lemma and_80_u8: "(b :: u8) AND 0x80 = 0 \<longleftrightarrow> unat b < 128"
proof -
  have "b AND 2 ^ 7 = 0 \<longleftrightarrow> \<not> bit b 7" by (rule and_exp_eq_0_iff_not_bit)
  also have "\<dots> \<longleftrightarrow> even (unat b div 128)" by (simp add: bit_unat_odd)
  also have "\<dots> \<longleftrightarrow> unat b < 128" using unat_u8_div_128 [of b] by auto
  finally show ?thesis by simp
qed

subsection \<open>Big-endian byte strings\<close>

fun be_nat :: "bytes \<Rightarrow> nat" where
  "be_nat [] = 0"
| "be_nat (b # bs) = unat b * 256 ^ length bs + be_nat bs"

fun be_bytes :: "nat \<Rightarrow> nat \<Rightarrow> bytes" where
  "be_bytes 0 v = []"
| "be_bytes (Suc n) v = be_bytes n (v div 256) @ [of_nat (v mod 256)]"

lemma length_be_bytes [simp]: "length (be_bytes n v) = n"
  by (induction n arbitrary: v) auto

lemma be_bytes_Nil_iff [simp]: "be_bytes n v = [] \<longleftrightarrow> n = 0"
  using length_be_bytes [of n v] by (metis length_0_conv)

lemma be_nat_append [simp]: "be_nat (xs @ ys) = be_nat xs * 256 ^ length ys + be_nat ys"
  by (induction xs) (simp_all add: algebra_simps power_add)

lemma be_nat_bound: "be_nat bs < 256 ^ length bs"
proof (induction bs)
  case (Cons b bs)
  have "unat b * 256 ^ length bs \<le> 255 * 256 ^ length bs"
    by (rule mult_le_mono1) simp
  with Cons show ?case
    by (simp only: be_nat.simps length_Cons power_Suc)
qed simp

lemma unat_byte_of_nat [simp]: "unat (of_nat n :: u8) = n mod 256"
  by (simp add: unat_of_nat)

lemma be_nat_be_bytes: "be_nat (be_bytes n v) = v mod 256 ^ n"
proof (induction n arbitrary: v)
  case (Suc n)
  have "be_nat (be_bytes (Suc n) v) = (v div 256) mod 256 ^ n * 256 + v mod 256"
    by (simp add: Suc)
  also have "\<dots> = v mod (256 * 256 ^ n)"
    by (simp add: mod_mult2_eq)
  finally show ?case by simp
qed simp

lemma be_bytes_be_nat: "be_bytes (length bs) (be_nat bs) = bs"
proof (induction bs rule: rev_induct)
  case (snoc b bs)
  have "be_nat (bs @ [b]) div 256 = be_nat bs"
    using unat_u8_less [of b] by (simp del: unat_u8_less)
  moreover have "be_nat (bs @ [b]) mod 256 = unat b"
    using unat_u8_less [of b] by (simp add: mod_mult_self3 del: unat_u8_less)
  ultimately show ?case using snoc by simp
qed simp

end
