(* ===== verification/Cbs.thy ===== *)
theory Cbs
  imports C_Prelude
begin

text \<open>
  The byte-string reader of \<open>crypto/bytestring/cbs.c\<close>.
\<close>

type_synonym cbs = bytes

subsection \<open>Raw reads\<close>

definition CBS_init :: "bytes \<Rightarrow> nat \<Rightarrow> cbs" where
  "CBS_init data len = take len data"

definition CBS_len :: "cbs \<Rightarrow> nat" where
  "CBS_len cbs = length cbs"

definition cbs_get :: "nat \<Rightarrow> (cbs, bytes) cfun" where
  "cbs_get n cbs = (if CBS_len cbs < n then (None, cbs) else (Some (take n cbs), drop n cbs))"

definition CBS_skip :: "nat \<Rightarrow> (cbs, unit) cfun" where
  "CBS_skip len cbs = (case cbs_get len cbs of
     (None, cbs') \<Rightarrow> (None, cbs') | (Some _, cbs') \<Rightarrow> (Some (), cbs'))"

definition CBS_stow :: "(nat \<Rightarrow> bool) \<Rightarrow> cbs \<Rightarrow> bytes option" where
  "CBS_stow malloc_ok cbs =
     (if CBS_len cbs = 0 then Some []
      else if \<not> malloc_ok (CBS_len cbs) then None
      else Some cbs)"

definition CBS_contains_zero_byte :: "cbs \<Rightarrow> bool" where
  "CBS_contains_zero_byte cbs = (0 \<in> set cbs)"

definition CBS_mem_equal :: "cbs \<Rightarrow> bytes \<Rightarrow> bool" where
  "CBS_mem_equal cbs data = (if length data \<noteq> CBS_len cbs then False else cbs = data)"

definition be_step :: "u64 \<Rightarrow> u8 \<Rightarrow> u64" where
  "be_step result b = push_bit 8 result OR ucast b"

definition cbs_get_u :: "nat \<Rightarrow> (cbs, u64) cfun" where
  "cbs_get_u len cbs = (case cbs_get len cbs of
     (None, cbs') \<Rightarrow> (None, cbs')
   | (Some data, cbs') \<Rightarrow> (Some (foldl be_step 0 data), cbs'))"

definition CBS_get_u8 :: "(cbs, u8) cfun" where
  "CBS_get_u8 cbs = (case cbs_get 1 cbs of
     (None, cbs') \<Rightarrow> (None, cbs') | (Some v, cbs') \<Rightarrow> (Some (hd v), cbs'))"

definition CBS_get_u16 :: "(cbs, u16) cfun" where
  "CBS_get_u16 cbs = (case cbs_get_u 2 cbs of
     (None, cbs') \<Rightarrow> (None, cbs') | (Some v, cbs') \<Rightarrow> (Some (ucast v), cbs'))"

definition CBS_get_u24 :: "(cbs, u32) cfun" where
  "CBS_get_u24 cbs = (case cbs_get_u 3 cbs of
     (None, cbs') \<Rightarrow> (None, cbs') | (Some v, cbs') \<Rightarrow> (Some (ucast v), cbs'))"

definition CBS_get_u32 :: "(cbs, u32) cfun" where
  "CBS_get_u32 cbs = (case cbs_get_u 4 cbs of
     (None, cbs') \<Rightarrow> (None, cbs') | (Some v, cbs') \<Rightarrow> (Some (ucast v), cbs'))"

definition CBS_get_u64 :: "(cbs, u64) cfun" where
  "CBS_get_u64 cbs = cbs_get_u 8 cbs"

text \<open>The portable byte swaps of \<open>crypto/internal.h\<close>.\<close>

definition CRYPTO_bswap2 :: "u16 \<Rightarrow> u16" where
  "CRYPTO_bswap2 x = drop_bit 8 x OR push_bit 8 x"

definition CRYPTO_bswap4 :: "u32 \<Rightarrow> u32" where
  "CRYPTO_bswap4 x =
     (let x = drop_bit 16 x OR push_bit 16 x
      in drop_bit 8 (x AND 0xff00ff00) OR push_bit 8 (x AND 0x00ff00ff))"

definition CRYPTO_bswap8 :: "u64 \<Rightarrow> u64" where
  "CRYPTO_bswap8 x =
     ucast (CRYPTO_bswap4 (ucast (drop_bit 32 x))) OR push_bit 32 (ucast (CRYPTO_bswap4 (ucast x)))"

definition CBS_get_u16le :: "(cbs, u16) cfun" where
  "CBS_get_u16le cbs = (case CBS_get_u16 cbs of
     (None, cbs') \<Rightarrow> (None, cbs') | (Some v, cbs') \<Rightarrow> (Some (CRYPTO_bswap2 v), cbs'))"

definition CBS_get_u32le :: "(cbs, u32) cfun" where
  "CBS_get_u32le cbs = (case CBS_get_u32 cbs of
     (None, cbs') \<Rightarrow> (None, cbs') | (Some v, cbs') \<Rightarrow> (Some (CRYPTO_bswap4 v), cbs'))"

definition CBS_get_u64le :: "(cbs, u64) cfun" where
  "CBS_get_u64le cbs = (case cbs_get_u 8 cbs of
     (None, cbs') \<Rightarrow> (None, cbs') | (Some v, cbs') \<Rightarrow> (Some (CRYPTO_bswap8 v), cbs'))"

definition CBS_get_last_u8 :: "(cbs, u8) cfun" where
  "CBS_get_last_u8 cbs =
     (if CBS_len cbs = 0 then (None, cbs)
      else (Some (cbs ! (CBS_len cbs - 1)), take (CBS_len cbs - 1) cbs))"

definition CBS_get_bytes :: "nat \<Rightarrow> (cbs, cbs) cfun" where
  "CBS_get_bytes len cbs = (case cbs_get len cbs of
     (None, cbs') \<Rightarrow> (None, cbs') | (Some v, cbs') \<Rightarrow> (Some (CBS_init v len), cbs'))"

definition CBS_copy_bytes :: "nat \<Rightarrow> (cbs, bytes) cfun" where
  "CBS_copy_bytes len cbs = cbs_get len cbs"

definition cbs_get_length_prefixed :: "nat \<Rightarrow> (cbs, cbs) cfun" where
  "cbs_get_length_prefixed len_len cbs = (case cbs_get_u len_len cbs of
     (None, cbs') \<Rightarrow> (None, cbs')
   | (Some len, cbs') \<Rightarrow> CBS_get_bytes (unat len) cbs')"

definition CBS_get_u8_length_prefixed :: "(cbs, cbs) cfun" where
  "CBS_get_u8_length_prefixed = cbs_get_length_prefixed 1"

definition CBS_get_u16_length_prefixed :: "(cbs, cbs) cfun" where
  "CBS_get_u16_length_prefixed = cbs_get_length_prefixed 2"

definition CBS_get_u24_length_prefixed :: "(cbs, cbs) cfun" where
  "CBS_get_u24_length_prefixed = cbs_get_length_prefixed 3"

text \<open>\<open>memchr\<close>: the index of the first byte equal to \<open>c\<close>.\<close>

fun memchr :: "u8 \<Rightarrow> bytes \<Rightarrow> nat option" where
  "memchr c [] = None"
| "memchr c (x # xs) = (if x = c then Some 0 else map_option Suc (memchr c xs))"

definition CBS_get_until_first :: "u8 \<Rightarrow> (cbs, cbs) cfun" where
  "CBS_get_until_first c cbs = (case memchr c cbs of
     None \<Rightarrow> (None, cbs)
   | Some split \<Rightarrow> CBS_get_bytes split cbs)"

subsection \<open>ASN.1 elements\<close>

definition CBS_ASN1_TAG_SHIFT :: nat where "CBS_ASN1_TAG_SHIFT = 24"
definition CBS_ASN1_CONSTRUCTED :: u32 where
  "CBS_ASN1_CONSTRUCTED = push_bit CBS_ASN1_TAG_SHIFT 0x20"
definition CBS_ASN1_TAG_NUMBER_MASK :: u32 where
  "CBS_ASN1_TAG_NUMBER_MASK = push_bit (5 + CBS_ASN1_TAG_SHIFT) 1 - 1"
definition CBS_ASN1_BOOLEAN :: u32 where "CBS_ASN1_BOOLEAN = 0x1"
definition CBS_ASN1_INTEGER :: u32 where "CBS_ASN1_INTEGER = 0x2"
definition CBS_ASN1_OCTETSTRING :: u32 where "CBS_ASN1_OCTETSTRING = 0x4"

fun parse_base128_loop :: "u64 \<Rightarrow> (cbs, u64) cfun" where
  "parse_base128_loop v [] = (None, [])"
| "parse_base128_loop v (b # cbs) =
     (if drop_bit (64 - 7) v \<noteq> 0 then (None, cbs)
      else if v = 0 \<and> b = 0x80 then (None, cbs)
      else let v' = push_bit 7 v OR ucast (b AND 0x7f)
           in if b AND 0x80 \<noteq> 0 then parse_base128_loop v' cbs else (Some v', cbs))"

definition parse_base128_integer :: "(cbs, u64) cfun" where
  "parse_base128_integer cbs = parse_base128_loop 0 cbs"

definition parse_asn1_tag :: "(cbs, u32) cfun" where
  "parse_asn1_tag cbs = (case CBS_get_u8 cbs of
     (None, cbs') \<Rightarrow> (None, cbs')
   | (Some tag_byte, cbs') \<Rightarrow>
       let tag = push_bit CBS_ASN1_TAG_SHIFT (ucast tag_byte AND 0xe0 :: u32);
           tag_number = ucast (tag_byte AND 0x1f) :: u32
       in if tag_number = 0x1f then
            (case parse_base128_integer cbs' of
               (None, cbs'') \<Rightarrow> (None, cbs'')
             | (Some v, cbs'') \<Rightarrow>
                 if v > ucast CBS_ASN1_TAG_NUMBER_MASK \<or> v < 0x1f then (None, cbs'')
                 else (Some (tag OR ucast v), cbs''))
          else (Some (tag OR tag_number), cbs'))"

text \<open>What \<open>cbs_get_any_asn1_element\<close> writes through its out-parameters.\<close>

record asn1_element =
  elt_out :: cbs
  elt_tag :: u32
  elt_header_len :: nat
  elt_ber_found :: bool

definition get_element :: "cbs \<Rightarrow> nat \<Rightarrow> u32 \<Rightarrow> nat \<Rightarrow> bool \<Rightarrow> asn1_element option \<times> cbs" where
  "get_element cbs len tag header_len ber_found = (case CBS_get_bytes len cbs of
     (None, cbs') \<Rightarrow> (None, cbs')
   | (Some out, cbs') \<Rightarrow>
       (Some \<lparr>elt_out = out, elt_tag = tag, elt_header_len = header_len,
              elt_ber_found = ber_found\<rparr>, cbs'))"

definition cbs_get_any_asn1_element :: "bool \<Rightarrow> (cbs, asn1_element) cfun" where
  "cbs_get_any_asn1_element ber_ok cbs = (case parse_asn1_tag cbs of
     (None, _) \<Rightarrow> (None, cbs)
   | (Some tag, header) \<Rightarrow> (case CBS_get_u8 header of
       (None, _) \<Rightarrow> (None, cbs)
     | (Some length_byte, header) \<Rightarrow>
       let header_len = CBS_len cbs - CBS_len header in
       if length_byte AND 0x80 = 0 then
         get_element cbs (unat length_byte + header_len) tag header_len False
       else
         let num_bytes = unat (length_byte AND 0x7f) in
         if ber_ok \<and> tag AND CBS_ASN1_CONSTRUCTED \<noteq> 0 \<and> num_bytes = 0 then
           get_element cbs header_len tag header_len True
         else if num_bytes = 0 \<or> num_bytes > 4 then (None, cbs)
         else (case cbs_get_u num_bytes header of
           (None, _) \<Rightarrow> (None, cbs)
         | (Some len64, _) \<Rightarrow>
           if len64 < 128 \<and> \<not> ber_ok then (None, cbs)
           else if drop_bit ((num_bytes - 1) * 8) len64 = 0 \<and> \<not> ber_ok then (None, cbs)
           else if szadd (unat len64) (header_len + num_bytes) < unat len64 then (None, cbs)
           else get_element cbs (szadd (unat len64) (header_len + num_bytes)) tag
                  (header_len + num_bytes)
                  (len64 < 128 \<or> drop_bit ((num_bytes - 1) * 8) len64 = 0))))"

definition CBS_get_any_asn1_element :: "(cbs, asn1_element) cfun" where
  "CBS_get_any_asn1_element cbs = cbs_get_any_asn1_element False cbs"

definition CBS_get_any_ber_asn1_element :: "(cbs, asn1_element) cfun" where
  "CBS_get_any_ber_asn1_element cbs = cbs_get_any_asn1_element True cbs"

definition CBS_get_any_asn1 :: "(cbs, cbs \<times> u32) cfun" where
  "CBS_get_any_asn1 cbs = (case CBS_get_any_asn1_element cbs of
     (None, cbs') \<Rightarrow> (None, cbs')
   | (Some e, cbs') \<Rightarrow> (case CBS_skip (elt_header_len e) (elt_out e) of
       (None, _) \<Rightarrow> (None, cbs')
     | (Some _, out) \<Rightarrow> (Some (out, elt_tag e), cbs')))"

definition cbs_get_asn1 :: "u32 \<Rightarrow> bool \<Rightarrow> (cbs, cbs) cfun" where
  "cbs_get_asn1 tag_value skip_header cbs = (case CBS_get_any_asn1_element cbs of
     (None, cbs') \<Rightarrow> (None, cbs')
   | (Some e, cbs') \<Rightarrow>
       if elt_tag e \<noteq> tag_value then (None, cbs')
       else if skip_header then
         (case CBS_skip (elt_header_len e) (elt_out e) of
            (None, _) \<Rightarrow> (None, cbs') | (Some _, out) \<Rightarrow> (Some out, cbs'))
       else (Some (elt_out e), cbs'))"

definition CBS_get_asn1 :: "u32 \<Rightarrow> (cbs, cbs) cfun" where
  "CBS_get_asn1 tag_value = cbs_get_asn1 tag_value True"

definition CBS_get_asn1_element :: "u32 \<Rightarrow> (cbs, cbs) cfun" where
  "CBS_get_asn1_element tag_value = cbs_get_asn1 tag_value False"

definition CBS_peek_asn1_tag :: "cbs \<Rightarrow> u32 \<Rightarrow> bool" where
  "CBS_peek_asn1_tag cbs tag_value =
     (if CBS_len cbs < 1 then False
      else case parse_asn1_tag cbs of
             (None, _) \<Rightarrow> False | (Some actual_tag, _) \<Rightarrow> tag_value = actual_tag)"

subsection \<open>ASN.1 values\<close>

text \<open>Whether the contents are a minimal INTEGER and, if so, its sign.\<close>

definition CBS_is_valid_asn1_integer :: "cbs \<Rightarrow> bool option" where
  "CBS_is_valid_asn1_integer cbs = (case CBS_get_u8 cbs of
     (None, _) \<Rightarrow> None
   | (Some first_byte, copy) \<Rightarrow>
       let is_negative = (first_byte AND 0x80 \<noteq> 0) in
       (case CBS_get_u8 copy of
          (None, _) \<Rightarrow> Some is_negative
        | (Some second_byte, _) \<Rightarrow>
            if (first_byte = 0x00 \<and> second_byte AND 0x80 = 0) \<or>
               (first_byte = 0xff \<and> second_byte AND 0x80 \<noteq> 0) then None
            else Some is_negative))"

definition CBS_is_unsigned_asn1_integer :: "cbs \<Rightarrow> bool" where
  "CBS_is_unsigned_asn1_integer cbs = (CBS_is_valid_asn1_integer cbs = Some False)"

fun asn1_uint64_loop :: "u64 \<Rightarrow> bytes \<Rightarrow> u64 option" where
  "asn1_uint64_loop out [] = Some out"
| "asn1_uint64_loop out (b # data) =
     (if drop_bit 56 out \<noteq> 0 then None else asn1_uint64_loop (be_step out b) data)"

definition CBS_get_asn1_uint64 :: "(cbs, u64) cfun" where
  "CBS_get_asn1_uint64 cbs = (case CBS_get_asn1 CBS_ASN1_INTEGER cbs of
     (None, cbs') \<Rightarrow> (None, cbs')
   | (Some bytes, cbs') \<Rightarrow>
       if \<not> CBS_is_unsigned_asn1_integer bytes then (None, cbs')
       else (asn1_uint64_loop 0 bytes, cbs'))"

text \<open>
  The value of an \<open>int64_t\<close> as its 64 bits. The union reads eight bytes as an integer in the
  order of the target, least significant first.
\<close>

fun le_word :: "bytes \<Rightarrow> u64" where
  "le_word [] = 0"
| "le_word (b # bs) = ucast b OR push_bit 8 (le_word bs)"

definition CBS_get_asn1_int64 :: "(cbs, u64) cfun" where
  "CBS_get_asn1_int64 cbs = (case CBS_get_asn1 CBS_ASN1_INTEGER cbs of
     (None, cbs') \<Rightarrow> (None, cbs')
   | (Some bytes, cbs') \<Rightarrow> (case CBS_is_valid_asn1_integer bytes of
       None \<Rightarrow> (None, cbs')
     | Some is_negative \<Rightarrow>
         if CBS_len bytes > 8 then (None, cbs')
         else let u = replicate 8 (if is_negative then 0xff else 0);
                  u' = fold (\<lambda>i u. u[i := bytes ! (length bytes - i - 1)]) [0..<length bytes] u
              in (Some (le_word u'), cbs')))"

definition CBS_get_asn1_bool :: "(cbs, bool) cfun" where
  "CBS_get_asn1_bool cbs = (case CBS_get_asn1 CBS_ASN1_BOOLEAN cbs of
     (None, cbs') \<Rightarrow> (None, cbs')
   | (Some bytes, cbs') \<Rightarrow>
       if CBS_len bytes \<noteq> 1 then (None, cbs')
       else let value = hd bytes
            in if value \<noteq> 0 \<and> value \<noteq> 0xff then (None, cbs') else (Some (value \<noteq> 0), cbs'))"

text \<open>The result is the contents when the element is present.\<close>

definition CBS_get_optional_asn1 :: "u32 \<Rightarrow> (cbs, cbs option) cfun" where
  "CBS_get_optional_asn1 tag cbs =
     (if CBS_peek_asn1_tag cbs tag then
        (case CBS_get_asn1 tag cbs of
           (None, cbs') \<Rightarrow> (None, cbs') | (Some out, cbs') \<Rightarrow> (Some (Some out), cbs'))
      else (Some None, cbs))"

definition CBS_get_optional_asn1_octet_string :: "u32 \<Rightarrow> (cbs, cbs \<times> bool) cfun" where
  "CBS_get_optional_asn1_octet_string tag cbs = (case CBS_get_optional_asn1 tag cbs of
     (None, cbs') \<Rightarrow> (None, cbs')
   | (Some None, cbs') \<Rightarrow> (Some (CBS_init [] 0, False), cbs')
   | (Some (Some child), cbs') \<Rightarrow> (case CBS_get_asn1 CBS_ASN1_OCTETSTRING child of
       (None, _) \<Rightarrow> (None, cbs')
     | (Some out, child') \<Rightarrow>
         if CBS_len child' \<noteq> 0 then (None, cbs') else (Some (out, True), cbs')))"

definition CBS_get_optional_asn1_uint64 :: "u32 \<Rightarrow> u64 \<Rightarrow> (cbs, u64) cfun" where
  "CBS_get_optional_asn1_uint64 tag default_value cbs = (case CBS_get_optional_asn1 tag cbs of
     (None, cbs') \<Rightarrow> (None, cbs')
   | (Some None, cbs') \<Rightarrow> (Some default_value, cbs')
   | (Some (Some child), cbs') \<Rightarrow> (case CBS_get_asn1_uint64 child of
       (None, _) \<Rightarrow> (None, cbs')
     | (Some out, child') \<Rightarrow>
         if CBS_len child' \<noteq> 0 then (None, cbs') else (Some out, cbs')))"

definition CBS_get_optional_asn1_bool :: "u32 \<Rightarrow> bool \<Rightarrow> (cbs, bool) cfun" where
  "CBS_get_optional_asn1_bool tag default_value cbs = (case CBS_get_optional_asn1 tag cbs of
     (None, cbs') \<Rightarrow> (None, cbs')
   | (Some None, cbs') \<Rightarrow> (Some default_value, cbs')
   | (Some (Some child), cbs') \<Rightarrow> (case CBS_get_asn1 CBS_ASN1_BOOLEAN child of
       (None, _) \<Rightarrow> (None, cbs')
     | (Some child2, child') \<Rightarrow>
         if CBS_len child2 \<noteq> 1 \<or> CBS_len child' \<noteq> 0 then (None, cbs')
         else let boolean = child2 ! 0
              in if boolean = 0 then (Some False, cbs')
                 else if boolean = 0xff then (Some True, cbs')
                 else (None, cbs')))"

definition CBS_is_valid_asn1_bitstring :: "cbs \<Rightarrow> bool" where
  "CBS_is_valid_asn1_bitstring cbs = (case CBS_get_u8 cbs of
     (None, _) \<Rightarrow> False
   | (Some num_unused_bits, inp) \<Rightarrow>
       if num_unused_bits > 7 then False
       else if num_unused_bits = 0 then True
       else (case CBS_get_last_u8 inp of
          (None, _) \<Rightarrow> False
        | (Some last_byte, _) \<Rightarrow> last_byte AND (push_bit (unat num_unused_bits) 1 - 1) = 0))"

definition CBS_asn1_bitstring_has_bit :: "cbs \<Rightarrow> u32 \<Rightarrow> bool" where
  "CBS_asn1_bitstring_has_bit cbs bit_index =
     (if \<not> CBS_is_valid_asn1_bitstring cbs then False
      else let byte_num = unat (drop_bit 3 bit_index + 1);
               bit_num = unat (7 - (bit_index AND 7))
           in byte_num < CBS_len cbs \<and> (cbs ! byte_num) AND push_bit bit_num 1 \<noteq> 0)"

end
