(* ===== verification/Der.thy ===== *)
theory Der
  imports Cbs
begin

text \<open>
  DER as a specification: base-128 numbers, tags, lengths and elements as byte strings, and that
  the parsers of \<open>cbs.c\<close> accept exactly these encodings. The integers are the two's complement
  values of minimal contents.
\<close>

function base128_hi :: "nat \<Rightarrow> bytes" where
  "base128_hi w = (if w = 0 then [] else base128_hi (w div 128) @ [of_nat (128 + w mod 128)])"
  by pat_completeness auto
termination by (relation "measure id") auto
declare base128_hi.simps [simp del]

definition base128 :: "nat \<Rightarrow> bytes" where
  "base128 v = base128_hi (v div 128) @ [of_nat (v mod 128)]"

lemma base128_hi_0 [simp]: "base128_hi 0 = []"
  by (subst base128_hi.simps) simp

lemma base128_hi_snoc: "w * 128 + d \<noteq> 0 \<Longrightarrow> d < 128 \<Longrightarrow>
   base128_hi (w * 128 + d) = base128_hi w @ [of_nat (128 + d)]"
  by (subst base128_hi.simps) auto

lemma unat_base128_step:
  fixes v :: u64 and b :: u8
  assumes "drop_bit 57 v = 0"
  shows "unat (push_bit 7 v OR ucast (b AND 0x7f)) = unat v * 128 + unat b mod 128"
proof -
  have v: "unat v < 2 ^ 57"
    using assms by (simp add: word_unat_eq_iff word_nat div_eq_0_iff)
  have "push_bit 7 v OR ucast (b AND 0x7f) = v * 2 ^ 7 + ucast (b AND 0x7f)"
    by (rule push_or_ucast) (simp add: mask_simps word_nat)
  also have "unat \<dots> = unat v * 128 + unat b mod 128"
    using v by (simp add: unat_word_ariths mask_simps word_nat)
  finally show ?thesis .
qed

lemma high_byte_eq: "128 \<le> unat (b :: u8) \<Longrightarrow> of_nat (128 + unat b mod 128) = b"
proof -
  assume "128 \<le> unat b"
  then have "128 + unat b mod 128 = unat b"
    by (rule unat_u8_mod_128)
  then show ?thesis by (simp only: word_unat_eq_iff unat_byte_of_nat) simp
qed

lemma low_byte_eq: "unat (b :: u8) < 128 \<Longrightarrow> of_nat (unat b mod 128) = b"
  by (simp add: word_unat_eq_iff)

lemma parse_base128_sound:
  assumes "parse_base128_loop v cbs = (Some r, rest)"
  shows "\<exists>ds. cbs = ds @ rest \<and> base128_hi (unat v) @ ds = base128 (unat r)"
  using assms
proof (induction v cbs rule: parse_base128_loop.induct)
  case (1 v)
  then show ?case by simp
next
  case (2 v b cbs)
  define v' where "v' = push_bit 7 v OR ucast (b AND 0x7f)"
  from 2(2) have d: "drop_bit 57 v = 0" and nz: "\<not> (v = 0 \<and> b = 0x80)"
    by (auto split: if_splits)
  have v': "unat v' = unat v * 128 + unat b mod 128"
    unfolding v'_def by (rule unat_base128_step [OF d])
  show ?case
  proof (cases "b AND 0x80 = 0")
    case True
    with 2(2) d nz have "v' = r" "cbs = rest" by (auto simp: v'_def)
    moreover have "unat b < 128" using True by (simp add: and_80_u8)
    ultimately show ?thesis using v' by (auto simp: base128_def low_byte_eq)
  next
    case False
    then have b: "128 \<le> unat b" by (simp add: and_80_u8)
    have nz': "unat v * 128 + unat b mod 128 \<noteq> 0"
    proof
      assume "unat v * 128 + unat b mod 128 = 0"
      then have "unat v = 0" "unat b mod 128 = 0" by auto
      then have "v = 0" and "unat b = 128"
        using unat_u8_mod_128 [OF b] by (simp_all add: word_unat_eq_iff)
      then show False using nz by (auto simp: word_unat_eq_iff)
    qed
    have hi: "base128_hi (unat v') = base128_hi (unat v) @ [b]"
      unfolding v' using base128_hi_snoc [OF nz'] b by (simp add: high_byte_eq del: of_nat_add)
    from 2(2) d nz False have "parse_base128_loop v' cbs = (Some r, rest)" by (simp add: v'_def)
    then obtain ds where "cbs = ds @ rest" "base128_hi (unat v') @ ds = base128 (unat r)"
      using 2(1) [OF _ nz v'_def] d False by auto
    with hi show ?thesis by (intro exI [of _ "b # ds"]) simp
  qed
qed

lemma parse_base128_hi:
  assumes "w < 2 ^ 57"
  shows "parse_base128_loop 0 (base128_hi w @ cs) = parse_base128_loop (of_nat w) cs"
  using assms
proof (induction w arbitrary: cs rule: base128_hi.induct)
  case (1 w)
  show ?case
  proof (cases "w = 0")
    case False
    define b :: u8 where "b = of_nat (128 + w mod 128)"
    have b: "unat b = 128 + w mod 128" by (simp add: b_def del: of_nat_add)
    have w': "w div 128 < 2 ^ 57" using 1(2) by simp
    have d: "drop_bit 57 (of_nat (w div 128) :: u64) = 0"
      using 1(2) by (simp add: word_unat_eq_iff word_nat unat_of_nat)
    have "base128_hi w @ cs = base128_hi (w div 128) @ b # cs"
      using False by (subst base128_hi.simps) (simp add: b_def)
    then have "parse_base128_loop 0 (base128_hi w @ cs) = parse_base128_loop (of_nat (w div 128)) (b # cs)"
      using 1(1) [OF False w'] by simp
    also have "\<dots> = parse_base128_loop (push_bit 7 (of_nat (w div 128)) OR ucast (b AND 0x7f)) cs"
    proof -
      have "\<not> ((of_nat (w div 128) :: u64) = 0 \<and> b = 0x80)"
      proof
        assume "(of_nat (w div 128) :: u64) = 0 \<and> b = 0x80"
        then have "unat (of_nat (w div 128) :: u64) = 0" and "unat b = 128" by simp_all
        then have "w div 128 = 0" and "w mod 128 = 0"
          using 1(2) b by (simp_all add: unat_of_nat)
        with False show False using div_mult_mod_eq [of w 128] by simp
      qed
      moreover have "b AND 0x80 \<noteq> 0" using b by (simp add: and_80_u8)
      ultimately show ?thesis using d by auto
    qed
    also have "push_bit 7 (of_nat (w div 128)) OR ucast (b AND 0x7f) = (of_nat w :: u64)"
      using 1(2) by (simp only: word_unat_eq_iff unat_base128_step [OF d]) (simp add: b unat_of_nat)
    finally show ?thesis .
  qed simp
qed


lemma parse_base128_complete:
  assumes "v < 2 ^ 64"
  shows "parse_base128_integer (base128 v @ rest) = (Some (of_nat v), rest)"
proof -
  have hi: "v div 128 < 2 ^ 57" using assms by (simp add: div_less_iff_less_mult)
  have d: "drop_bit 57 (of_nat (v div 128) :: u64) = 0"
    using assms by (simp add: word_unat_eq_iff word_nat unat_of_nat)
  define b :: u8 where "b = of_nat (v mod 128)"
  have b: "unat b = v mod 128" by (simp add: b_def)
  have "parse_base128_integer (base128 v @ rest) = parse_base128_loop (of_nat (v div 128)) (b # rest)"
    using parse_base128_hi [OF hi, of "b # rest"]
    by (simp add: parse_base128_integer_def base128_def b_def)
  also have "b \<noteq> 0x80" and "b AND 0x80 = 0" using b
    by (simp add: word_unat_eq_iff, simp add: and_80_u8)
  then have "parse_base128_loop (of_nat (v div 128)) (b # rest) =
      (Some (push_bit 7 (of_nat (v div 128)) OR ucast (b AND 0x7f)), rest)"
    using d by simp
  also have "push_bit 7 (of_nat (v div 128)) OR ucast (b AND 0x7f) = (of_nat v :: u64)"
    using assms by (simp only: word_unat_eq_iff unat_base128_step [OF d]) (simp add: b unat_of_nat)
  finally show ?thesis .
qed

lemma parse_base128_iff:
  "parse_base128_integer cbs = (Some v, rest) \<longleftrightarrow> cbs = base128 (unat v) @ rest"
  using parse_base128_sound [of 0 cbs v rest] parse_base128_complete [of "unat v" rest]
    unat_bound [of v]
  by (auto simp: parse_base128_integer_def)

lemma length_base128_hi: "w < 128 ^ n \<Longrightarrow> length (base128_hi w) \<le> n"
proof (induction n arbitrary: w)
  case (Suc n)
  show ?case
  proof (cases "w = 0")
    case False
    have "w div 128 < 128 ^ n" using Suc.prems by (simp add: div_less_iff_less_mult mult.commute)
    from Suc.IH [OF this] False show ?thesis by (subst base128_hi.simps) simp
  qed simp
qed simp

lemma length_base128: "v < 128 ^ Suc n \<Longrightarrow> length (base128 v) \<le> Suc n"
  by (simp add: base128_def length_base128_hi div_less_iff_less_mult mult.commute)

subsection \<open>Tags and lengths\<close>

definition der_tag :: "u32 \<Rightarrow> bytes" where
  "der_tag tag =
     (let hi = unat tag div 2 ^ 29 * 32; num = unat tag mod 2 ^ 29
      in if num < 31 then [of_nat (hi + num)] else of_nat (hi + 31) # base128 num)"

definition len_bytes :: "nat \<Rightarrow> nat" where
  "len_bytes n = (if n < 2 ^ 8 then 1 else if n < 2 ^ 16 then 2 else if n < 2 ^ 24 then 3 else 4)"

definition der_len :: "nat \<Rightarrow> bytes" where
  "der_len n = (if n < 128 then [of_nat n] else of_nat (128 + len_bytes n) # be_bytes (len_bytes n) n)"

definition der_header :: "u32 \<Rightarrow> nat \<Rightarrow> bytes" where
  "der_header tag n = der_tag tag @ der_len n"

lemma get_u8_Nil [simp]: "CBS_get_u8 [] = (None, [])"
  and get_u8_Cons [simp]: "CBS_get_u8 (b # cbs) = (Some b, cbs)"
  by (simp_all add: CBS_get_u8_def cbs_get_def CBS_len_def)

lemma be_step_val: "be_step r b = r * 256 + ucast b"
  using push_or_ucast [of b 8 r] by (simp add: be_step_def)

lemma be_fold: "foldl be_step r bs = r * 256 ^ length bs + of_nat (be_nat bs)"
proof (induction bs arbitrary: r)
  case (Cons b bs)
  have "(ucast b :: u64) = of_nat (unat b)" by (simp add: word_unat_eq_iff)
  then show ?case by (simp add: Cons) (simp add: be_step_val algebra_simps)
qed simp

lemma unat_be_fold: "length bs \<le> 8 \<Longrightarrow> unat (foldl be_step 0 bs) = be_nat bs"
proof -
  assume "length bs \<le> 8"
  then have "(256::nat) ^ length bs \<le> 256 ^ 8" by (intro power_increasing) simp_all
  then have "be_nat bs < 2 ^ 64" using be_nat_bound [of bs] by simp
  then show ?thesis by (simp add: be_fold unat_of_nat)
qed

lemma tag_or:
  fixes tb :: u8 and n :: u32
  assumes "unat n < 2 ^ 29"
  shows "unat (push_bit 24 (ucast tb AND 0xe0) OR n) = unat tb div 32 * 2 ^ 29 + unat n"
proof -
  have e0: "(0xe0 :: u32) = push_bit 5 (mask 3)" by (simp add: mask_numeral)
  have "push_bit 24 (ucast tb AND 0xe0 :: u32) = push_bit 29 (ucast (drop_bit 5 tb))"
    unfolding e0 by (rule bit_word_eqI) (auto simp: bit_simps dest: bit_imp_le_length)
  then have "push_bit 24 (ucast tb AND 0xe0) OR n = ucast (drop_bit 5 tb) * 2 ^ 29 + n"
    using push_or_ucast [OF assms, of "ucast (drop_bit 5 tb) :: u32"] by (simp only: ucast_id)
  moreover have "unat (ucast (drop_bit 5 tb) :: u32) = unat tb div 32"
    by (simp add: word_nat)
  moreover have "unat tb div 32 * 2 ^ 29 + unat n < 2 ^ 32"
  proof -
    have "unat tb div 32 < 8" using unat_u8_less [of tb] by (simp add: div_less_iff_less_mult del: unat_u8_less)
    then have "unat tb div 32 \<le> 7" by simp
    then show ?thesis using assms by simp
  qed
  ultimately show ?thesis by (simp add: unat_word_ariths)
qed


lemma and_1f_ucast: "(ucast ((tb :: u8) AND 0x1f) :: u32) = 0x1f \<longleftrightarrow> unat tb mod 32 = 31"
  by (simp add: word_unat_eq_iff mask_simps word_nat)


lemma eq_divmod_iff: "r < k \<Longrightarrow> n = q * k + r \<longleftrightarrow> n div k = q \<and> n mod k = r" for n :: nat
  by (auto simp: div_mult_mod_eq)

lemma der_tag_first:
  fixes tb :: u8
  shows "tb # cbs = der_tag tag @ rest \<longleftrightarrow>
    unat tb div 32 = unat tag div 2 ^ 29 \<and>
    (if unat tag mod 2 ^ 29 < 31 then unat tb mod 32 = unat tag mod 2 ^ 29 \<and> cbs = rest
     else unat tb mod 32 = 31 \<and> cbs = base128 (unat tag mod 2 ^ 29) @ rest)"
proof -
  define c where "c = unat tag div 2 ^ 29"
  define m where "m = min (unat tag mod 2 ^ 29) 31"
  have c: "c < 8" using unat_u32_less [of tag] by (simp add: c_def div_less_iff_less_mult)
  have m: "m < 32" by (simp add: m_def)
  have "tb = of_nat (c * 32 + m) \<longleftrightarrow> unat tb = c * 32 + m"
    using c m by (simp add: word_unat_eq_iff del: of_nat_add of_nat_mult)
  also have "\<dots> \<longleftrightarrow> unat tb div 32 = c \<and> unat tb mod 32 = m"
    using m by (rule eq_divmod_iff)
  finally show ?thesis
    by (auto simp: der_tag_def Let_def c_def m_def)
qed

lemma parse_asn1_tag_iff:
  "parse_asn1_tag cbs = (Some tag, rest) \<longleftrightarrow> cbs = der_tag tag @ rest"
proof (cases cbs)
  case Nil
  then show ?thesis
    by (simp add: parse_asn1_tag_def der_tag_def Let_def)
next
  case (Cons tb cbs')
  show ?thesis
  proof (cases "unat tb mod 32 = 31")
    case True
    have m: "unat (ucast CBS_ASN1_TAG_NUMBER_MASK :: u64) = 2 ^ 29 - 1"
      by (simp add: CBS_ASN1_TAG_NUMBER_MASK_def CBS_ASN1_TAG_SHIFT_def)
    have v: "push_bit 24 (ucast tb AND 0xe0) OR ucast v = tag \<longleftrightarrow>
        unat tb div 32 = unat tag div 2 ^ 29 \<and> unat v = unat tag mod 2 ^ 29" if "unat v < 2 ^ 29" for v :: u64
    proof -
      have "unat (ucast v :: u32) = unat v" using that by (simp add: word_nat)
      then have "push_bit 24 (ucast tb AND 0xe0) OR ucast v = tag \<longleftrightarrow>
          unat tag = unat tb div 32 * 2 ^ 29 + unat v"
        using that tag_or [of "ucast v" tb] by (auto simp: word_unat_eq_iff)
      with that show ?thesis by (auto simp: eq_divmod_iff)
    qed
    have "parse_asn1_tag cbs = (Some tag, rest) \<longleftrightarrow>
       (\<exists>v. parse_base128_integer cbs' = (Some v, rest) \<and> 31 \<le> unat v \<and> unat v < 2 ^ 29 \<and>
            push_bit 24 (ucast tb AND 0xe0) OR ucast v = tag)"
      using True m
      by (auto simp: Cons parse_asn1_tag_def and_1f_ucast Let_def CBS_ASN1_TAG_SHIFT_def word_less_nat_alt
          split: option.splits prod.splits)
    also have "\<dots> \<longleftrightarrow> (\<exists>v :: u64. cbs' = base128 (unat v) @ rest \<and> 31 \<le> unat v \<and> unat v < 2 ^ 29 \<and>
            unat tb div 32 = unat tag div 2 ^ 29 \<and> unat v = unat tag mod 2 ^ 29)"
      using v by (auto simp: parse_base128_iff)
    also have "\<dots> \<longleftrightarrow> tb # cbs' = der_tag tag @ rest"
    proof -
      have "unat (of_nat (unat tag mod 2 ^ 29) :: u64) = unat tag mod 2 ^ 29"
        by (simp add: unat_of_nat)
      then show ?thesis
        unfolding der_tag_first using True
        by (auto simp: not_less intro!: exI [of _ "of_nat (unat tag mod 2 ^ 29)"])
    qed
    finally show ?thesis by (simp add: Cons)
  next
    case False
    define t :: u32 where "t = push_bit 24 (ucast tb AND 0xe0) OR ucast (tb AND 0x1f)"
    have "parse_asn1_tag cbs = (Some t, cbs')"
      using False by (simp add: Cons parse_asn1_tag_def and_1f_ucast Let_def CBS_ASN1_TAG_SHIFT_def t_def)
    moreover have "unat t = unat tb div 32 * 2 ^ 29 + unat tb mod 32"
      unfolding t_def by (subst tag_or) (simp_all add: mask_simps word_nat)
    then have "t = tag \<longleftrightarrow> unat tag = unat tb div 32 * 2 ^ 29 + unat tb mod 32"
      by (auto simp: word_unat_eq_iff)
    moreover have "unat tb mod 32 < 32" by simp
    ultimately show ?thesis
      using False by (auto simp: Cons der_tag_first eq_divmod_iff)
  qed
qed

lemma parse_asn1_tag_der [simp]: "parse_asn1_tag (der_tag tag @ rest) = (Some tag, rest)"
  by (simp add: parse_asn1_tag_iff)

lemma length_der_tag: "length (der_tag tag) \<le> 6"
proof -
  have "length (base128 (unat tag mod 2 ^ 29)) \<le> Suc 4"
    by (rule length_base128) simp
  then show ?thesis by (simp add: der_tag_def Let_def)
qed

lemma len_bytes_range [simp]: "0 < len_bytes n" "len_bytes n \<le> 4"
  by (simp_all add: len_bytes_def)

lemma len_bytes_iff:
  assumes "0 < k" "k \<le> 4" "128 \<le> n" "n < 2 ^ 32"
  shows "len_bytes n = k \<longleftrightarrow> n < 256 ^ k \<and> n div 256 ^ (k - 1) \<noteq> 0"
proof -
  from assms have "k = 1 \<or> k = 2 \<or> k = 3 \<or> k = 4" by linarith
  then show ?thesis using assms by (elim disjE) (auto simp: len_bytes_def div_eq_0_iff)
qed

lemma get_element_iff:
  "get_element cbs n tag hl bf = (Some e, rest) \<longleftrightarrow>
     n \<le> length cbs \<and> rest = drop n cbs \<and>
     e = \<lparr>elt_out = take n cbs, elt_tag = tag, elt_header_len = hl, elt_ber_found = bf\<rparr>"
  by (auto simp: get_element_def CBS_get_bytes_def cbs_get_def CBS_len_def CBS_init_def)

lemma get_element_append:
  "n = length out \<Longrightarrow> get_element (out @ rest) n tag hl bf =
     (Some \<lparr>elt_out = out, elt_tag = tag, elt_header_len = hl, elt_ber_found = bf\<rparr>, rest)"
  by (simp add: get_element_iff)

lemma cbs_get_u_append: "length ds = n \<Longrightarrow> n \<le> 8 \<Longrightarrow>
    cbs_get_u n (ds @ rest) = (Some (of_nat (be_nat ds)), rest)"
  by (auto simp: cbs_get_u_def cbs_get_def CBS_len_def be_fold)

lemma cbs_get_u_iff:
  assumes "n \<le> 8"
  shows "cbs_get_u n cbs = (Some v, rest) \<longleftrightarrow> n \<le> length cbs \<and> unat v = be_nat (take n cbs) \<and> rest = drop n cbs"
proof -
  have "unat (foldl be_step 0 (take n cbs)) = be_nat (take n cbs)"
    using assms by (intro unat_be_fold) simp
  then show ?thesis
    by (auto simp: cbs_get_u_def cbs_get_def CBS_len_def word_unat_eq_iff)
qed

definition der_element :: "asn1_element \<Rightarrow> bool" where
  "der_element e \<longleftrightarrow> (\<exists>contents. length contents < 2 ^ 32 \<and>
     elt_out e = der_header (elt_tag e) (length contents) @ contents \<and>
     elt_header_len e = length (der_header (elt_tag e) (length contents)) \<and> \<not> elt_ber_found e)"

lemma any_asn1_element_complete:
  assumes "length contents < 2 ^ 32"
  shows "CBS_get_any_asn1_element (der_header tag (length contents) @ contents @ rest) =
    (Some \<lparr>elt_out = der_header tag (length contents) @ contents, elt_tag = tag,
           elt_header_len = length (der_header tag (length contents)), elt_ber_found = False\<rparr>, rest)"
proof (cases "length contents < 128")
  case True
  define b :: u8 where "b = of_nat (length contents)"
  have b: "unat b = length contents" "b AND 0x80 = 0" using True by (simp_all add: b_def and_80_u8)
  show ?thesis using True b(2)
    by (simp add: CBS_get_any_asn1_element_def cbs_get_any_asn1_element_def der_header_def der_len_def
        CBS_len_def Let_def get_element_iff b(1) b_def [symmetric])
next
  case False
  define n k where "n = length contents" and "k = len_bytes n"
  define b :: u8 where "b = of_nat (128 + k)"
  have k: "0 < k" "k \<le> 4" by (simp_all add: k_def)
  have n: "128 \<le> n" "n < 2 ^ 32" using False assms by (simp_all add: n_def)
  have kk: "n < 256 ^ k" "n div 256 ^ (k - 1) \<noteq> 0"
    using len_bytes_iff [OF k n] by (simp_all add: k_def)
  have b: "unat b = 128 + k" using k by (simp add: b_def del: of_nat_add)
  have b': "b AND 0x80 \<noteq> 0" "unat (b AND 0x7f) = k"
    using b k by (simp_all add: and_80_u8 mask_simps word_nat)
  have get: "cbs_get_u k (be_bytes k n @ contents @ rest) = (Some (of_nat n), contents @ rest)"
    using k kk by (subst cbs_get_u_append) (simp_all add: be_nat_be_bytes)
  have un: "unat (of_nat n :: u64) = n" using n by (simp add: unat_of_nat)
  have lt: "\<not> (of_nat n :: u64) < 128" using n un by (simp add: word_less_nat_alt)
  have dr: "drop_bit ((k - 1) * 8) (of_nat n :: u64) \<noteq> 0"
    using kk(2) un by (simp add: word_unat_eq_iff word_nat power_mult mult.commute [of _ 8])
  have hl: "szadd n (Suc (length (der_tag tag) + k)) = Suc (length (der_tag tag) + k + n)"
    using n k length_der_tag [of tag] by (subst szadd_exact) (simp_all add: SIZE_MOD_def)
  have ge: "get_element (der_tag tag @ b # be_bytes k n @ contents @ rest) (Suc (length (der_tag tag) + k + n)) t h f =
      (Some \<lparr>elt_out = der_tag tag @ b # be_bytes k n @ contents, elt_tag = t, elt_header_len = h, elt_ber_found = f\<rparr>, rest)" for t h f
    using get_element_append [OF refl, of "der_tag tag @ b # be_bytes k n @ contents"]
    by (simp add: n_def ac_simps)
  show ?thesis
    using b' k get lt dr False
    by (simp add: CBS_get_any_asn1_element_def cbs_get_any_asn1_element_def der_header_def der_len_def
        CBS_len_def Let_def n_def [symmetric] k_def [symmetric] b_def [symmetric] un hl ge
        del: of_nat_add)
qed

lemma der_len_long:
  assumes "128 \<le> unat lb" "k = unat lb mod 128" "0 < k" "k \<le> 4" "k \<le> length h"
    and "n = be_nat (take k h)" "128 \<le> n" "n div 256 ^ (k - 1) \<noteq> 0"
  shows "der_len n = lb # take k h" and "n < 2 ^ 32"
proof -
  have lk: "length (take k h) = k" using assms by simp
  have n: "n < 256 ^ k" using be_nat_bound [of "take k h"] lk assms(6) by simp
  also have "(256 :: nat) ^ k \<le> 256 ^ 4" using assms(4) by (intro power_increasing) simp_all
  finally show n32: "n < 2 ^ 32" by simp
  have "len_bytes n = k" using len_bytes_iff [of k n] assms n n32 by simp
  moreover have "be_bytes k n = take k h" using be_bytes_be_nat [of "take k h"] lk assms(6) by simp
  moreover have "of_nat (128 + k) = lb" using assms(1,2) by (simp only: high_byte_eq)
  ultimately show "der_len n = lb # take k h" using assms(7) by (simp add: der_len_def del: of_nat_add)
qed

lemma der_elementI:
  assumes cbs: "cbs = der_header tag n @ h" and n: "n < 2 ^ 32"
    and get: "get_element cbs (length (der_header tag n) + n) tag (length (der_header tag n)) False = (Some e, rest)"
  shows "der_element e \<and> cbs = elt_out e @ rest"
proof -
  from get cbs have len: "n \<le> length h"
    and e: "e = \<lparr>elt_out = der_header tag n @ take n h, elt_tag = tag,
               elt_header_len = length (der_header tag n), elt_ber_found = False\<rparr>"
    and rest: "rest = drop n h"
    by (auto simp: get_element_iff)
  have "der_element e"
    unfolding der_element_def using len n by (intro exI [of _ "take n h"]) (simp add: e)
  with e rest cbs show ?thesis by simp
qed

lemma any_asn1_element_sound:
  assumes "CBS_get_any_asn1_element cbs = (Some e, rest)"
  shows "der_element e \<and> cbs = elt_out e @ rest"
proof -
  obtain tag h where tag: "parse_asn1_tag cbs = (Some tag, h)"
    using assms by (auto simp: CBS_get_any_asn1_element_def cbs_get_any_asn1_element_def split: prod.splits option.splits)
  then have cbs: "cbs = der_tag tag @ h" by (simp add: parse_asn1_tag_iff)
  obtain lb h2 where h: "h = lb # h2"
    using assms tag by (cases h) (auto simp: CBS_get_any_asn1_element_def cbs_get_any_asn1_element_def)
  define hl where "hl = Suc (length (der_tag tag))"
  have hl: "CBS_len cbs - CBS_len h2 = hl" by (simp add: CBS_len_def cbs h hl_def)
  show ?thesis
  proof (cases "lb AND 0x80 = 0")
    case True
    define n where "n = unat lb"
    have "get_element cbs (n + hl) tag hl False = (Some e, rest)"
      using assms True by (simp add: CBS_get_any_asn1_element_def cbs_get_any_asn1_element_def tag h Let_def hl n_def)
    moreover have "der_len n = [lb]" "n < 128" using True by (simp_all add: der_len_def and_80_u8 n_def)
    ultimately show ?thesis
      using der_elementI [of cbs tag n h2 e rest] by (simp add: cbs h der_header_def hl_def ac_simps)
  next
    case False
    define k where "k = unat lb mod 128"
    have k': "unat (lb AND 0x7f) = k" by (simp add: k_def mask_simps word_nat)
    have lb: "128 \<le> unat lb" using False by (simp add: and_80_u8)
    have k: "0 < k" "k \<le> 4"
      using assms False
      by (auto simp: CBS_get_any_asn1_element_def cbs_get_any_asn1_element_def tag h Let_def k' split: if_splits)
    then obtain v where v: "cbs_get_u k h2 = (Some v, drop k h2)"
      using assms False cbs_get_u_iff [of k h2]
      by (auto simp: CBS_get_any_asn1_element_def cbs_get_any_asn1_element_def tag h Let_def k'
          split: if_splits option.splits prod.splits)
    define n where "n = unat v"
    have kl: "k \<le> length h2" and nv: "n = be_nat (take k h2)"
      using v k cbs_get_u_iff [of k h2 v "drop k h2"] by (simp_all add: n_def)
    have c: "128 \<le> n" "n div 256 ^ (k - 1) \<noteq> 0" "\<not> szadd n (hl + k) < n"
      and get: "get_element cbs (szadd n (hl + k)) tag (hl + k) False = (Some e, rest)"
      using assms False k
      by (auto simp: CBS_get_any_asn1_element_def cbs_get_any_asn1_element_def tag h Let_def k' v hl n_def [symmetric]
          word_less_nat_alt word_unat_eq_iff word_nat power_mult mult.commute [of _ 8] split: if_splits)
    note dl = der_len_long [OF lb k_def k kl nv c(1,2)]
    have sz: "szadd n (hl + k) = hl + k + n"
      using dl(2) k length_der_tag [of tag] by (subst szadd_exact) (simp_all add: SIZE_MOD_def hl_def)
    show ?thesis
      using der_elementI [of cbs tag n "drop k h2" e rest] dl get [unfolded sz] kl
      by (simp add: cbs h der_header_def hl_def ac_simps)
  qed
qed

lemma any_asn1_element_iff:
  "CBS_get_any_asn1_element cbs = (Some e, rest) \<longleftrightarrow> der_element e \<and> cbs = elt_out e @ rest"
  (is "?parse \<longleftrightarrow> _")
proof
  assume r: "der_element e \<and> cbs = elt_out e @ rest"
  then obtain contents where c: "length contents < 2 ^ 32"
    "elt_out e = der_header (elt_tag e) (length contents) @ contents"
    "elt_header_len e = length (der_header (elt_tag e) (length contents))" "\<not> elt_ber_found e"
    by (auto simp: der_element_def)
  from any_asn1_element_complete [OF c(1), of "elt_tag e" rest] c r show ?parse
    by (cases e) simp
qed (rule any_asn1_element_sound)

lemma any_asn1_element_fail:
  "CBS_get_any_asn1_element cbs = (None, cbs') \<Longrightarrow> cbs' = cbs"
  by (auto simp: CBS_get_any_asn1_element_def cbs_get_any_asn1_element_def get_element_def
      CBS_get_bytes_def cbs_get_def Let_def split: prod.splits option.splits if_splits)

lemma CBS_get_asn1_iff:
  "CBS_get_asn1 tag cbs = (Some out, rest) \<longleftrightarrow>
     length out < 2 ^ 32 \<and> cbs = der_header tag (length out) @ out @ rest"
  (is "?parse \<longleftrightarrow> ?enc")
proof
  assume ?parse
  then obtain e where e: "CBS_get_any_asn1_element cbs = (Some e, rest)" "elt_tag e = tag"
    and out: "elt_header_len e \<le> length (elt_out e)" "out = drop (elt_header_len e) (elt_out e)"
    by (auto simp: CBS_get_asn1_def cbs_get_asn1_def CBS_skip_def cbs_get_def CBS_len_def
        split: prod.splits option.splits if_splits)
  then show ?enc by (auto simp: any_asn1_element_iff der_element_def)
next
  assume r: ?enc
  then show ?parse
    using any_asn1_element_complete [of out tag rest]
    by (simp add: CBS_get_asn1_def cbs_get_asn1_def CBS_skip_def cbs_get_def CBS_len_def)
qed

lemma CBS_get_asn1_der [simp]:
  "length out < 2 ^ 32 \<Longrightarrow> CBS_get_asn1 tag (der_header tag (length out) @ out @ rest) = (Some out, rest)"
  by (simp add: CBS_get_asn1_iff)

lemma shift8_bound: "r < 2 ^ 56 \<Longrightarrow> r * 256 + unat (b :: u8) < 2 ^ 64"
  using unat_u8_less [of b] by (simp del: unat_u8_less)

lemma asn1_uint64_loop_iff:
  "asn1_uint64_loop r bs = Some v \<longleftrightarrow> unat v = unat r * 256 ^ length bs + be_nat bs"
proof (induction r bs rule: asn1_uint64_loop.induct)
  case (1 r)
  then show ?case by (auto simp: word_unat_eq_iff)
next
  case (2 r b bs)
  show ?case
  proof (cases "drop_bit 56 r = 0")
    case True
    then have r: "unat r < 2 ^ 56" by (simp add: word_unat_eq_iff word_nat div_eq_0_iff)
    then have "unat r * 256 + unat b < 2 ^ 64" by (rule shift8_bound)
    then have "unat (be_step r b) = unat r * 256 + unat b"
      by (simp add: be_step_val unat_word_ariths)
    then show ?thesis using 2 True by (simp add: algebra_simps)
  next
    case False
    then have "2 ^ 56 \<le> unat r" by (simp add: word_unat_eq_iff word_nat div_eq_0_iff)
    then have "2 ^ 56 * 256 ^ Suc (length bs) \<le> unat r * 256 ^ length (b # bs)" by simp
    moreover have "(2 :: nat) ^ 64 \<le> 2 ^ 56 * 256 ^ Suc (length bs)" by simp
    ultimately have "2 ^ 64 \<le> unat r * 256 ^ length (b # bs) + be_nat (b # bs)" by linarith
    moreover have "unat v < 2 ^ 64" by simp
    ultimately have "unat v \<noteq> unat r * 256 ^ length (b # bs) + be_nat (b # bs)" by linarith
    with False show ?thesis by simp
  qed
qed

lemma CBS_get_asn1_uint64_iff:
  "CBS_get_asn1_uint64 cbs = (Some v, rest) \<longleftrightarrow>
     (\<exists>c. length c < 2 ^ 32 \<and> cbs = der_header CBS_ASN1_INTEGER (length c) @ c @ rest \<and>
          CBS_is_unsigned_asn1_integer c \<and> be_nat c = unat v)"
proof -
  have "CBS_get_asn1_uint64 cbs = (Some v, rest) \<longleftrightarrow>
      (\<exists>c. CBS_get_asn1 CBS_ASN1_INTEGER cbs = (Some c, rest) \<and> CBS_is_unsigned_asn1_integer c \<and>
           asn1_uint64_loop 0 c = Some v)"
    by (auto simp: CBS_get_asn1_uint64_def split: prod.splits option.splits)
  then show ?thesis by (auto simp: CBS_get_asn1_iff asn1_uint64_loop_iff)
qed

text \<open>The two's complement value of the contents of an INTEGER.\<close>

definition asn1_int :: "bytes \<Rightarrow> int" where
  "asn1_int c = int (be_nat c) - (if 128 \<le> unat (hd c) then 256 ^ length c else 0)"

lemma fold_rev_fill:
  "n \<le> length bs \<Longrightarrow> length bs \<le> length u \<Longrightarrow>
   fold (\<lambda>i u. u[i := bs ! (length bs - i - 1)]) [0..<n] u = take n (rev bs) @ drop n u"
proof (induction n)
  case (Suc n)
  then have "n < length bs" "n < length u" by auto
  then show ?case using Suc
    by (simp add: list_update_append take_Suc_conv_app_nth rev_nth Cons_nth_drop_Suc [symmetric] del: Cons_nth_drop_Suc)
qed simp

lemma unat_le_word: "length us \<le> 8 \<Longrightarrow> unat (le_word us) = be_nat (rev us)"
proof (induction us)
  case (Cons b us)
  then have IH: "unat (le_word us) = be_nat (rev us)" by simp
  have "(256::nat) ^ length (rev us) \<le> 256 ^ 7" using Cons by (intro power_increasing) simp_all
  then have "be_nat (rev us) < 2 ^ 56" using be_nat_bound [of "rev us"] by simp
  then have "be_nat (rev us) * 256 + unat b < 2 ^ 64" by (rule shift8_bound)
  moreover have "le_word (b # us) = le_word us * 2 ^ 8 + ucast b"
    using push_or_ucast [of b 8 "le_word us"] by (simp add: or.commute)
  ultimately show ?case using IH by (simp add: unat_word_ariths)
qed simp

lemma be_nat_replicate_ff: "be_nat (replicate n 0xff @ bs) + 256 ^ length bs = 256 ^ (n + length bs) + be_nat bs"
proof (induction n)
  case (Suc n)
  have "be_nat (replicate (Suc n) 0xff @ bs) = 255 * 256 ^ (n + length bs) + be_nat (replicate n 0xff @ bs)"
    by simp
  with Suc show ?case by simp
qed simp

lemma be_nat_replicate_0 [simp]: "be_nat (replicate n 0) = 0"
  by (induction n) simp_all

lemma be_nat_high:
  assumes "bs \<noteq> []"
  shows "128 \<le> unat (hd bs) \<longleftrightarrow> 256 ^ length bs \<le> 2 * be_nat bs"
proof -
  obtain b cs where bs: "bs = b # cs" using assms by (cases bs) auto
  show ?thesis
  proof (cases "128 \<le> unat b")
    case True
    then have "128 * 256 ^ length cs \<le> unat b * 256 ^ length cs" by (rule mult_le_mono1)
    then have "128 * 256 ^ length cs \<le> be_nat bs" by (simp add: bs trans_le_add1)
    then show ?thesis using True by (simp add: bs)
  next
    case False
    then have "unat b \<le> 127" by simp
    then have "unat b * 256 ^ length cs \<le> 127 * 256 ^ length cs" by (rule mult_le_mono1)
    then have "be_nat bs < 128 * 256 ^ length cs"
      using be_nat_bound [of cs] by (simp only: bs be_nat.simps)
    then show ?thesis using False by (simp add: bs)
  qed
qed

lemma sint_u64: "sint (v :: u64) = (if 2 ^ 63 \<le> unat v then int (unat v) - 2 ^ 64 else int (unat v))"
proof -
  define n where "n = int (unat v)"
  have s: "sint v = (n + 2 ^ 63) mod 2 ^ 64 - 2 ^ 63"
    using int_word_sint [of "uint v", where ?'a = 64] by (simp add: n_def)
  have n: "n < 2 ^ 64" "0 \<le> n" using uint_bounded [of v] by (simp_all add: n_def)
  have iff: "2 ^ 63 \<le> unat v \<longleftrightarrow> 2 ^ 63 \<le> n"
    unfolding n_def by (metis of_nat_le_iff of_nat_numeral of_nat_power)
  have "sint v = (if 2 ^ 63 \<le> n then n - 2 ^ 64 else n)"
  proof (cases "2 ^ 63 \<le> n")
    case True
    have "(n + 2 ^ 63 - 2 ^ 64) mod 2 ^ 64 = n + 2 ^ 63 - 2 ^ 64"
      using True n by (intro mod_pos_pos_trivial) simp_all
    then have "(n + 2 ^ 63) mod 2 ^ 64 = n + 2 ^ 63 - 2 ^ 64"
      by (simp only: minus_mod_self2)
    with True s show ?thesis by simp
  next
    case False
    have "(n + 2 ^ 63) mod 2 ^ 64 = n + 2 ^ 63"
      using False n by (intro mod_pos_pos_trivial) simp_all
    with False s show ?thesis by simp
  qed
  then show ?thesis unfolding iff unfolding n_def .
qed

lemma sint_of_high:
  fixes v :: u64
  assumes "bs \<noteq> []" "length bs \<le> 8"
    and "unat v = be_nat (replicate (8 - length bs) (if 128 \<le> unat (hd bs) then 0xff else 0) @ bs)"
  shows "sint v = asn1_int bs"
proof -
  have p: "(256 :: nat) ^ length bs \<le> 256 ^ 8" using assms by (intro power_increasing) simp_all
  note s = sint_u64 [of v]
  show ?thesis
  proof (cases "128 \<le> unat (hd bs)")
    case True
    then have "unat v + 256 ^ length bs = 2 ^ 64 + be_nat bs"
      using assms be_nat_replicate_ff [of "8 - length bs" bs] by simp
    moreover have "256 ^ length bs \<le> 2 * be_nat bs" using True assms(1) be_nat_high by blast
    ultimately have "2 ^ 63 \<le> unat v" and "int (unat v) + 256 ^ length bs = 2 ^ 64 + int (be_nat bs)"
      using p by (simp, metis of_nat_add of_nat_numeral of_nat_power)
    then show ?thesis using True s by (simp add: asn1_int_def)
  next
    case False
    then have "unat v = be_nat bs" using assms by simp
    moreover have "2 * be_nat bs < 256 ^ length bs" using False assms(1) be_nat_high [of bs] by simp
    ultimately show ?thesis using False p s by (simp add: asn1_int_def)
  qed
qed

lemma is_valid_asn1_integer_sign:
  "CBS_is_valid_asn1_integer c = Some neg \<Longrightarrow> c \<noteq> [] \<and> neg = (128 \<le> unat (hd c))"
  by (cases c) (auto simp: CBS_is_valid_asn1_integer_def and_80_u8 Let_def split: prod.splits option.splits if_splits)

lemma CBS_get_asn1_int64_iff:
  "CBS_get_asn1_int64 cbs = (Some v, rest) \<longleftrightarrow>
     (\<exists>c neg. cbs = der_header CBS_ASN1_INTEGER (length c) @ c @ rest \<and> CBS_is_valid_asn1_integer c = Some neg \<and>
        length c \<le> 8 \<and> unat v = be_nat (replicate (8 - length c) (if neg then 0xff else 0) @ c))"
proof -
  let ?fill = "\<lambda>neg c. le_word (fold (\<lambda>i u. u[i := c ! (length c - i - 1)]) [0..<length c] (replicate 8 (if neg then 0xff else 0)))"
  have f: "v = ?fill neg c \<longleftrightarrow> unat v = be_nat (replicate (8 - length c) (if neg then 0xff else 0) @ c)"
    if "length c \<le> 8" for neg and c :: bytes
    unfolding word_unat_eq_iff using that by (subst fold_rev_fill) (simp_all add: unat_le_word)
  have "CBS_get_asn1_int64 cbs = (Some v, rest) \<longleftrightarrow>
      (\<exists>c neg. CBS_get_asn1 CBS_ASN1_INTEGER cbs = (Some c, rest) \<and> CBS_is_valid_asn1_integer c = Some neg \<and>
        length c \<le> 8 \<and> v = ?fill neg c)"
    by (auto simp: CBS_get_asn1_int64_def CBS_len_def Let_def split: prod.splits option.splits if_splits)
  also have "\<dots> \<longleftrightarrow> (\<exists>c neg. cbs = der_header CBS_ASN1_INTEGER (length c) @ c @ rest \<and>
      CBS_is_valid_asn1_integer c = Some neg \<and> length c \<le> 8 \<and>
      unat v = be_nat (replicate (8 - length c) (if neg then 0xff else 0) @ c))"
  proof (intro ex_cong1)
    fix c :: bytes and neg :: bool
    have "length c \<le> 8 \<Longrightarrow> length c < 2 ^ 32" by simp
    then show "(CBS_get_asn1 CBS_ASN1_INTEGER cbs = (Some c, rest) \<and> CBS_is_valid_asn1_integer c = Some neg \<and>
        length c \<le> 8 \<and> v = ?fill neg c) = (cbs = der_header CBS_ASN1_INTEGER (length c) @ c @ rest \<and>
        CBS_is_valid_asn1_integer c = Some neg \<and> length c \<le> 8 \<and>
        unat v = be_nat (replicate (8 - length c) (if neg then 0xff else 0) @ c))"
      unfolding CBS_get_asn1_iff using f [of c neg] by blast
  qed
  finally show ?thesis .
qed

lemma CBS_get_asn1_int64_value:
  assumes "CBS_is_valid_asn1_integer c = Some neg" "length c \<le> 8"
    and "unat v = be_nat (replicate (8 - length c) (if neg then 0xff else 0) @ c)"
  shows "sint (v :: u64) = asn1_int c"
  using assms is_valid_asn1_integer_sign [OF assms(1)] by (intro sint_of_high) simp_all

end
