(* ===== verification/Order.thy ===== *)
theory Order
  imports Main "HOL-Library.Multiset"
begin

text \<open>
  The contract of a C comparison function, and what \<open>qsort\<close> gives with one that meets it. The
  callback returns a negative, zero or positive \<open>int\<close>.
\<close>

text \<open>
  \<open>qsort\<close> of the C library is any function that permutes the array so that the comparison orders
  it. Insertion sort is one; by \<open>qsort_unique\<close> below there is no other where the comparison is 0
  on equal elements only.
\<close>

fun qsort_insert :: "('a \<Rightarrow> 'a \<Rightarrow> int) \<Rightarrow> 'a \<Rightarrow> 'a list \<Rightarrow> 'a list" where
  "qsort_insert cmp x [] = [x]"
| "qsort_insert cmp x (y # ys) = (if cmp x y \<le> 0 then x # y # ys else y # qsort_insert cmp x ys)"

definition qsort :: "('a \<Rightarrow> 'a \<Rightarrow> int) \<Rightarrow> 'a list \<Rightarrow> 'a list" where
  "qsort cmp xs = foldr (qsort_insert cmp) xs []"

lemma mset_qsort_insert [simp]: "mset (qsort_insert cmp x ys) = add_mset x (mset ys)"
  by (induction ys) auto

lemma mset_qsort [simp]: "mset (qsort cmp xs) = mset xs"
  by (induction xs) (simp_all add: qsort_def)

lemma set_qsort [simp]: "set (qsort cmp xs) = set xs"
  by (rule mset_eq_setD) simp

lemma length_qsort [simp]: "length (qsort cmp xs) = length xs"
  by (rule mset_eq_length) simp

definition ordered_by :: "('a \<Rightarrow> 'a \<Rightarrow> int) \<Rightarrow> 'a list \<Rightarrow> bool" where
  "ordered_by cmp xs \<longleftrightarrow> sorted_wrt (\<lambda>a b. cmp a b \<le> 0) xs"

text \<open>A preorder up to the sign of the result.\<close>

locale comparison =
  fixes cmp :: "'a \<Rightarrow> 'a \<Rightarrow> int"
  assumes cmp_refl: "cmp a a = 0"
    and cmp_total: "cmp a b \<le> 0 \<or> cmp b a \<le> 0"
    and cmp_trans: "cmp a b \<le> 0 \<Longrightarrow> cmp b c \<le> 0 \<Longrightarrow> cmp a c \<le> 0"
begin

lemma ordered_insert: "ordered_by cmp ys \<Longrightarrow> ordered_by cmp (qsort_insert cmp x ys)"
proof (induction ys)
  case (Cons y ys)
  have set: "set (qsort_insert cmp x ys) = insert x (set ys)"
    using mset_qsort_insert [of cmp x ys] by (metis set_mset_add_mset_insert set_mset_mset)
  show ?case
  proof (cases "cmp x y \<le> 0")
    case True
    with Cons(2) cmp_trans [OF True] show ?thesis by (auto simp: ordered_by_def)
  next
    case False
    then have "cmp y x \<le> 0" using cmp_total [of x y] by simp
    with False Cons show ?thesis by (auto simp: ordered_by_def set)
  qed
qed (simp add: ordered_by_def)

lemma qsort_ordered: "ordered_by cmp (qsort cmp xs)"
  unfolding qsort_def by (induction xs) (simp_all add: ordered_insert, simp add: ordered_by_def)

end

text \<open>A comparison that is 0 on equal elements only: a linear order.\<close>

locale strict_comparison = comparison +
  assumes cmp_zero: "cmp a b \<le> 0 \<Longrightarrow> cmp b a \<le> 0 \<Longrightarrow> a = b"
begin

lemma ordered_unique: "mset xs = mset ys \<Longrightarrow> ordered_by cmp xs \<Longrightarrow> ordered_by cmp ys \<Longrightarrow> xs = ys"
proof (induction xs arbitrary: ys)
  case (Cons x xs)
  obtain y ys' where y: "ys = y # ys'" using Cons(2) by (cases ys) auto
  have "x \<in> set ys" "y \<in> set (x # xs)" using mset_eq_setD [OF Cons(2)] y by auto
  then have "cmp y x \<le> 0" "cmp x y \<le> 0" using Cons(3,4) y cmp_refl by (auto simp: ordered_by_def)
  then have "y = x" by (intro cmp_zero)
  with Cons y show ?case by (auto simp: ordered_by_def)
qed simp

lemma qsort_unique:
  assumes "mset ys = mset xs" "ordered_by cmp ys"
  shows "ys = qsort cmp xs"
  using ordered_unique [OF _ assms(2) qsort_ordered] assms(1) by simp

lemma qsort_cong: "mset xs = mset ys \<Longrightarrow> qsort cmp xs = qsort cmp ys"
  using qsort_unique [of "qsort cmp xs" ys] qsort_ordered by simp

lemma qsort_idem: "qsort cmp (qsort cmp xs) = qsort cmp xs"
  by (rule qsort_cong) simp

end

end
