(* ===== verification/Cbb.thy ===== *)
theory Cbb
  imports Der Order
begin

text \<open>
  The byte-string builder of \<open>crypto/bytestring/cbb.c\<close>.
\<close>

subsection \<open>State\<close>

text \<open>
  \<open>struct cbb_buffer_st\<close>: the bytes written so far (so that \<open>len\<close> is their number), the
  capacity and the two flags.
\<close>

record cbb_buffer =
  bb_buf :: bytes
  bb_cap :: nat
  bb_can_resize :: bool
  bb_error :: bool

text \<open>The fields of a child \<open>CBB\<close> that describe its pending length prefix.\<close>

record cbb_node =
  nd_offset :: nat
  nd_pending_len_len :: nat
  nd_pending_is_asn1 :: bool

record cbb =
  cbb_base :: "cbb_buffer option"
  cbb_chain :: "cbb_node list"

record mem_env =
  env_malloc :: "nat \<Rightarrow> bool"
  env_realloc :: "nat \<Rightarrow> bool"
  env_uninit :: "nat \<Rightarrow> u8"

definition and_then :: "bool \<times> 's \<Rightarrow> ('s \<Rightarrow> bool \<times> 's) \<Rightarrow> bool \<times> 's" where
  "and_then r f = (if fst r then f (snd r) else r)"

lemma and_then_simps [simp]: "and_then (True, s) f = f s" "and_then (False, s) f = (False, s)"
  by (simp_all add: and_then_def)

subsection \<open>Initialisation and the buffer\<close>

definition CBB_zero :: cbb where
  "CBB_zero = \<lparr>cbb_base = None, cbb_chain = []\<rparr>"

definition cbb_init :: "mem_env \<Rightarrow> nat \<Rightarrow> cbb \<Rightarrow> bool \<times> cbb" where
  "cbb_init env cap cbb =
     (if \<not> env_malloc env 32 then (False, cbb)
      else (True, cbb\<lparr>cbb_base := Some \<lparr>bb_buf = [], bb_cap = cap, bb_can_resize = True,
                                        bb_error = False\<rparr>\<rparr>))"

definition CBB_init :: "mem_env \<Rightarrow> nat \<Rightarrow> bool \<times> cbb" where
  "CBB_init env initial_capacity =
     (if initial_capacity > 0 \<and> \<not> env_malloc env initial_capacity then (False, CBB_zero)
      else cbb_init env initial_capacity CBB_zero)"

definition CBB_init_fixed :: "mem_env \<Rightarrow> nat \<Rightarrow> bool \<times> cbb" where
  "CBB_init_fixed env len = (case cbb_init env len CBB_zero of
     (False, cbb) \<Rightarrow> (False, cbb)
   | (True, cbb) \<Rightarrow>
       (True, cbb\<lparr>cbb_base := map_option (\<lambda>b. b\<lparr>bb_can_resize := False\<rparr>) (cbb_base cbb)\<rparr>))"

definition CBB_cleanup :: "nat \<Rightarrow> cbb \<Rightarrow> cbb" where
  "CBB_cleanup k cbb = (if k > 0 then cbb else cbb\<lparr>cbb_base := None\<rparr>)"

definition cbb_buffer_reserve :: "mem_env \<Rightarrow> nat \<Rightarrow> cbb_buffer \<Rightarrow> bool \<times> cbb_buffer" where
  "cbb_buffer_reserve env len base =
     (let newlen = szadd (length (bb_buf base)) len in
      if newlen < length (bb_buf base) then (False, base\<lparr>bb_error := True\<rparr>)
      else if newlen > bb_cap base then
        (let newcap = (bb_cap base * 2) mod SIZE_MOD in
         if \<not> bb_can_resize base then (False, base\<lparr>bb_error := True\<rparr>)
         else let newcap = (if newcap < bb_cap base \<or> newcap < newlen then newlen else newcap) in
           if \<not> env_realloc env newcap then (False, base\<lparr>bb_error := True\<rparr>)
           else (True, base\<lparr>bb_cap := newcap\<rparr>))
      else (True, base))"

definition cbb_buffer_add :: "mem_env \<Rightarrow> nat \<Rightarrow> cbb_buffer \<Rightarrow> bool \<times> cbb_buffer" where
  "cbb_buffer_add env len base = (case cbb_buffer_reserve env len base of
     (False, base) \<Rightarrow> (False, base)
   | (True, base) \<Rightarrow>
       (True, base\<lparr>bb_buf := bb_buf base @
                map (env_uninit env) [length (bb_buf base)..<length (bb_buf base) + len]\<rparr>))"

text \<open>
  The loop \<open>for (i = n - 1; i < n; i--) \<lbrace> buf[off + i] = v; v >>= 8; \<rbrace>\<close>, with what is left
  of \<open>v\<close>.
\<close>

fun put_be :: "nat \<Rightarrow> nat \<Rightarrow> u64 \<Rightarrow> bytes \<Rightarrow> bytes \<times> u64" where
  "put_be 0 off v buf = (buf, v)"
| "put_be (Suc i) off v buf = put_be i off (drop_bit 8 v) (buf[off + i := ucast v])"

definition cbb_buffer_add_u :: "mem_env \<Rightarrow> u64 \<Rightarrow> nat \<Rightarrow> cbb_buffer \<Rightarrow> bool \<times> cbb_buffer" where
  "cbb_buffer_add_u env v len_len base =
     (if len_len = 0 then (True, base)
      else case cbb_buffer_add env len_len base of
        (False, base) \<Rightarrow> (False, base)
      | (True, base) \<Rightarrow>
          (case put_be len_len (length (bb_buf base) - len_len) v (bb_buf base) of
             (buf, rest) \<Rightarrow>
               if rest \<noteq> 0 then (False, base\<lparr>bb_buf := buf, bb_error := True\<rparr>)
               else (True, base\<lparr>bb_buf := buf\<rparr>)))"

subsection \<open>Flushing pending length prefixes\<close>

definition memmove :: "nat \<Rightarrow> nat \<Rightarrow> nat \<Rightarrow> bytes \<Rightarrow> bytes" where
  "memmove dst src n buf = take dst buf @ take n (drop src buf) @ drop (dst + n) buf"

definition asn1_len_len :: "nat \<Rightarrow> nat \<times> u8" where
  "asn1_len_len len =
     (if len > 0xffffff then (5, 0x80 OR 4)
      else if len > 0xffff then (4, 0x80 OR 3)
      else if len > 0xff then (3, 0x80 OR 2)
      else if len > 0x7f then (2, 0x80 OR 1)
      else (1, of_nat len))"

text \<open>The part of \<open>CBB_flush\<close> that makes room for and writes an ASN.1 length's first byte.\<close>

definition flush_asn1_prefix ::
  "mem_env \<Rightarrow> nat \<Rightarrow> nat \<Rightarrow> cbb_node \<Rightarrow> cbb_buffer \<Rightarrow> bool \<times> cbb_buffer \<times> cbb_node \<times> nat" where
  "flush_asn1_prefix env child_start len child base =
     (if len > 0xfffffffe then (False, base, child, len)
      else case asn1_len_len len of (len_len, initial_length_byte) \<Rightarrow>
        let len' = (if len_len = 1 then 0 else len);
            moved = (if len_len \<noteq> 1 then
                       (case cbb_buffer_add env (len_len - 1) base of
                          (False, base) \<Rightarrow> (False, base)
                        | (True, base) \<Rightarrow>
                            (True, base\<lparr>bb_buf := memmove (child_start + (len_len - 1)) child_start len'
                                                    (bb_buf base)\<rparr>))
                     else (True, base))
        in case moved of
             (False, base) \<Rightarrow> (False, base, child, len')
           | (True, base) \<Rightarrow>
               (True, base\<lparr>bb_buf := (bb_buf base)[nd_offset child := initial_length_byte]\<rparr>,
                child\<lparr>nd_offset := nd_offset child + 1, nd_pending_len_len := len_len - 1\<rparr>, len'))"

text \<open>Lines 223 to 275: the length prefix of one child, whose contents start at \<open>child_start\<close>.\<close>

definition flush_child ::
  "mem_env \<Rightarrow> nat \<Rightarrow> cbb_node \<Rightarrow> cbb_buffer \<Rightarrow> bool \<times> cbb_buffer \<times> cbb_node" where
  "flush_child env child_start child base =
     (let len = length (bb_buf base) - child_start in
      case (if nd_pending_is_asn1 child then flush_asn1_prefix env child_start len child base
            else (True, base, child, len)) of (ok, base, child, len) \<Rightarrow>
        if \<not> ok then (False, base, child)
        else case put_be (nd_pending_len_len child) (nd_offset child) (of_nat len) (bb_buf base)
             of (buf, left) \<Rightarrow> (left = 0, base\<lparr>bb_buf := buf\<rparr>, child))"

fun cbb_flush_chain ::
  "mem_env \<Rightarrow> cbb_node list \<Rightarrow> cbb_buffer \<Rightarrow> bool \<times> cbb_buffer \<times> cbb_node list" where
  "cbb_flush_chain env [] base = (\<not> bb_error base, base, [])"
| "cbb_flush_chain env (child # rest) base =
     (if bb_error base then (False, base, child # rest)
      else if nd_pending_len_len child = 0 then (True, base, child # rest)
      else let child_start = szadd (nd_offset child) (nd_pending_len_len child) in
        case cbb_flush_chain env rest base of (ok, base, rest) \<Rightarrow>
          if \<not> ok \<or> child_start < nd_offset child \<or> length (bb_buf base) < child_start
          then (False, base\<lparr>bb_error := True\<rparr>, child # rest)
          else case flush_child env child_start child base of (ok, base, child) \<Rightarrow>
            if \<not> ok then (False, base\<lparr>bb_error := True\<rparr>, child # rest)
            else (True, base, []))"

definition CBB_flush :: "mem_env \<Rightarrow> nat \<Rightarrow> cbb \<Rightarrow> bool \<times> cbb" where
  "CBB_flush env k cbb = (case cbb_base cbb of
     None \<Rightarrow> (False, cbb)
   | Some base \<Rightarrow>
       if k > length (cbb_chain cbb) then (False, cbb)
       else case cbb_flush_chain env (drop k (cbb_chain cbb)) base of (ok, base, rest) \<Rightarrow>
         (ok, cbb\<lparr>cbb_base := Some base, cbb_chain := take k (cbb_chain cbb) @ rest\<rparr>))"

text \<open>The result is \<open>None\<close> where the function returns 0.\<close>

definition CBB_finish :: "mem_env \<Rightarrow> bool \<Rightarrow> nat \<Rightarrow> (cbb, bytes) cfun" where
  "CBB_finish env have_outputs k cbb =
     (if k > 0 then (None, cbb)
      else case CBB_flush env k cbb of
        (False, cbb) \<Rightarrow> (None, cbb)
      | (True, cbb) \<Rightarrow> (case cbb_base cbb of
          None \<Rightarrow> (None, cbb)
        | Some base \<Rightarrow>
            if bb_can_resize base \<and> \<not> have_outputs then (None, cbb)
            else (Some (bb_buf base), CBB_cleanup k cbb)))"

definition cbb_node_at :: "nat \<Rightarrow> cbb \<Rightarrow> cbb_node" where
  "cbb_node_at k cbb =
     (if k = 0 then \<lparr>nd_offset = 0, nd_pending_len_len = 0, nd_pending_is_asn1 = False\<rparr>
      else cbb_chain cbb ! (k - 1))"

definition CBB_data :: "nat \<Rightarrow> cbb \<Rightarrow> bytes" where
  "CBB_data k cbb = (case cbb_base cbb of
     None \<Rightarrow> []
   | Some base \<Rightarrow>
       drop (nd_offset (cbb_node_at k cbb) + nd_pending_len_len (cbb_node_at k cbb)) (bb_buf base))"

definition CBB_len :: "nat \<Rightarrow> cbb \<Rightarrow> nat" where
  "CBB_len k cbb = (case cbb_base cbb of
     None \<Rightarrow> 0
   | Some base \<Rightarrow> length (bb_buf base) - nd_offset (cbb_node_at k cbb)
                    - nd_pending_len_len (cbb_node_at k cbb))"

subsection \<open>Writing\<close>

text \<open>Run an operation of the shared buffer, as the code does after a successful flush.\<close>

definition on_base :: "(cbb_buffer \<Rightarrow> bool \<times> cbb_buffer) \<Rightarrow> cbb \<Rightarrow> bool \<times> cbb" where
  "on_base f cbb = (case cbb_base cbb of
     None \<Rightarrow> (False, cbb)
   | Some base \<Rightarrow> (case f base of (ok, base) \<Rightarrow> (ok, cbb\<lparr>cbb_base := Some base\<rparr>)))"

definition base_len :: "cbb \<Rightarrow> nat" where
  "base_len cbb = (case cbb_base cbb of None \<Rightarrow> 0 | Some base \<Rightarrow> length (bb_buf base))"

definition open_child :: "nat \<Rightarrow> nat \<Rightarrow> nat \<Rightarrow> bool \<Rightarrow> cbb \<Rightarrow> cbb" where
  "open_child k offset len_len is_asn1 cbb =
     cbb\<lparr>cbb_chain := take k (cbb_chain cbb) @
        [\<lparr>nd_offset = offset, nd_pending_len_len = len_len, nd_pending_is_asn1 = is_asn1\<rparr>]\<rparr>"

text \<open>\<open>cbb_buffer_add\<close> followed by writing all of the new bytes.\<close>

definition buffer_append :: "mem_env \<Rightarrow> bytes \<Rightarrow> cbb_buffer \<Rightarrow> bool \<times> cbb_buffer" where
  "buffer_append env data base = (case cbb_buffer_add env (length data) base of
     (False, base) \<Rightarrow> (False, base)
   | (True, base) \<Rightarrow>
       (True, base\<lparr>bb_buf := take (length (bb_buf base) - length data) (bb_buf base) @ data\<rparr>))"

definition cbb_add_length_prefixed :: "mem_env \<Rightarrow> nat \<Rightarrow> nat \<Rightarrow> cbb \<Rightarrow> bool \<times> cbb" where
  "cbb_add_length_prefixed env len_len k cbb = (case CBB_flush env k cbb of
     (False, cbb) \<Rightarrow> (False, cbb)
   | (True, cbb) \<Rightarrow>
       let offset = base_len cbb in
       (case on_base (buffer_append env (replicate len_len 0)) cbb of
          (False, cbb) \<Rightarrow> (False, cbb)
        | (True, cbb) \<Rightarrow> (True, open_child k offset len_len False cbb)))"

definition CBB_add_u8_length_prefixed :: "mem_env \<Rightarrow> nat \<Rightarrow> cbb \<Rightarrow> bool \<times> cbb" where
  "CBB_add_u8_length_prefixed env = cbb_add_length_prefixed env 1"

definition CBB_add_u16_length_prefixed :: "mem_env \<Rightarrow> nat \<Rightarrow> cbb \<Rightarrow> bool \<times> cbb" where
  "CBB_add_u16_length_prefixed env = cbb_add_length_prefixed env 2"

definition CBB_add_u24_length_prefixed :: "mem_env \<Rightarrow> nat \<Rightarrow> cbb \<Rightarrow> bool \<times> cbb" where
  "CBB_add_u24_length_prefixed env = cbb_add_length_prefixed env 3"

definition CBB_add_bytes :: "mem_env \<Rightarrow> bytes \<Rightarrow> nat \<Rightarrow> cbb \<Rightarrow> bool \<times> cbb" where
  "CBB_add_bytes env data k cbb =
     and_then (CBB_flush env k cbb) (on_base (buffer_append env data))"

definition CBB_add_space :: "mem_env \<Rightarrow> nat \<Rightarrow> nat \<Rightarrow> cbb \<Rightarrow> bool \<times> cbb" where
  "CBB_add_space env len k cbb = and_then (CBB_flush env k cbb) (on_base (cbb_buffer_add env len))"

definition CBB_add_zeros :: "mem_env \<Rightarrow> nat \<Rightarrow> nat \<Rightarrow> cbb \<Rightarrow> bool \<times> cbb" where
  "CBB_add_zeros env len k cbb =
     and_then (CBB_add_space env len k cbb)
       (on_base (\<lambda>base. (True, base\<lparr>bb_buf := take (length (bb_buf base) - len) (bb_buf base) @
                                              replicate len 0\<rparr>)))"

definition CBB_reserve :: "mem_env \<Rightarrow> nat \<Rightarrow> nat \<Rightarrow> cbb \<Rightarrow> bool \<times> cbb" where
  "CBB_reserve env len k cbb = and_then (CBB_flush env k cbb) (on_base (cbb_buffer_reserve env len))"

text \<open>The caller has written \<open>data\<close> into the space it reserved.\<close>

definition CBB_did_write :: "bytes \<Rightarrow> nat \<Rightarrow> cbb \<Rightarrow> bool \<times> cbb" where
  "CBB_did_write data k cbb = (case cbb_base cbb of
     None \<Rightarrow> (False, cbb)
   | Some base \<Rightarrow>
       let newlen = szadd (length (bb_buf base)) (length data) in
       if k < length (cbb_chain cbb) \<or> newlen < length (bb_buf base) \<or> newlen > bb_cap base
       then (False, cbb)
       else (True, cbb\<lparr>cbb_base := Some (base\<lparr>bb_buf := bb_buf base @ data\<rparr>)\<rparr>))"

definition CBB_add_u :: "mem_env \<Rightarrow> u64 \<Rightarrow> nat \<Rightarrow> nat \<Rightarrow> cbb \<Rightarrow> bool \<times> cbb" where
  "CBB_add_u env v len_len k cbb =
     and_then (CBB_flush env k cbb) (on_base (cbb_buffer_add_u env v len_len))"

definition CBB_add_u8 :: "mem_env \<Rightarrow> u8 \<Rightarrow> nat \<Rightarrow> cbb \<Rightarrow> bool \<times> cbb" where
  "CBB_add_u8 env value = CBB_add_u env (ucast value) 1"
definition CBB_add_u16 :: "mem_env \<Rightarrow> u16 \<Rightarrow> nat \<Rightarrow> cbb \<Rightarrow> bool \<times> cbb" where
  "CBB_add_u16 env value = CBB_add_u env (ucast value) 2"
definition CBB_add_u24 :: "mem_env \<Rightarrow> u32 \<Rightarrow> nat \<Rightarrow> cbb \<Rightarrow> bool \<times> cbb" where
  "CBB_add_u24 env value = CBB_add_u env (ucast value) 3"
definition CBB_add_u32 :: "mem_env \<Rightarrow> u32 \<Rightarrow> nat \<Rightarrow> cbb \<Rightarrow> bool \<times> cbb" where
  "CBB_add_u32 env value = CBB_add_u env (ucast value) 4"
definition CBB_add_u64 :: "mem_env \<Rightarrow> u64 \<Rightarrow> nat \<Rightarrow> cbb \<Rightarrow> bool \<times> cbb" where
  "CBB_add_u64 env value = CBB_add_u env value 8"
definition CBB_add_u16le :: "mem_env \<Rightarrow> u16 \<Rightarrow> nat \<Rightarrow> cbb \<Rightarrow> bool \<times> cbb" where
  "CBB_add_u16le env value = CBB_add_u16 env (CRYPTO_bswap2 value)"
definition CBB_add_u32le :: "mem_env \<Rightarrow> u32 \<Rightarrow> nat \<Rightarrow> cbb \<Rightarrow> bool \<times> cbb" where
  "CBB_add_u32le env value = CBB_add_u32 env (CRYPTO_bswap4 value)"
definition CBB_add_u64le :: "mem_env \<Rightarrow> u64 \<Rightarrow> nat \<Rightarrow> cbb \<Rightarrow> bool \<times> cbb" where
  "CBB_add_u64le env value = CBB_add_u64 env (CRYPTO_bswap8 value)"

definition CBB_discard_child :: "nat \<Rightarrow> cbb \<Rightarrow> cbb" where
  "CBB_discard_child k cbb =
     (if k \<ge> length (cbb_chain cbb) then cbb
      else cbb\<lparr>cbb_base := map_option (\<lambda>b. b\<lparr>bb_buf := take (nd_offset (cbb_chain cbb ! k)) (bb_buf b)\<rparr>)
                              (cbb_base cbb),
               cbb_chain := take k (cbb_chain cbb)\<rparr>)"

subsection \<open>ASN.1\<close>

text \<open>The loop \<open>while (copy > 0) \<lbrace> len_len++; copy >>= 7; \<rbrace>\<close>.\<close>

function base128_len_len :: "u64 \<Rightarrow> nat" where
  "base128_len_len copy = (if copy > 0 then base128_len_len (drop_bit 7 copy) + 1 else 0)"
  by pat_completeness auto
termination
proof (relation "measure unat")
  fix copy :: u64
  assume "copy > 0"
  then have "0 < unat copy" by (simp add: unat_gt_0)
  then have "unat copy div 2 ^ 7 < unat copy" by simp
  then show "(drop_bit 7 copy, copy) \<in> measure unat" by (simp only: in_measure unat_drop_bit_div)
qed simp

declare base128_len_len.simps [simp del]

text \<open>The loop over \<open>i = n - 1, \<dots>, 0\<close> that writes seven bits at a time.\<close>

fun add_base128_loop :: "mem_env \<Rightarrow> u64 \<Rightarrow> nat \<Rightarrow> nat \<Rightarrow> cbb \<Rightarrow> bool \<times> cbb" where
  "add_base128_loop env v 0 k cbb = (True, cbb)"
| "add_base128_loop env v (Suc i) k cbb =
     (let byte = ucast (drop_bit (7 * i) v) AND 0x7f;
          byte = (if i \<noteq> 0 then byte OR 0x80 else byte)
      in and_then (CBB_add_u8 env byte k cbb) (add_base128_loop env v i k))"

definition add_base128_integer :: "mem_env \<Rightarrow> u64 \<Rightarrow> nat \<Rightarrow> cbb \<Rightarrow> bool \<times> cbb" where
  "add_base128_integer env v k cbb =
     (let len_len = base128_len_len v;
          len_len = (if len_len = 0 then 1 else len_len)
      in add_base128_loop env v len_len k cbb)"

definition CBB_add_asn1 :: "mem_env \<Rightarrow> u32 \<Rightarrow> nat \<Rightarrow> cbb \<Rightarrow> bool \<times> cbb" where
  "CBB_add_asn1 env tag k cbb = and_then (CBB_flush env k cbb) (\<lambda>cbb.
     let tag_bits = ucast (drop_bit CBS_ASN1_TAG_SHIFT tag) AND 0xe0 :: u8;
         tag_number = tag AND CBS_ASN1_TAG_NUMBER_MASK
     in and_then
          (if tag_number \<ge> 0x1f then
             and_then (CBB_add_u8 env (tag_bits OR 0x1f) k cbb)
               (add_base128_integer env (ucast tag_number) k)
           else CBB_add_u8 env (tag_bits OR ucast tag_number) k cbb)
          (\<lambda>cbb. let offset = base_len cbb in
             and_then (CBB_add_u8 env 0 k cbb)
               (\<lambda>cbb. (True, open_child k offset 1 True cbb))))"

text \<open>
  The loop over \<open>i = 0, \<dots>, 7\<close> of \<open>CBB_add_asn1_uint64\<close>; the recursion counts the iterations
  that are left, and the flag is \<open>started\<close>.
\<close>

fun asn1_uint64_bytes :: "mem_env \<Rightarrow> u64 \<Rightarrow> nat \<Rightarrow> bool \<Rightarrow> nat \<Rightarrow> cbb \<Rightarrow> bool \<times> bool \<times> cbb" where
  "asn1_uint64_bytes env value 0 started k cbb = (True, started, cbb)"
| "asn1_uint64_bytes env value (Suc n) started k cbb =
     (let byte = ucast (drop_bit (8 * n) value) AND 0xff :: u8 in
      if \<not> started \<and> byte = 0 then asn1_uint64_bytes env value n started k cbb
      else case (if \<not> started \<and> byte AND 0x80 \<noteq> 0 then CBB_add_u8 env 0 k cbb else (True, cbb)) of
        (False, cbb) \<Rightarrow> (False, started, cbb)
      | (True, cbb) \<Rightarrow> (case CBB_add_u8 env byte k cbb of
          (False, cbb) \<Rightarrow> (False, True, cbb)
        | (True, cbb) \<Rightarrow> asn1_uint64_bytes env value n True k cbb))"

definition CBB_add_asn1_uint64 :: "mem_env \<Rightarrow> u64 \<Rightarrow> nat \<Rightarrow> cbb \<Rightarrow> bool \<times> cbb" where
  "CBB_add_asn1_uint64 env value k cbb =
     and_then (CBB_add_asn1 env CBS_ASN1_INTEGER k cbb) (\<lambda>cbb.
       case asn1_uint64_bytes env value 8 False (k + 1) cbb of
         (False, _, cbb) \<Rightarrow> (False, cbb)
       | (True, started, cbb) \<Rightarrow>
           and_then (if \<not> started then CBB_add_u8 env 0 (k + 1) cbb else (True, cbb))
             (CBB_flush env k))"

text \<open>\<open>u.bytes[i]\<close> for the 64 bits of an \<open>int64_t\<close> in the order of the target.\<close>

definition int64_byte :: "u64 \<Rightarrow> nat \<Rightarrow> u8" where
  "int64_byte v i = ucast (drop_bit (8 * i) v)"

fun int64_start :: "u64 \<Rightarrow> nat \<Rightarrow> nat" where
  "int64_start v 0 = 0"
| "int64_start v (Suc n) =
     (if int64_byte v (Suc n) = 0xff \<and> int64_byte v n AND 0x80 \<noteq> 0 then int64_start v n else Suc n)"

fun add_int64_bytes :: "mem_env \<Rightarrow> u64 \<Rightarrow> nat \<Rightarrow> nat \<Rightarrow> cbb \<Rightarrow> bool \<times> cbb" where
  "add_int64_bytes env v 0 k cbb = (True, cbb)"
| "add_int64_bytes env v (Suc i) k cbb =
     and_then (CBB_add_u8 env (int64_byte v i) k cbb) (add_int64_bytes env v i k)"

definition CBB_add_asn1_int64 :: "mem_env \<Rightarrow> u64 \<Rightarrow> nat \<Rightarrow> cbb \<Rightarrow> bool \<times> cbb" where
  "CBB_add_asn1_int64 env value k cbb =
     (if sint value \<ge> 0 then CBB_add_asn1_uint64 env value k cbb
      else and_then (CBB_add_asn1 env CBS_ASN1_INTEGER k cbb) (\<lambda>cbb.
        and_then (add_int64_bytes env value (int64_start value 7 + 1) (k + 1) cbb)
          (CBB_flush env k)))"

definition CBB_add_asn1_octet_string :: "mem_env \<Rightarrow> bytes \<Rightarrow> nat \<Rightarrow> cbb \<Rightarrow> bool \<times> cbb" where
  "CBB_add_asn1_octet_string env data k cbb =
     and_then (and_then (CBB_add_asn1 env CBS_ASN1_OCTETSTRING k cbb)
        (CBB_add_bytes env data (k + 1))) (CBB_flush env k)"

definition CBB_add_asn1_bool :: "mem_env \<Rightarrow> bool \<Rightarrow> nat \<Rightarrow> cbb \<Rightarrow> bool \<times> cbb" where
  "CBB_add_asn1_bool env value k cbb =
     and_then (and_then (CBB_add_asn1 env CBS_ASN1_BOOLEAN k cbb)
        (CBB_add_u8 env (if value then 0xff else 0) (k + 1))) (CBB_flush env k)"

subsection \<open>Object identifiers as text\<close>

definition UINT64_MAX :: u64 where "UINT64_MAX = 0xffffffffffffffff"

text \<open>
  \<open>parse_dotted_decimal\<close>: the loop with its accumulator and \<open>seen_digit\<close>.
\<close>

fun dotted_decimal_loop :: "u64 \<Rightarrow> bool \<Rightarrow> (cbs, u64) cfun" where
  "dotted_decimal_loop out seen_digit [] = (if seen_digit then Some out else None, [])"
| "dotted_decimal_loop out seen_digit (u # cbs) =
     (if u = 46 \<and> cbs \<noteq> [] then (if seen_digit then Some out else None, cbs)
      else if u < 48 \<or> u > 57 \<or> (seen_digit \<and> out = 0) \<or> out > UINT64_MAX div 10 \<or>
              out * 10 > UINT64_MAX - ucast (u - 48)
      then (None, cbs)
      else dotted_decimal_loop (out * 10 + ucast (u - 48)) True cbs)"

definition parse_dotted_decimal :: "(cbs, u64) cfun" where
  "parse_dotted_decimal cbs = dotted_decimal_loop 0 False cbs"

lemma dotted_decimal_shorter:
  "dotted_decimal_loop out seen cbs = (Some v, cbs') \<Longrightarrow>
     length cbs' \<le> length cbs \<and> (cbs \<noteq> [] \<longrightarrow> length cbs' < length cbs)"
  by (induction out seen cbs rule: dotted_decimal_loop.induct) (auto split: if_splits)

text \<open>The loop \<open>while (CBS_len(&cbs) > 0)\<close> over the remaining components.\<close>

function oid_components :: "mem_env \<Rightarrow> nat \<Rightarrow> cbs \<Rightarrow> cbb \<Rightarrow> bool \<times> cbb" where
  "oid_components env k cbs cbb =
     (if cbs = [] then (True, cbb)
      else case parse_dotted_decimal cbs of
        (None, _) \<Rightarrow> (False, cbb)
      | (Some a, cbs') \<Rightarrow> (case add_base128_integer env a k cbb of
          (False, cbb) \<Rightarrow> (False, cbb)
        | (True, cbb) \<Rightarrow> oid_components env k cbs' cbb))"
  by pat_completeness auto
termination
  by (relation "measure (\<lambda>(env, k, cbs, cbb). length cbs)")
     (auto simp: parse_dotted_decimal_def dest: dotted_decimal_shorter [OF sym])

declare oid_components.simps [simp del]

definition CBB_add_asn1_oid_from_text :: "mem_env \<Rightarrow> bytes \<Rightarrow> nat \<Rightarrow> cbb \<Rightarrow> bool \<times> cbb" where
  "CBB_add_asn1_oid_from_text env text k cbb = and_then (CBB_flush env k cbb) (\<lambda>cbb.
     case parse_dotted_decimal text of
       (None, _) \<Rightarrow> (False, cbb)
     | (Some a, cbs) \<Rightarrow> (case parse_dotted_decimal cbs of
         (None, _) \<Rightarrow> (False, cbb)
       | (Some b, cbs) \<Rightarrow>
           if a > 2 \<or> (a < 2 \<and> b > 39) \<or> b > UINT64_MAX - 80 then (False, cbb)
           else and_then (add_base128_integer env (40 * a + b) k cbb) (oid_components env k cbs)))"

text \<open>The decimal digits that \<open>"%" PRIu64\<close> prints.\<close>

fun decimal :: "nat \<Rightarrow> bytes" where
  "decimal n = (if n < 10 then [of_nat (48 + n)] else decimal (n div 10) @ [of_nat (48 + n mod 10)])"

declare decimal.simps [simp del]

definition add_decimal :: "mem_env \<Rightarrow> u64 \<Rightarrow> nat \<Rightarrow> cbb \<Rightarrow> bool \<times> cbb" where
  "add_decimal env v = CBB_add_bytes env (decimal (unat v))"

lemma parse_base128_shorter:
  "parse_base128_loop v cbs = (Some r, cbs') \<Longrightarrow> length cbs' < length cbs"
  by (induction v cbs rule: parse_base128_loop.induct) (fastforce simp: Let_def split: if_splits)+

function oid_text_components :: "mem_env \<Rightarrow> cbs \<Rightarrow> cbb \<Rightarrow> bool \<times> cbb" where
  "oid_text_components env copy cbb =
     (if CBS_len copy = 0 then (True, cbb)
      else case parse_base128_integer copy of
        (None, _) \<Rightarrow> (False, cbb)
      | (Some v, copy') \<Rightarrow>
          (case and_then (CBB_add_u8 env 46 0 cbb) (add_decimal env v 0) of
             (False, cbb) \<Rightarrow> (False, cbb)
           | (True, cbb) \<Rightarrow> oid_text_components env copy' cbb))"
  by pat_completeness auto
termination
  by (relation "measure (\<lambda>(env, copy, cbb). length copy)")
     (auto simp: parse_base128_integer_def dest: parse_base128_shorter [OF sym])

declare oid_text_components.simps [simp del]

definition CBS_asn1_oid_to_text :: "mem_env \<Rightarrow> cbs \<Rightarrow> bytes option" where
  "CBS_asn1_oid_to_text env cbs = (case CBB_init env 32 of
     (False, _) \<Rightarrow> None
   | (True, cbb) \<Rightarrow> (case parse_base128_integer cbs of
       (None, _) \<Rightarrow> None
     | (Some v, copy) \<Rightarrow>
         let first = (if v \<ge> 80 then
                        and_then (CBB_add_bytes env [50, 46] 0 cbb) (add_decimal env (v - 80) 0)
                      else
                        and_then (and_then (add_decimal env (v div 40) 0 cbb) (CBB_add_u8 env 46 0))
                          (add_decimal env (v mod 40) 0));
             all = and_then (and_then first (oid_text_components env copy)) (CBB_add_u8 env 0 0)
         in case all of
              (False, _) \<Rightarrow> None
            | (True, cbb) \<Rightarrow> fst (CBB_finish env True 0 cbb)))"

subsection \<open>SET OF\<close>

text \<open>The sign of \<open>memcmp\<close> on two runs of the same length.\<close>

fun memcmp :: "bytes \<Rightarrow> bytes \<Rightarrow> int" where
  "memcmp (a # as) (b # bs) = (if a < b then -1 else if b < a then 1 else memcmp as bs)"
| "memcmp _ _ = 0"

definition compare_set_of_element :: "cbs \<Rightarrow> cbs \<Rightarrow> int" where
  "compare_set_of_element a b =
     (let a_len = CBS_len a; b_len = CBS_len b;
          min_len = (if a_len < b_len then a_len else b_len);
          ret = memcmp (take min_len a) (take min_len b)
      in if ret \<noteq> 0 then ret
         else if a_len = b_len then 0
         else if a_len < b_len then -1 else 1)"

lemma any_asn1_element_shorter:
  assumes "CBS_get_any_asn1_element cbs = (Some e, rest)"
  shows "length rest < length cbs"
proof -
  have "elt_out e \<noteq> []"
    using any_asn1_element_sound [OF assms] by (auto simp: der_element_def der_header_def der_len_def)
  then show ?thesis using any_asn1_element_sound [OF assms] by simp
qed

text \<open>
  The elements of a run of DER. Both loops of \<open>CBB_flush_asn1_set_of\<close> walk the contents this way:
  the first counts the elements, the second collects them.
\<close>

function set_of_children :: "cbs \<Rightarrow> cbs list option" where
  "set_of_children cbs =
     (if CBS_len cbs = 0 then Some []
      else case CBS_get_any_asn1_element cbs of
        (None, _) \<Rightarrow> None
      | (Some e, cbs') \<Rightarrow> map_option ((#) (elt_out e)) (set_of_children cbs'))"
  by pat_completeness auto
termination
  by (relation "measure length") (auto dest: any_asn1_element_shorter [OF sym])

declare set_of_children.simps [simp del]

fun add_children :: "mem_env \<Rightarrow> nat \<Rightarrow> cbs list \<Rightarrow> cbb \<Rightarrow> bool \<times> cbb" where
  "add_children env k [] cbb = (True, cbb)"
| "add_children env k (c # cs) cbb = and_then (CBB_add_bytes env c k cbb) (add_children env k cs)"

definition CBB_flush_asn1_set_of :: "mem_env \<Rightarrow> nat \<Rightarrow> cbb \<Rightarrow> bool \<times> cbb" where
  "CBB_flush_asn1_set_of env k cbb = and_then (CBB_flush env k cbb) (\<lambda>cbb.
     case set_of_children (CBB_data k cbb) of
       None \<Rightarrow> (False, cbb)
     | Some children \<Rightarrow>
         if length children < 2 then (True, cbb)
         else if length children > (SIZE_MOD - 1) div 16 then (False, cbb)
         else if \<not> env_malloc env (CBB_len k cbb) \<or> \<not> env_malloc env (length children * 16)
         then (False, cbb)
         else let rewind = (\<lambda>base. base\<lparr>bb_buf := take (nd_offset (cbb_node_at k cbb) +
                               nd_pending_len_len (cbb_node_at k cbb)) (bb_buf base)\<rparr>)
              in add_children env k (qsort compare_set_of_element children)
                   (cbb\<lparr>cbb_base := map_option rewind (cbb_base cbb)\<rparr>))"

end
