(* ===== verification/Cbb_Refine.thy ===== *)
theory Cbb_Refine
  imports Cbb
begin

text \<open>
  The abstract builder that \<open>cbb.c\<close> implements: a stack of frames, each the bytes written into
  one open child, and what flushing, appending and opening mean on it. \<open>implements\<close> is the
  simulation; there is one lemma for every operation, and they compose.
\<close>

datatype fkind = LenPrefix nat | Asn1Prefix
type_synonym frame = "fkind \<times> bytes"

fun psize :: "fkind \<Rightarrow> nat" where
  "psize (LenPrefix n) = n"
| "psize Asn1Prefix = 1"

fun enc_frame :: "fkind \<Rightarrow> bytes \<Rightarrow> bytes option" where
  "enc_frame (LenPrefix n) c = (if length c < 256 ^ n then Some (be_bytes n (length c) @ c) else None)"
| "enc_frame Asn1Prefix c = (if length c \<le> 0xfffffffe then Some (der_len (length c) @ c) else None)"

fun enc_frames :: "frame list \<Rightarrow> bytes option" where
  "enc_frames [] = Some []"
| "enc_frames ((k, c) # fs) = (case enc_frames fs of None \<Rightarrow> None | Some r \<Rightarrow> enc_frame k (c @ r))"

fun frames_buf :: "frame list \<Rightarrow> bytes" where
  "frames_buf [] = []"
| "frames_buf ((k, c) # fs) = replicate (psize k) 0 @ c @ frames_buf fs"

fun frames_nodes :: "nat \<Rightarrow> frame list \<Rightarrow> cbb_node list" where
  "frames_nodes off [] = []"
| "frames_nodes off ((k, c) # fs) =
     \<lparr>nd_offset = off, nd_pending_len_len = psize k, nd_pending_is_asn1 = (k = Asn1Prefix)\<rparr>
     # frames_nodes (off + psize k + length c) fs"

lemma put_be_result:
  "off + n \<le> length buf \<Longrightarrow>
   put_be n off v buf = (take off buf @ be_bytes n (unat v) @ drop (off + n) buf, drop_bit (8 * n) v)"
proof (induction n arbitrary: v buf)
  case (Suc n)
  have u: "(ucast v :: u8) = of_nat (unat v mod 256)" by (simp add: word_unat_eq_iff word_nat)
  have d: "drop (off + n) (buf[off + n := ucast v]) = ucast v # drop (Suc (off + n)) buf"
    using Suc.prems by (simp add: drop_update_swap Cons_nth_drop_Suc [symmetric] del: Cons_nth_drop_Suc)
  show ?case
    using Suc.prems Suc.IH [of "buf[off + n := ucast v]" "drop_bit 8 v"]
    by (simp add: d word_nat take_update_cancel) (simp add: u drop_bit_drop_bit add.commute)
qed simp

lemma reserve_ok:
  assumes "cbb_buffer_reserve env n b = (True, b')" "length (bb_buf b) < SIZE_MOD" "n < SIZE_MOD"
  shows "length (bb_buf b) + n < SIZE_MOD" "bb_buf b' = bb_buf b" "bb_error b' = bb_error b"
    "bb_can_resize b' = bb_can_resize b"
  using assms szadd_wraps [of "length (bb_buf b)" n]
  by (auto simp: cbb_buffer_reserve_def Let_def split: if_splits)

lemma reserve_succeeds:
  assumes "length (bb_buf b) + n < SIZE_MOD" "bb_can_resize b" "\<And>m. env_realloc env m"
  shows "\<exists>b'. cbb_buffer_reserve env n b = (True, b')"
  using assms by (auto simp: cbb_buffer_reserve_def Let_def szadd_exact)

lemma buffer_add_ok:
  assumes "cbb_buffer_add env n b = (True, b')" "length (bb_buf b) < SIZE_MOD" "n < SIZE_MOD"
  shows "length (bb_buf b) + n < SIZE_MOD" "bb_error b' = bb_error b" "bb_can_resize b' = bb_can_resize b"
    "bb_buf b' = bb_buf b @ map (env_uninit env) [length (bb_buf b)..<length (bb_buf b) + n]"
proof -
  from assms(1) obtain b0 where r: "cbb_buffer_reserve env n b = (True, b0)"
    and b': "b' = b0\<lparr>bb_buf := bb_buf b0 @ map (env_uninit env) [length (bb_buf b0)..<length (bb_buf b0) + n]\<rparr>"
    by (auto simp: cbb_buffer_add_def split: prod.splits bool.splits)
  note f = reserve_ok [OF r assms(2,3)]
  show "length (bb_buf b) + n < SIZE_MOD" "bb_error b' = bb_error b" "bb_can_resize b' = bb_can_resize b"
    "bb_buf b' = bb_buf b @ map (env_uninit env) [length (bb_buf b)..<length (bb_buf b) + n]"
    using f by (simp_all add: b')
qed

lemma asn1_len_len_der:
  assumes "n \<le> 0xfffffffe" "asn1_len_len n = (l, b)"
  shows "der_len n = b # be_bytes (l - 1) (if l = 1 then 0 else n)" 
    "(l = 1) = (n < 128)" "n < 128 \<or> n < 256 ^ (l - 1)"
proof -
  have c: "n \<le> 0x7f \<and> l = 1 \<and> b = of_nat n \<or> 0x7f < n \<and> n \<le> 0xff \<and> l = 2 \<and> b = 0x81 \<or>
      0xff < n \<and> n \<le> 0xffff \<and> l = 3 \<and> b = 0x82 \<or> 0xffff < n \<and> n \<le> 0xffffff \<and> l = 4 \<and> b = 0x83 \<or>
      0xffffff < n \<and> l = 5 \<and> b = 0x84"
    using assms(2) by (auto simp: asn1_len_len_def split: if_splits)
  then show "der_len n = b # be_bytes (l - 1) (if l = 1 then 0 else n)"
    by (elim disjE) (auto simp: der_len_def len_bytes_def)
  from c show "(l = 1) = (n < 128)" by auto
  from c assms(1) show "n < 128 \<or> n < 256 ^ (l - 1)" by (elim disjE) auto
qed

lemma length_enc_frame: "enc_frame k c = Some r \<Longrightarrow> psize k + length c \<le> length r"
  by (cases k) (auto simp: der_len_def split: if_splits)

lemma flush_asn1_prefix_ok:
  assumes ok: "flush_asn1_prefix env cs len nd b = (True, b', nd', len')"
    and buf: "bb_buf b = pre @ x # content" and nd: "nd_offset nd = length pre"
    and cs: "cs = Suc (length pre)" "len = length content"
    and sz: "length (bb_buf b) < SIZE_MOD"
  obtains l byte mid where "len \<le> 0xfffffffe" "asn1_len_len len = (l, byte)" "bb_error b' = bb_error b"
    "bb_can_resize b' = bb_can_resize b" "bb_buf b' = pre @ byte # mid @ content" "length mid = l - 1"
    "nd_offset nd' = Suc (length pre)" "nd_pending_len_len nd' = l - 1"
    "len' = (if l = 1 then 0 else len)" "length (bb_buf b') < SIZE_MOD"
proof -
  obtain l byte where l: "asn1_len_len len = (l, byte)" by (cases "asn1_len_len len")
  from ok have le: "len \<le> 0xfffffffe" by (auto simp: flush_asn1_prefix_def split: if_splits)
  have l5: "1 \<le> l" "l \<le> 5" using l by (auto simp: asn1_len_len_def split: if_splits)
  show thesis
  proof (cases "l = 1")
    case True
    with ok le l buf nd sz show ?thesis
      by (intro that [of l byte "[]"]) (auto simp: flush_asn1_prefix_def)
  next
    case False
    obtain okb b1 where r: "cbb_buffer_add env (l - 1) b = (okb, b1)" by (cases "cbb_buffer_add env (l - 1) b")
    with ok le l False have okb by (cases okb) (simp_all add: flush_asn1_prefix_def)
    with r have add: "cbb_buffer_add env (l - 1) b = (True, b1)" by simp
    have b': "b' = b1\<lparr>bb_buf := (memmove (cs + (l - 1)) cs len (bb_buf b1))[nd_offset nd := byte]\<rparr>"
      and nd': "nd' = nd\<lparr>nd_offset := nd_offset nd + 1, nd_pending_len_len := l - 1\<rparr>" and len': "len' = len"
      using ok le l False add by (auto simp: flush_asn1_prefix_def)
    have lS: "l - 1 < SIZE_MOD" using l5 by (simp add: SIZE_MOD_def)
    note f = buffer_add_ok [OF add sz lS]
    have lb1: "length (bb_buf b1) = cs + len + (l - 1)"
      by (simp only: f(4) length_append length_map length_upt buf cs) simp
    have "memmove (cs + (l - 1)) cs len (bb_buf b1) =
        take (cs + (l - 1)) (bb_buf b1) @ take len (drop cs (bb_buf b1)) @ drop (cs + (l - 1) + len) (bb_buf b1)"
      by (simp only: memmove_def)
    also have "take (cs + (l - 1)) (bb_buf b1) = take cs (bb_buf b1) @ take (l - 1) (drop cs (bb_buf b1))"
      by (rule take_add)
    also have "take cs (bb_buf b1) = pre @ [x]" using f(4) buf cs by simp
    also have "take len (drop cs (bb_buf b1)) = content" using f(4) buf cs by simp
    also have "drop (cs + (l - 1) + len) (bb_buf b1) = []" using lb1 by simp
    finally have mm: "memmove (cs + (l - 1)) cs len (bb_buf b1) =
        pre @ x # take (l - 1) (drop cs (bb_buf b1)) @ content" by simp
    show ?thesis
    proof (rule that [of l byte "take (l - 1) (drop cs (bb_buf b1))"])
      show "bb_buf b' = pre @ byte # take (l - 1) (drop cs (bb_buf b1)) @ content"
        unfolding b' using mm by (simp add: nd)
      show "length (take (l - 1) (drop cs (bb_buf b1))) = l - 1" using lb1 by simp
      then show "length (bb_buf b') < SIZE_MOD"
        unfolding b' using mm f(1) buf cs by (simp add: nd)
    qed (use False le l f nd nd' len' in \<open>simp_all add: b'\<close>)
  qed
qed

lemma drop_bit_of_nat_0:
  assumes "n < 2 ^ 64"
  shows "drop_bit (8 * k) (of_nat n :: u64) = 0 \<longleftrightarrow> n < 256 ^ k"
  using assms by (simp add: word_unat_eq_iff word_nat unat_of_nat power_mult div_eq_0_iff)

lemma put_be_prefix:
  assumes "length mid = n" "len < 2 ^ 64"
  shows "put_be n (length pre) (of_nat len) (pre @ mid @ post) =
    (pre @ be_bytes n len @ post, drop_bit (8 * n) (of_nat len))"
  using assms by (subst put_be_result) (simp_all add: unat_of_nat)

lemma flush_child_sound:
  assumes ok: "flush_child env (length pre + psize k) \<lparr>nd_offset = length pre, nd_pending_len_len = psize k,
      nd_pending_is_asn1 = (k = Asn1Prefix)\<rparr> b = (True, b', nd')"
    and buf: "bb_buf b = pre @ replicate (psize k) 0 @ content" and sz: "length (bb_buf b) < SIZE_MOD"
  shows "(\<exists>r. enc_frame k content = Some r \<and> bb_buf b' = pre @ r) \<and> bb_error b' = bb_error b \<and>
    bb_can_resize b' = bb_can_resize b \<and> length (bb_buf b') < SIZE_MOD"
proof -
  have len: "length content < 2 ^ 64" using buf sz by (simp add: SIZE_MOD_def)
  show ?thesis
  proof (cases k)
    case (LenPrefix n)
    have "put_be n (length pre) (of_nat (length content)) (bb_buf b) =
        (pre @ be_bytes n (length content) @ content, drop_bit (8 * n) (of_nat (length content)))"
      using len by (simp add: buf LenPrefix put_be_prefix)
    then show ?thesis
      using ok buf sz len by (auto simp: flush_child_def LenPrefix Let_def drop_bit_of_nat_0)
  next
    case Asn1Prefix
    from ok obtain b1 nd1 len1 where fp: "flush_asn1_prefix env (Suc (length pre)) (length content)
          \<lparr>nd_offset = length pre, nd_pending_len_len = 1, nd_pending_is_asn1 = True\<rparr> b = (True, b1, nd1, len1)"
      and fin: "put_be (nd_pending_len_len nd1) (nd_offset nd1) (of_nat len1) (bb_buf b1) = (bb_buf b', 0)"
      and b': "b' = b1\<lparr>bb_buf := bb_buf b'\<rparr>"
      by (auto simp: flush_child_def Asn1Prefix Let_def buf split: prod.splits if_splits)
    have bufA: "bb_buf b = pre @ 0 # content" by (simp add: buf Asn1Prefix)
    obtain l byte mid where l: "length content \<le> 0xfffffffe" "asn1_len_len (length content) = (l, byte)"
      "bb_error b1 = bb_error b" "bb_can_resize b1 = bb_can_resize b" "bb_buf b1 = pre @ byte # mid @ content"
      "length mid = l - 1" "nd_offset nd1 = Suc (length pre)" "nd_pending_len_len nd1 = l - 1"
      "len1 = (if l = 1 then 0 else length content)" "length (bb_buf b1) < SIZE_MOD"
      by (rule flush_asn1_prefix_ok [OF fp bufA _ refl refl sz]) (simp, rule that)
    note d = asn1_len_len_der [OF l(1,2)]
    have "bb_buf b' = (pre @ [byte]) @ be_bytes (l - 1) len1 @ content"
      using fin put_be_prefix [OF l(6), of len1 "pre @ [byte]" content] l len by simp
    moreover from this have "length (bb_buf b') = length (bb_buf b1)" using l by simp
    moreover have "bb_error b' = bb_error b1" "bb_can_resize b' = bb_can_resize b1"
      by (subst b', simp)+
    ultimately show ?thesis using l d by (simp add: Asn1Prefix)
  qed
qed

lemma flush_chain_sound:
  assumes "cbb_flush_chain env (frames_nodes (length pre) fs) b = (True, b', cs')"
    and "bb_buf b = pre @ frames_buf fs" "length (bb_buf b) < SIZE_MOD"
    and "\<forall>f \<in> set fs. 0 < psize (fst f)"
  shows "cs' = [] \<and> (\<exists>r. enc_frames fs = Some r \<and> bb_buf b' = pre @ r) \<and> \<not> bb_error b' \<and>
    bb_can_resize b' = bb_can_resize b \<and> length (bb_buf b') < SIZE_MOD"
  using assms
proof (induction fs arbitrary: pre b b' cs')
  case Nil
  then show ?case by auto
next
  case (Cons f fs)
  obtain k c where f: "f = (k, c)" by (cases f)
  let ?pre = "pre @ replicate (psize k) 0 @ c"
  have sz: "szadd (length pre) (psize k) = length pre + psize k"
    using Cons.prems(2,3) by (intro szadd_exact) (simp add: f)
  have off: "length ?pre = length pre + psize k + length c" by simp
  from Cons.prems(1,4) obtain b1 cs1 nd' where
    fl: "cbb_flush_chain env (frames_nodes (length ?pre) fs) b = (True, b1, cs1)"
    and ch: "flush_child env (length pre + psize k) \<lparr>nd_offset = length pre, nd_pending_len_len = psize k,
      nd_pending_is_asn1 = (k = Asn1Prefix)\<rparr> b1 = (True, b', nd')" and cs': "cs' = []"
    unfolding off by (auto simp: f Let_def sz split: prod.splits if_splits)
  have "(\<exists>r. enc_frames fs = Some r \<and> bb_buf b1 = ?pre @ r)" and IH: "\<not> bb_error b1"
    "bb_can_resize b1 = bb_can_resize b" "length (bb_buf b1) < SIZE_MOD"
    using Cons.IH [OF fl] Cons.prems by (simp_all add: f)
  then obtain r where r: "enc_frames fs = Some r" "bb_buf b1 = pre @ replicate (psize k) 0 @ (c @ r)" by auto
  from flush_child_sound [OF ch r(2) IH(3)] IH r(1) cs' show ?case by (simp add: f)
qed

lemma flush_child_complete:
  assumes enc: "enc_frame k content = Some r"
    and buf: "bb_buf b = pre @ replicate (psize k) 0 @ content" and sz: "length pre + length r < SIZE_MOD"
    and mem: "bb_can_resize b" "\<And>m. env_realloc env m"
  shows "\<exists>b' nd'. flush_child env (length pre + psize k) \<lparr>nd_offset = length pre, nd_pending_len_len = psize k,
      nd_pending_is_asn1 = (k = Asn1Prefix)\<rparr> b = (True, b', nd')"
proof -
  have len: "length content < 2 ^ 64" "length (bb_buf b) < SIZE_MOD"
    using buf sz length_enc_frame [OF enc] by (simp_all add: SIZE_MOD_def)
  show ?thesis
  proof (cases k)
    case (LenPrefix n)
    have "put_be n (length pre) (of_nat (length content)) (bb_buf b) =
        (pre @ be_bytes n (length content) @ content, drop_bit (8 * n) (of_nat (length content)))"
      using len by (simp add: buf LenPrefix put_be_prefix)
    then show ?thesis
      using enc buf len by (simp add: flush_child_def LenPrefix Let_def drop_bit_of_nat_0 split: if_splits)
  next
    case Asn1Prefix
    obtain l byte where l: "asn1_len_len (length content) = (l, byte)" by (cases "asn1_len_len (length content)")
    have le: "length content \<le> 0xfffffffe" and r: "r = der_len (length content) @ content"
      using enc by (auto simp: Asn1Prefix split: if_splits)
    note d = asn1_len_len_der [OF le l]
    let ?nd = "\<lparr>nd_offset = length pre, nd_pending_len_len = 1, nd_pending_is_asn1 = True\<rparr>"
    have bufA: "bb_buf b = pre @ 0 # content" by (simp add: buf Asn1Prefix)
    obtain b0 where "cbb_buffer_reserve env (l - 1) b = (True, b0)"
      using reserve_succeeds [of b "l - 1" env] mem sz by (auto simp: bufA r d)
    then obtain b1 nd1 len1 where fp: "flush_asn1_prefix env (Suc (length pre)) (length content) ?nd b = (True, b1, nd1, len1)"
      using l le by (cases "l = 1") (simp_all add: flush_asn1_prefix_def cbb_buffer_add_def Let_def)
    obtain l' byte' mid where f: "asn1_len_len (length content) = (l', byte')" "bb_buf b1 = pre @ byte' # mid @ content"
      "length mid = l' - 1" "nd_offset nd1 = Suc (length pre)" "nd_pending_len_len nd1 = l' - 1"
      "len1 = (if l' = 1 then 0 else length content)"
      by (rule flush_asn1_prefix_ok [OF fp bufA _ refl refl len(2)]) (simp, rule that)
    have "put_be (l - 1) (Suc (length pre)) (of_nat len1) (bb_buf b1) =
        ((pre @ [byte]) @ be_bytes (l - 1) len1 @ content, drop_bit (8 * (l - 1)) (of_nat len1))"
      using put_be_prefix [of mid "l - 1" len1 "pre @ [byte]" content] f l len by simp
    moreover have "len1 < 256 ^ (l - 1)" using f(6) l f(1) d(2,3) by auto
    ultimately show ?thesis
      using fp f l len by (simp add: flush_child_def Asn1Prefix Let_def bufA drop_bit_of_nat_0)
  qed
qed

lemma length_enc_frames: "enc_frames fs = Some r \<Longrightarrow> length (frames_buf fs) \<le> length r"
  by (induction fs arbitrary: r rule: enc_frames.induct)
     (fastforce dest: length_enc_frame split: option.splits)+

lemma flush_chain_complete:
  assumes "enc_frames fs = Some r" "bb_buf b = pre @ frames_buf fs" "length pre + length r < SIZE_MOD"
    and "\<not> bb_error b" "bb_can_resize b" "\<And>m. env_realloc env m" "\<forall>f \<in> set fs. 0 < psize (fst f)"
  shows "\<exists>b'. cbb_flush_chain env (frames_nodes (length pre) fs) b = (True, b', [])"
  using assms
proof (induction fs arbitrary: pre b r)
  case Nil
  then show ?case by simp
next
  case (Cons f fs)
  obtain k c where f: "f = (k, c)" by (cases f)
  let ?pre = "pre @ replicate (psize k) 0 @ c"
  obtain r' where r': "enc_frames fs = Some r'" "enc_frame k (c @ r') = Some r"
    using Cons.prems(1) by (auto simp: f split: option.splits)
  have sz': "length ?pre + length r' < SIZE_MOD"
    using length_enc_frame [OF r'(2)] Cons.prems(3) by simp
  have buf': "bb_buf b = ?pre @ frames_buf fs" using Cons.prems(2) by (simp add: f)
  have ps: "\<forall>f \<in> set fs. 0 < psize (fst f)" "0 < psize k" using Cons.prems(7) by (auto simp: f)
  obtain b1 where fl: "cbb_flush_chain env (frames_nodes (length ?pre) fs) b = (True, b1, [])"
    using Cons.IH [OF r'(1) buf' sz' Cons.prems(4-6) ps(1)] by blast
  have lb: "length (bb_buf b) < SIZE_MOD" using length_enc_frames [OF r'(1)] sz' by (simp add: buf')
  from flush_chain_sound [OF fl buf' lb ps(1)] r'(1)
  have b1: "bb_buf b1 = pre @ replicate (psize k) 0 @ (c @ r')" "bb_can_resize b1" using Cons.prems(5) by auto
  from flush_child_complete [OF r'(2) b1(1) Cons.prems(3) b1(2) Cons.prems(6)]
  obtain b' nd' where ch: "flush_child env (length pre + psize k) \<lparr>nd_offset = length pre, nd_pending_len_len = psize k,
      nd_pending_is_asn1 = (k = Asn1Prefix)\<rparr> b1 = (True, b', nd')" by blast
  have "szadd (length pre) (psize k) = length pre + psize k"
    using sz' by (intro szadd_exact) simp
  then show ?case using fl ch Cons.prems(4) ps(2) b1(1) by (simp add: f Let_def add.assoc)
qed

subsection \<open>The abstract builder\<close>

definition app_last :: "bytes \<Rightarrow> frame list \<Rightarrow> frame list" where
  "app_last d fs = butlast fs @ [(fst (last fs), snd (last fs) @ d)]"

definition a_flush :: "nat \<Rightarrow> frame list \<Rightarrow> frame list option" where
  "a_flush k fs = (if k < length fs then
     map_option (\<lambda>r. app_last r (take (Suc k) fs)) (enc_frames (drop (Suc k) fs)) else None)"

definition a_append :: "nat \<Rightarrow> bytes \<Rightarrow> frame list \<Rightarrow> frame list option" where
  "a_append k d fs = map_option (app_last d) (a_flush k fs)"

definition a_open :: "nat \<Rightarrow> fkind \<Rightarrow> frame list \<Rightarrow> frame list option" where
  "a_open k kind fs = map_option (\<lambda>fs. fs @ [(kind, [])]) (a_flush k fs)"

definition cbb_abs :: "cbb \<Rightarrow> frame list \<Rightarrow> bool" where
  "cbb_abs cbb fs \<longleftrightarrow> (\<exists>b root fs'. fs = (LenPrefix 0, root) # fs' \<and> cbb_base cbb = Some b \<and>
     \<not> bb_error b \<and> bb_buf b = root @ frames_buf fs' \<and> length (bb_buf b) < SIZE_MOD \<and>
     cbb_chain cbb = frames_nodes (length root) fs' \<and> (\<forall>f \<in> set fs'. 0 < psize (fst f)))"

definition resizable :: "cbb \<Rightarrow> bool" where
  "resizable cbb \<longleftrightarrow> (\<exists>b. cbb_base cbb = Some b \<and> bb_can_resize b)"

lemma frames_buf_append [simp]: "frames_buf (xs @ ys) = frames_buf xs @ frames_buf ys"
  by (induction xs rule: frames_buf.induct) simp_all

lemma frames_nodes_append:
  "frames_nodes off (xs @ ys) = frames_nodes off xs @ frames_nodes (off + length (frames_buf xs)) ys"
  by (induction off xs rule: frames_nodes.induct) (simp_all add: add.assoc)

lemma length_frames_nodes [simp]: "length (frames_nodes off fs) = length fs"
  by (induction off fs rule: frames_nodes.induct) simp_all

lemma app_last_snoc [simp]: "app_last d (fs @ [(k, c)]) = fs @ [(k, c @ d)]"
  by (simp add: app_last_def)

lemma app_last_app_last [simp]: "app_last e (app_last d fs) = app_last (d @ e) fs"
  by (simp add: app_last_def)

lemma app_last_Nil [simp]: "fs \<noteq> [] \<Longrightarrow> app_last [] fs = fs"
  by (simp add: app_last_def)

lemma app_last_nonempty [simp]: "app_last d fs \<noteq> []"
  by (simp add: app_last_def)

lemma length_app_last [simp]: "length (app_last d fs) = Suc (length fs - 1)"
  by (simp add: app_last_def)

lemma frames_buf_app_last: "fs \<noteq> [] \<Longrightarrow> frames_buf (app_last d fs) = frames_buf fs @ d"
  by (cases fs rule: rev_cases) auto

lemma cbb_abs_app_last:
  assumes "cbb_abs cbb fs" "cbb_base cbb = Some b" "\<not> bb_error b'" "length (bb_buf b') < SIZE_MOD"
    and "bb_buf b' = bb_buf b @ d" "length fs = Suc (length (cbb_chain cbb))"
  shows "cbb_abs (cbb\<lparr>cbb_base := Some b'\<rparr>) (app_last d fs)"
proof -
  from assms obtain root fs' where f: "fs = (LenPrefix 0, root) # fs'" "bb_buf b = root @ frames_buf fs'"
    "cbb_chain cbb = frames_nodes (length root) fs'" "\<forall>f \<in> set fs'. 0 < psize (fst f)"
    by (auto simp: cbb_abs_def)
  show ?thesis
  proof (cases fs' rule: rev_cases)
    case Nil
    with f assms show ?thesis by (simp add: cbb_abs_def app_last_def)
  next
    case (snoc xs x)
    obtain k c where x: "x = (k, c)" by (cases x)
    have "app_last d fs = (LenPrefix 0, root) # (xs @ [(k, c @ d)])"
      by (simp add: f snoc x app_last_def)
    with f assms show ?thesis by (simp add: cbb_abs_def snoc x frames_nodes_append)
  qed
qed

text \<open>
  A builder operation implements an abstract one: where it returns 1 its result is the abstract
  result; the abstract result never shrinks; and with a buffer that can grow, an allocator that
  does not fail and a result that a \<open>size_t\<close> can measure, it returns 1 wherever the abstract
  operation is defined.
\<close>

definition implements ::
  "mem_env \<Rightarrow> (frame list \<Rightarrow> bool) \<Rightarrow> (cbb \<Rightarrow> bool \<times> cbb) \<Rightarrow> (frame list \<Rightarrow> frame list option) \<Rightarrow> bool" where
  "implements env P f a \<longleftrightarrow>
     (\<forall>c x c'. P x \<longrightarrow> cbb_abs c x \<longrightarrow> f c = (True, c') \<longrightarrow>
        (\<exists>x'. a x = Some x' \<and> cbb_abs c' x' \<and> resizable c' = resizable c)) \<and>
     (\<forall>x x'. P x \<longrightarrow> x \<noteq> [] \<longrightarrow> a x = Some x' \<longrightarrow>
        x' \<noteq> [] \<and> length (frames_buf x) \<le> length (frames_buf x')) \<and>
     (\<forall>c x x'. P x \<longrightarrow> cbb_abs c x \<longrightarrow> a x = Some x' \<longrightarrow> resizable c \<longrightarrow> (\<forall>m. env_realloc env m) \<longrightarrow>
        length (frames_buf x') < SIZE_MOD \<longrightarrow> fst (f c))"

lemma implementsI:
  assumes "\<And>c x c'. P x \<Longrightarrow> cbb_abs c x \<Longrightarrow> f c = (True, c') \<Longrightarrow>
      \<exists>x'. a x = Some x' \<and> cbb_abs c' x' \<and> resizable c' = resizable c"
    and "\<And>x x'. P x \<Longrightarrow> x \<noteq> [] \<Longrightarrow> a x = Some x' \<Longrightarrow> x' \<noteq> [] \<and> length (frames_buf x) \<le> length (frames_buf x')"
    and "\<And>c x x'. P x \<Longrightarrow> cbb_abs c x \<Longrightarrow> a x = Some x' \<Longrightarrow> resizable c \<Longrightarrow> (\<And>m. env_realloc env m) \<Longrightarrow>
        length (frames_buf x') < SIZE_MOD \<Longrightarrow> fst (f c)"
  shows "implements env P f a"
  using assms unfolding implements_def by blast

lemma implements_sound:
  assumes "implements env P f a" "P x" "cbb_abs c x" "f c = (True, c')"
  obtains x' where "a x = Some x'" "cbb_abs c' x'" "resizable c' = resizable c"
  using assms unfolding implements_def by blast

lemma implements_grows:
  assumes "implements env P f a" "P x" "x \<noteq> []" "a x = Some x'"
  shows "x' \<noteq> []" "length (frames_buf x) \<le> length (frames_buf x')"
  using assms unfolding implements_def by blast+

lemma implements_live:
  assumes "implements env P f a" "P x" "cbb_abs c x" "a x = Some x'" "resizable c" "\<And>m. env_realloc env m"
    "length (frames_buf x') < SIZE_MOD"
  obtains c' where "f c = (True, c')" "cbb_abs c' x'" "resizable c'"
proof -
  have "fst (f c)" using assms unfolding implements_def by blast
  then obtain c' where c': "f c = (True, c')" by (cases "f c") auto
  from implements_sound [OF assms(1-3) c'] c' assms(4,5) that show thesis by force
qed

lemma cbb_abs_nonempty: "cbb_abs c x \<Longrightarrow> x \<noteq> []"
  by (auto simp: cbb_abs_def)

lemma implements_seq:
  assumes f: "implements env P f a" and g: "implements env Q g b"
    and PQ: "\<And>x x'. P x \<Longrightarrow> x \<noteq> [] \<Longrightarrow> a x = Some x' \<Longrightarrow> Q x'"
  shows "implements env P (\<lambda>c. and_then (f c) g) (\<lambda>x. Option.bind (a x) b)"
proof (rule implementsI)
  fix c x c'
  assume c: "P x" "cbb_abs c x" and "and_then (f c) g = (True, c')"
  then obtain c1 where c1: "f c = (True, c1)" "g c1 = (True, c')"
    by (cases "f c") (auto simp: and_then_def split: if_splits)
  obtain x1 where x1: "a x = Some x1" "cbb_abs c1 x1" "resizable c1 = resizable c"
    using implements_sound [OF f c c1(1)] .
  have "Q x1" using PQ c x1 cbb_abs_nonempty by blast
  from implements_sound [OF g this x1(2) c1(2)] x1
  show "\<exists>x'. Option.bind (a x) b = Some x' \<and> cbb_abs c' x' \<and> resizable c' = resizable c" by force
next
  fix x x' assume x: "P x" "x \<noteq> []" "Option.bind (a x) b = Some x'"
  then obtain x1 where x1: "a x = Some x1" "b x1 = Some x'" by (cases "a x") auto
  note g1 = implements_grows [OF f x(1,2) x1(1)]
  note g2 = implements_grows [OF g PQ [OF x(1,2) x1(1)] g1(1) x1(2)]
  from g1 g2 show "x' \<noteq> [] \<and> length (frames_buf x) \<le> length (frames_buf x')" by simp
next
  fix c x x'
  assume A: "P x" "cbb_abs c x" "Option.bind (a x) b = Some x'" "resizable c" "\<And>m. env_realloc env m"
    "length (frames_buf x') < SIZE_MOD"
  then obtain x1 where x1: "a x = Some x1" "b x1 = Some x'" by (cases "a x") auto
  have x: "x \<noteq> []" using A(2) by (rule cbb_abs_nonempty)
  have Q: "Q x1" using PQ A(1) x x1(1) .
  have "length (frames_buf x1) < SIZE_MOD"
    using implements_grows [OF g Q _ x1(2)] implements_grows [OF f A(1) x x1(1)] A(6) by simp
  then obtain c1 where c1: "f c = (True, c1)" "cbb_abs c1 x1" "resizable c1"
    using implements_live [OF f A(1,2) x1(1) A(4,5)] by blast
  from implements_live [OF g Q c1(2) x1(2) c1(3) A(5,6)] c1(1) show "fst (and_then (f c) g)" by force
qed

lemma implements_cong:
  assumes "implements env P f a" "\<And>x. P' x \<Longrightarrow> P x" "\<And>x. P' x \<Longrightarrow> x \<noteq> [] \<Longrightarrow> a x = a' x" "\<And>c. f c = f' c"
  shows "implements env P' f' a'"
proof -
  have f': "f' = f" using assms(4) by auto
  show ?thesis unfolding f'
  proof (rule implementsI)
    fix c x c' assume x: "P' x" "cbb_abs c x" "f c = (True, c')"
    from implements_sound [OF assms(1) assms(2) [OF x(1)] x(2,3)] assms(3) [OF x(1) cbb_abs_nonempty [OF x(2)]]
    show "\<exists>x'. a' x = Some x' \<and> cbb_abs c' x' \<and> resizable c' = resizable c" by metis
  next
    fix x x' assume x: "P' x" "x \<noteq> []" "a' x = Some x'"
    from implements_grows [OF assms(1) assms(2) [OF x(1)] x(2)] assms(3) [OF x(1,2)] x(3)
    show "x' \<noteq> [] \<and> length (frames_buf x) \<le> length (frames_buf x')" by simp
  next
    fix c x x' assume x: "P' x" "cbb_abs c x" "a' x = Some x'" "resizable c" "\<And>m. env_realloc env m"
      "length (frames_buf x') < SIZE_MOD"
    have "a x = Some x'" using assms(3) [OF x(1) cbb_abs_nonempty [OF x(2)]] x(3) by simp
    from implements_live [OF assms(1) assms(2) [OF x(1)] x(2) this x(4-6)] show "fst (f c)" by force
  qed
qed

lemma implements_skip: "implements env P (\<lambda>c. (True, c)) Some"
  by (auto simp: implements_def)

subsection \<open>The operations\<close>

lemma cbb_abs_split:
  assumes "cbb_abs cbb fs"
  obtains b where "cbb_base cbb = Some b" "\<not> bb_error b" "bb_buf b = frames_buf fs" "length (bb_buf b) < SIZE_MOD"
    "length fs = Suc (length (cbb_chain cbb))"
  using assms by (auto simp: cbb_abs_def)

lemma cbb_abs_drop:
  assumes "cbb_abs cbb fs" "k < length fs"
  shows "drop k (cbb_chain cbb) = frames_nodes (length (frames_buf (take (Suc k) fs))) (drop (Suc k) fs)"
    and "\<forall>f \<in> set (drop (Suc k) fs). 0 < psize (fst f)"
proof -
  from assms(1) obtain root fs' where f: "fs = (LenPrefix 0, root) # fs'"
    "cbb_chain cbb = frames_nodes (length root) fs'" "\<forall>f \<in> set fs'. 0 < psize (fst f)"
    by (auto simp: cbb_abs_def)
  have "frames_nodes (length root) fs' = frames_nodes (length root) (take k fs') @
      frames_nodes (length root + length (frames_buf (take k fs'))) (drop k fs')"
    by (simp flip: frames_nodes_append)
  moreover have "length (take k fs') = k" using assms(2) f(1) by simp
  ultimately show "drop k (cbb_chain cbb) = frames_nodes (length (frames_buf (take (Suc k) fs))) (drop (Suc k) fs)"
    by (simp add: f)
  show "\<forall>f \<in> set (drop (Suc k) fs). 0 < psize (fst f)"
    using f(3) by (auto simp: f(1) dest: in_set_dropD)
qed

lemma cbb_abs_take:
  assumes "cbb_abs cbb fs" "k < length fs" "length (frames_buf (take (Suc k) fs)) < SIZE_MOD"
    and "bb_buf b = frames_buf (take (Suc k) fs)" "\<not> bb_error b"
  shows "cbb_abs (cbb\<lparr>cbb_base := Some b, cbb_chain := take k (cbb_chain cbb)\<rparr>) (take (Suc k) fs)"
proof -
  from assms(1) obtain root fs' where f: "fs = (LenPrefix 0, root) # fs'"
    "cbb_chain cbb = frames_nodes (length root) fs'" "\<forall>f \<in> set fs'. 0 < psize (fst f)"
    by (auto simp: cbb_abs_def)
  have "frames_nodes (length root) fs' = frames_nodes (length root) (take k fs') @
      frames_nodes (length root + length (frames_buf (take k fs'))) (drop k fs')"
    by (simp flip: frames_nodes_append)
  moreover have "length (take k fs') = k" using assms(2) f(1) by simp
  ultimately have "take k (cbb_chain cbb) = frames_nodes (length root) (take k fs')" by (simp add: f)
  with assms f show ?thesis by (auto simp: cbb_abs_def dest: in_set_takeD)
qed

lemma frames_buf_take_drop: "frames_buf fs = frames_buf (take n fs) @ frames_buf (drop n fs)"
  by (simp flip: frames_buf_append)

lemma CBB_flush_implements: "implements env (\<lambda>_. True) (CBB_flush env k) (a_flush k)"
proof (rule implementsI)
  fix c x c'
  assume c: "cbb_abs c x" and ok: "CBB_flush env k c = (True, c')"
  obtain b where b: "cbb_base c = Some b" "\<not> bb_error b" "bb_buf b = frames_buf x" "length (bb_buf b) < SIZE_MOD"
    "length x = Suc (length (cbb_chain c))" using c by (rule cbb_abs_split)
  have k: "k < length x" using ok b by (auto simp: CBB_flush_def split: if_splits)
  note d = cbb_abs_drop [OF c k]
  from ok b k obtain b' rest where fl: "cbb_flush_chain env (drop k (cbb_chain c)) b = (True, b', rest)"
    and c': "c' = c\<lparr>cbb_base := Some b', cbb_chain := take k (cbb_chain c) @ rest\<rparr>"
    by (auto simp: CBB_flush_def split: prod.splits if_splits)
  let ?pre = "frames_buf (take (Suc k) x)"
  have bb: "bb_buf b = ?pre @ frames_buf (drop (Suc k) x)" using b(3) frames_buf_take_drop by metis
  from flush_chain_sound [OF fl [unfolded d(1)] bb b(4) d(2)]
  obtain r where r: "rest = []" "enc_frames (drop (Suc k) x) = Some r" "bb_buf b' = ?pre @ r" "\<not> bb_error b'"
    "bb_can_resize b' = bb_can_resize b" "length (bb_buf b') < SIZE_MOD" by blast
  have t: "cbb_abs (c\<lparr>cbb_base := Some (b\<lparr>bb_buf := ?pre\<rparr>), cbb_chain := take k (cbb_chain c)\<rparr>) (take (Suc k) x)"
    using c k r(3,6) b(2) by (intro cbb_abs_take) auto
  have "cbb_abs c' (app_last r (take (Suc k) x))"
  proof -
    have "c' = c\<lparr>cbb_base := Some (b\<lparr>bb_buf := ?pre\<rparr>), cbb_chain := take k (cbb_chain c)\<rparr>\<lparr>cbb_base := Some b'\<rparr>"
      by (cases c) (simp add: c' r(1))
    moreover have "cbb_abs \<dots> (app_last r (take (Suc k) x))"
      by (rule cbb_abs_app_last [OF t _ r(4,6), where b = "b\<lparr>bb_buf := ?pre\<rparr>"]) (use r(3) k b(5) in simp_all)
    ultimately show ?thesis by simp
  qed
  moreover have "resizable c' = resizable c" using r(5) b(1) by (simp add: resizable_def c')
  ultimately show "\<exists>x'. a_flush k x = Some x' \<and> cbb_abs c' x' \<and> resizable c' = resizable c"
    using k r(2) by (simp add: a_flush_def)
next
  fix x x' :: "frame list"
  assume x: "x \<noteq> []" "a_flush k x = Some x'"
  then obtain r where r: "k < length x" "enc_frames (drop (Suc k) x) = Some r" "x' = app_last r (take (Suc k) x)"
    by (auto simp: a_flush_def split: if_splits)
  have "length (frames_buf (take (Suc k) x)) + length (frames_buf (drop (Suc k) x)) \<le> length (frames_buf x')"
    using length_enc_frames [OF r(2)] x r by (simp add: frames_buf_app_last)
  with x r show "x' \<noteq> [] \<and> length (frames_buf x) \<le> length (frames_buf x')"
    using frames_buf_take_drop [of x "Suc k"] by (auto simp: app_last_def)
next
  fix c x x'
  assume c: "cbb_abs c x" and a: "a_flush k x = Some x'" and res: "resizable c" "\<And>m. env_realloc env m"
    and sz: "length (frames_buf x') < SIZE_MOD"
  then obtain r where r: "k < length x" "enc_frames (drop (Suc k) x) = Some r" "x' = app_last r (take (Suc k) x)"
    by (auto simp: a_flush_def split: if_splits)
  obtain b where b: "cbb_base c = Some b" "\<not> bb_error b" "bb_buf b = frames_buf x" "length (bb_buf b) < SIZE_MOD"
    "length x = Suc (length (cbb_chain c))" using c by (rule cbb_abs_split)
  note d = cbb_abs_drop [OF c r(1)]
  let ?pre = "frames_buf (take (Suc k) x)"
  have bb: "bb_buf b = ?pre @ frames_buf (drop (Suc k) x)" using b(3) frames_buf_take_drop by metis
  have "length ?pre + length r < SIZE_MOD" using sz r cbb_abs_nonempty [OF c] by (simp add: frames_buf_app_last)
  from flush_chain_complete [OF r(2) bb this b(2) _ res(2) d(2)] res(1) b(1)
  obtain b' where "cbb_flush_chain env (drop k (cbb_chain c)) b = (True, b', [])"
    by (auto simp: resizable_def d(1))
  then show "fst (CBB_flush env k c)" using b r(1) by (simp add: CBB_flush_def)
qed


lemma implements_on_base:
  assumes "\<And>b b'. length (bb_buf b) < SIZE_MOD \<Longrightarrow> f b = (True, b') \<Longrightarrow>
      P \<and> bb_buf b' = bb_buf b @ d \<and> bb_error b' = bb_error b \<and> bb_can_resize b' = bb_can_resize b \<and>
      length (bb_buf b') < SIZE_MOD"
    and "\<And>b. length (bb_buf b @ d) < SIZE_MOD \<Longrightarrow> bb_can_resize b \<Longrightarrow> (\<And>m. env_realloc env m) \<Longrightarrow> P \<Longrightarrow> fst (f b)"
  shows "implements env (\<lambda>_. True) (on_base f) (\<lambda>fs. if P then Some (app_last d fs) else None)"
proof (rule implementsI)
  fix c x c' assume c: "cbb_abs c x" "on_base f c = (True, c')"
  obtain b where b: "cbb_base c = Some b" "\<not> bb_error b" "bb_buf b = frames_buf x" "length (bb_buf b) < SIZE_MOD"
    "length x = Suc (length (cbb_chain c))" using c(1) by (rule cbb_abs_split)
  then obtain b' where b': "f b = (True, b')" "c' = c\<lparr>cbb_base := Some b'\<rparr>"
    using c(2) by (auto simp: on_base_def split: prod.splits)
  note r = assms(1) [OF b(4) b'(1)]
  have "cbb_abs c' (app_last d x)"
    unfolding b' using r b by (intro cbb_abs_app_last [OF c(1) b(1)]) auto
  with r b b' show "\<exists>x'. (if P then Some (app_last d x) else None) = Some x' \<and> cbb_abs c' x' \<and> resizable c' = resizable c"
    by (simp add: resizable_def)
next
  fix x x' :: "frame list" assume "x \<noteq> []" "(if P then Some (app_last d x) else None) = Some x'"
  then show "x' \<noteq> [] \<and> length (frames_buf x) \<le> length (frames_buf x')"
    by (auto simp: frames_buf_app_last split: if_splits)
next
  fix c x x' assume c: "cbb_abs c x" "(if P then Some (app_last d x) else None) = Some x'" "resizable c"
    "\<And>m. env_realloc env m" "length (frames_buf x') < SIZE_MOD"
  obtain b where b: "cbb_base c = Some b" "\<not> bb_error b" "bb_buf b = frames_buf x" "length (bb_buf b) < SIZE_MOD"
    "length x = Suc (length (cbb_chain c))" using c(1) by (rule cbb_abs_split)
  have "fst (f b)"
    using assms(2) [of b] c b cbb_abs_nonempty [OF c(1)]
    by (auto simp: frames_buf_app_last resizable_def split: if_splits)
  then show "fst (on_base f c)" by (auto simp: on_base_def b split: prod.splits)
qed

lemma buffer_add_succeeds:
  assumes "length (bb_buf b) + n < SIZE_MOD" "bb_can_resize b" "\<And>m. env_realloc env m"
  obtains b' where "cbb_buffer_add env n b = (True, b')"
  using reserve_succeeds [OF assms] by (auto simp: cbb_buffer_add_def)

lemma on_base_append_implements:
  assumes "length d < SIZE_MOD"
  shows "implements env (\<lambda>_. True) (on_base (buffer_append env d)) (\<lambda>fs. Some (app_last d fs))"
proof -
  have "implements env (\<lambda>_. True) (on_base (buffer_append env d)) (\<lambda>fs. if True then Some (app_last d fs) else None)"
  proof (rule implements_on_base)
    fix b b' assume b: "length (bb_buf b) < SIZE_MOD" "buffer_append env d b = (True, b')"
    then obtain b1 where b1: "cbb_buffer_add env (length d) b = (True, b1)"
      "b' = b1\<lparr>bb_buf := take (length (bb_buf b1) - length d) (bb_buf b1) @ d\<rparr>"
      by (auto simp: buffer_append_def split: prod.splits bool.splits)
    from buffer_add_ok [OF b1(1) b(1) assms] b1(2)
    show "True \<and> bb_buf b' = bb_buf b @ d \<and> bb_error b' = bb_error b \<and> bb_can_resize b' = bb_can_resize b \<and>
      length (bb_buf b') < SIZE_MOD" by simp
  next
    fix b :: cbb_buffer assume b: "length (bb_buf b @ d) < SIZE_MOD" "bb_can_resize b" "\<And>m. env_realloc env m"
    have "length (bb_buf b) + length d < SIZE_MOD" using b(1) by simp
    then obtain b' where "cbb_buffer_add env (length d) b = (True, b')"
      using buffer_add_succeeds b(2,3) by blast
    then show "fst (buffer_append env d b)" by (simp add: buffer_append_def)
  qed
  then show ?thesis by simp
qed

lemma on_base_add_u_implements:
  assumes "n < SIZE_MOD"
  shows "implements env (\<lambda>_. True) (on_base (cbb_buffer_add_u env v n))
    (\<lambda>fs. if n = 0 \<or> unat v < 256 ^ n then Some (app_last (be_bytes n (unat v)) fs) else None)"
proof (rule implements_on_base)
  have pb: "put_be n (length (bb_buf b) - n) v (bb_buf b) = (take (length (bb_buf b) - n) (bb_buf b) @ be_bytes n (unat v), drop_bit (8 * n) v)"
    if "n \<le> length (bb_buf b)" for b
    using that by (subst put_be_result) simp_all
  have left: "drop_bit (8 * n) v = 0 \<longleftrightarrow> unat v < 256 ^ n"
    using drop_bit_of_nat_0 [of "unat v" n] by simp
  fix b b' assume b: "length (bb_buf b) < SIZE_MOD" "cbb_buffer_add_u env v n b = (True, b')"
  show "(n = 0 \<or> unat v < 256 ^ n) \<and> bb_buf b' = bb_buf b @ be_bytes n (unat v) \<and> bb_error b' = bb_error b \<and>
      bb_can_resize b' = bb_can_resize b \<and> length (bb_buf b') < SIZE_MOD"
  proof (cases "n = 0")
    case True
    with b show ?thesis by (auto simp: cbb_buffer_add_u_def)
  next
    case False
    with b obtain b1 where b1: "cbb_buffer_add env n b = (True, b1)"
      by (auto simp: cbb_buffer_add_u_def split: prod.splits bool.splits)
    note a = buffer_add_ok [OF b1 b(1) assms]
    have "n \<le> length (bb_buf b1)" using a(4) by simp
    with b(2) b1 False pb [of b1] left a show ?thesis
      by (auto simp: cbb_buffer_add_u_def split: if_splits)
  qed
next
  fix b :: cbb_buffer assume b: "length (bb_buf b @ be_bytes n (unat v)) < SIZE_MOD" "bb_can_resize b" "\<And>m. env_realloc env m"
    "n = 0 \<or> unat v < 256 ^ n"
  then obtain b1 where b1: "cbb_buffer_add env n b = (True, b1)"
    using buffer_add_succeeds [of b n env] by auto
  have "n \<le> length (bb_buf b1)" using buffer_add_ok(4) [OF b1] b assms by simp
  then have "put_be n (length (bb_buf b1) - n) v (bb_buf b1) = (take (length (bb_buf b1) - n) (bb_buf b1) @ be_bytes n (unat v), drop_bit (8 * n) v)"
    by (subst put_be_result) simp_all
  with b b1 drop_bit_of_nat_0 [of "unat v" n] show "fst (cbb_buffer_add_u env v n b)"
    by (auto simp: cbb_buffer_add_u_def)
qed

lemma a_flush_length: "a_flush k fs = Some fs' \<Longrightarrow> length fs' = Suc k"
  by (auto simp: a_flush_def split: if_splits)

lemma a_append_length: "a_append k d fs = Some fs' \<Longrightarrow> length fs' = Suc k"
  using a_flush_length by (auto simp: a_append_def)

lemma a_flush_top: "length fs = Suc k \<Longrightarrow> a_flush k fs = Some fs"
  by (cases fs) (auto simp: a_flush_def)

lemma a_append_top: "length fs = Suc k \<Longrightarrow> a_append k d fs = Some (app_last d fs)"
  by (simp add: a_append_def a_flush_top)

lemma a_append_append:
  "Option.bind (a_append k d fs) (a_append k e) = a_append k (d @ e) fs"
proof (cases "a_flush k fs")
  case (Some fs')
  then have "length (app_last d fs') = Suc k" using a_flush_length [OF Some] by (cases fs') auto
  then show ?thesis by (simp add: a_append_def Some a_flush_top)
qed (simp add: a_append_def)

lemma a_flush_append: "Option.bind (a_flush k fs) (a_append k d) = a_append k d fs"
proof (cases "a_flush k fs")
  case (Some fs')
  with a_flush_length [OF Some] show ?thesis by (simp add: a_append_def a_flush_top)
qed (simp add: a_append_def)

lemma CBB_add_bytes_implements:
  assumes "length d < SIZE_MOD"
  shows "implements env (\<lambda>_. True) (CBB_add_bytes env d k) (a_append k d)"
  by (rule implements_cong [OF implements_seq [OF CBB_flush_implements [of env k] on_base_append_implements [OF assms]]])
     (auto simp: a_append_def CBB_add_bytes_def split: bind_splits)

lemma CBB_add_u_implements:
  assumes "n < SIZE_MOD"
  shows "implements env (\<lambda>_. True) (CBB_add_u env v n k)
    (\<lambda>fs. if n = 0 \<or> unat v < 256 ^ n then a_append k (be_bytes n (unat v)) fs else None)"
  by (rule implements_cong [OF implements_seq [OF CBB_flush_implements [of env k] on_base_add_u_implements [OF assms, of env v]]])
     (auto simp: a_append_def CBB_add_u_def split: bind_splits)

lemma CBB_add_u8_implements: "implements env (\<lambda>_. True) (CBB_add_u8 env v k) (a_append k [v])"
  by (rule implements_cong [OF CBB_add_u_implements [of 1 env "ucast v" k]])
     (simp_all add: CBB_add_u8_def SIZE_MOD_def)

lemma cbb_abs_open:
  assumes "cbb_abs c (app_last (replicate (psize kind) 0) x)" "length x = Suc k" "0 < psize kind"
    and "off = length (frames_buf x)"
  shows "cbb_abs (open_child k off (psize kind) (kind = Asn1Prefix) c) (x @ [(kind, [])])"
proof -
  have x: "x \<noteq> []" using assms(2) by auto
  obtain b root fs' where f: "app_last (replicate (psize kind) 0) x = (LenPrefix 0, root) # fs'"
    "cbb_base c = Some b" "\<not> bb_error b" "bb_buf b = root @ frames_buf fs'" "length (bb_buf b) < SIZE_MOD"
    "cbb_chain c = frames_nodes (length root) fs'" "\<forall>f \<in> set fs'. 0 < psize (fst f)"
    using assms(1) by (auto simp: cbb_abs_def)
  have k: "length fs' = k" using arg_cong [OF f(1), of length] assms(2) by simp
  obtain root0 fs0 where x0: "x = (LenPrefix 0, root0) # fs0"
    "frames_nodes (length root0) fs0 = frames_nodes (length root) fs'"
    "\<forall>f \<in> set fs0. 0 < psize (fst f)"
  proof (cases x rule: rev_cases)
    case (snoc xs y)
    obtain ky cy where y: "y = (ky, cy)" by (cases y)
    show ?thesis
    proof (cases xs)
      case Nil
      with f(1) snoc y that [of cy "[]"] show ?thesis by (simp add: app_last_def)
    next
      case (Cons z zs)
      with f(1) snoc y have "z = (LenPrefix 0, root)" "fs' = zs @ [(ky, cy @ replicate (psize kind) 0)]"
        by (auto simp: app_last_def)
      with f(7) snoc Cons y that [of root "zs @ [y]"] show ?thesis by (simp add: frames_nodes_append)
    qed
  qed (use x in simp)
  have buf: "bb_buf b = frames_buf x @ replicate (psize kind) 0"
    using f(1,4) frames_buf_app_last [OF x, of "replicate (psize kind) 0"] by simp
  show ?thesis
    unfolding cbb_abs_def
  proof (intro exI conjI)
    show "x @ [(kind, [])] = (LenPrefix 0, root0) # (fs0 @ [(kind, [])])" by (simp add: x0)
    show "cbb_base (open_child k off (psize kind) (kind = Asn1Prefix) c) = Some b"
      by (simp add: open_child_def f)
    show "bb_buf b = root0 @ frames_buf (fs0 @ [(kind, [])])" using buf x0(1) by simp
    show "cbb_chain (open_child k off (psize kind) (kind = Asn1Prefix) c) =
        frames_nodes (length root0) (fs0 @ [(kind, [])])"
      using k x0 f(6) assms(4) by (simp add: open_child_def frames_nodes_append)
  qed (use f x0 assms(3) in auto)
qed

lemma open_implements:
  assumes g: "implements env (\<lambda>fs. length fs = Suc k) g (\<lambda>fs. Some (app_last (replicate (psize kind) 0) fs))"
    and p: "0 < psize kind"
  shows "implements env (\<lambda>fs. length fs = Suc k)
     (\<lambda>c. and_then (g c) (\<lambda>c'. (True, open_child k (base_len c) (psize kind) (kind = Asn1Prefix) c')))
     (\<lambda>fs. Some (fs @ [(kind, [])]))"
proof (rule implementsI)
  fix c x c'
  assume c: "length x = Suc k" "cbb_abs c x"
    and ok: "and_then (g c) (\<lambda>c'. (True, open_child k (base_len c) (psize kind) (kind = Asn1Prefix) c')) = (True, c')"
  then obtain c1 where c1: "g c = (True, c1)" "c' = open_child k (base_len c) (psize kind) (kind = Asn1Prefix) c1"
    by (cases "g c") (auto simp: and_then_def split: if_splits)
  obtain b where b: "cbb_base c = Some b" "bb_buf b = frames_buf x" using c(2) by (rule cbb_abs_split)
  have "cbb_abs c1 (app_last (replicate (psize kind) 0) x)" "resizable c1 = resizable c"
    using implements_sound [OF g c c1(1)] by auto
  with cbb_abs_open [OF _ c(1) p] c1(2) b
  show "\<exists>x'. Some (x @ [(kind, [])]) = Some x' \<and> cbb_abs c' x' \<and> resizable c' = resizable c"
    by (simp add: base_len_def) (simp add: open_child_def resizable_def)
next
  fix c x x'
  assume c: "length x = Suc k" "cbb_abs c x" "Some (x @ [(kind, [])]) = Some x'" "resizable c"
    "\<And>m. env_realloc env m" "length (frames_buf x') < SIZE_MOD"
  have "length (frames_buf (app_last (replicate (psize kind) 0) x)) < SIZE_MOD"
    using c cbb_abs_nonempty [OF c(2)] by (auto simp: frames_buf_app_last)
  from implements_live [OF g c(1,2) refl c(4,5) this]
  show "fst (and_then (g c) (\<lambda>c'. (True, open_child k (base_len c) (psize kind) (kind = Asn1Prefix) c')))"
    by force
qed auto

lemma length_prefixed_implements:
  assumes "0 < n" "n < SIZE_MOD"
  shows "implements env (\<lambda>_. True) (cbb_add_length_prefixed env n k) (a_open k (LenPrefix n))"
proof -
  have g: "implements env (\<lambda>fs. length fs = Suc k) (on_base (buffer_append env (replicate n 0)))
      (\<lambda>fs. Some (app_last (replicate (psize (LenPrefix n)) 0) fs))"
    by (rule implements_cong [OF on_base_append_implements [of "replicate n 0" env]]) (use assms in simp_all)
  show ?thesis
    by (rule implements_cong [OF implements_seq [OF CBB_flush_implements [of env k] open_implements [OF g]]])
       (use assms in \<open>auto simp: a_open_def cbb_add_length_prefixed_def Let_def and_then_def
          split: bind_splits prod.splits bool.splits dest: a_flush_length\<close>)
qed

fun base128_digits :: "nat \<Rightarrow> nat \<Rightarrow> bytes" where
  "base128_digits w 0 = []"
| "base128_digits w (Suc i) = of_nat (128 + w div 128 ^ i mod 128) # base128_digits w i"

lemma base128_digits_snoc:
  "base128_digits w (Suc n) = base128_digits (w div 128) n @ [of_nat (128 + w mod 128)]"
proof (induction n)
  case (Suc n)
  have "base128_digits w (Suc (Suc n)) = of_nat (128 + w div 128 ^ Suc n mod 128) # base128_digits w (Suc n)"
    by (simp only: base128_digits.simps)
  also have "\<dots> = base128_digits (w div 128) (Suc n) @ [of_nat (128 + w mod 128)]"
    by (simp only: Suc) (simp add: div_mult2_eq)
  finally show ?case .
qed simp

lemma base128_len_len_0 [simp]: "base128_len_len 0 = 0"
  by (subst base128_len_len.simps) simp

lemma base128_len_len_pos: "v \<noteq> 0 \<Longrightarrow> base128_len_len v = Suc (base128_len_len (drop_bit 7 v))"
  by (subst base128_len_len.simps) (simp add: word_neq_0_conv)

lemma base128_hi_digits: "base128_hi (unat v) = base128_digits (unat v) (base128_len_len v)"
proof (induction v rule: base128_len_len.induct)
  case (1 v)
  show ?case
  proof (cases "v = 0")
    case False
    then have "unat v \<noteq> 0" by (simp add: unat_eq_zero)
    then have "base128_hi (unat v) = base128_hi (unat v div 128) @ [of_nat (128 + unat v mod 128)]"
      by (subst base128_hi.simps) simp
    moreover have "unat v div 128 = unat (drop_bit 7 v)" by (simp add: unat_drop_bit_div)
    ultimately show ?thesis
      using 1 False by (simp only: base128_len_len_pos base128_digits_snoc word_neq_0_conv)
  qed simp
qed

lemma add_base128_loop_implements:
  "implements env (\<lambda>fs. length fs = Suc k) (add_base128_loop env v n k)
     (a_append k (if n = 0 then [] else base128_digits (unat v div 128) (n - 1) @ [of_nat (unat v mod 128)]))"
proof (induction n)
  case 0
  then show ?case
    by (intro implements_cong [OF implements_skip]) (auto simp: a_append_top app_last_def)
next
  case (Suc n)
  define byte :: u8 where "byte = ucast (drop_bit (7 * n) v) AND 0x7f"
  define byte' where "byte' = (if n \<noteq> 0 then byte OR 0x80 else byte)"
  have ub: "unat byte = unat v div 128 ^ n mod 128"
    by (simp add: byte_def mask_simps word_nat power_mult mod_mod_cancel)
  have hi: "byte OR 0x80 = of_nat (128 + unat byte)"
  proof -
    have "unat byte < 2 ^ 7" by (simp add: ub)
    from push_or_ucast [OF this, of "1 :: u8"] show ?thesis by (simp add: or.commute)
  qed
  have b: "byte' # (if n = 0 then [] else base128_digits (unat v div 128) (n - 1) @ [of_nat (unat v mod 128)]) =
      base128_digits (unat v div 128) n @ [of_nat (unat v mod 128)]"
  proof (cases n)
    case 0
    then show ?thesis using ub by (simp add: byte'_def word_unat_eq_iff)
  next
    case (Suc m)
    then show ?thesis unfolding byte'_def hi by (simp add: ub div_mult2_eq)
  qed
  have step: "add_base128_loop env v (Suc n) k c = and_then (CBB_add_u8 env byte' k c) (add_base128_loop env v n k)" for c
    by (simp add: Let_def byte_def byte'_def)
  show ?case
    by (rule implements_cong [OF implements_seq [OF CBB_add_u8_implements [of env byte' k] Suc]])
       (auto simp: a_append_append b step simp del: add_base128_loop.simps dest: a_append_length)
qed

lemma add_base128_integer_implements:
  "implements env (\<lambda>fs. length fs = Suc k) (add_base128_integer env v k) (a_append k (base128 (unat v)))"
proof -
  define n where "n = (if base128_len_len v = 0 then 1 else base128_len_len v)"
  have "base128_digits (unat v div 128) (n - 1) @ [of_nat (unat v mod 128)] = base128 (unat v)"
  proof (cases "v = 0")
    case True
    then show ?thesis by (simp add: n_def base128_def)
  next
    case False
    then have "n - 1 = base128_len_len (drop_bit 7 v)" by (simp add: n_def base128_len_len_pos)
    moreover have "unat v div 128 = unat (drop_bit 7 v)" by (simp add: unat_drop_bit_div)
    ultimately show ?thesis by (simp only: base128_def base128_hi_digits)
  qed
  moreover have "n \<noteq> 0" by (simp add: n_def)
  ultimately show ?thesis
    by (intro implements_cong [OF add_base128_loop_implements [of env k v n]])
       (auto simp: add_base128_integer_def n_def Let_def)
qed

lemma tag_bits_unat: "unat (ucast (drop_bit 24 (tag :: u32)) AND 0xe0 :: u8) = unat tag div 2 ^ 29 * 32"
  and tag_bits_or: "unat w < 32 \<Longrightarrow> (ucast (drop_bit 24 tag) AND 0xe0 :: u8) OR w = of_nat (unat tag div 2 ^ 29 * 32 + unat w)"
proof -
  have e0: "(0xe0 :: u8) = push_bit 5 (mask 3)" by (simp add: mask_numeral)
  have m: "(ucast (drop_bit 24 tag) AND 0xe0 :: u8) = push_bit 5 (ucast (drop_bit 29 tag))"
    unfolding e0 by (rule bit_word_eqI) (auto simp: bit_simps)
  have d: "unat tag div 2 ^ 29 < 8" using unat_u32_less [of tag] by (simp add: div_less_iff_less_mult)
  then have c: "unat (ucast (drop_bit 29 tag) :: u8) = unat tag div 2 ^ 29"
    by (simp add: word_nat)
  with d show "unat (ucast (drop_bit 24 (tag :: u32)) AND 0xe0 :: u8) = unat tag div 2 ^ 29 * 32"
    unfolding m by (simp add: word_nat)
  assume w: "unat w < 32"
  then have "push_bit 5 (ucast (drop_bit 29 tag) :: u8) OR w = ucast (drop_bit 29 tag) * 2 ^ 5 + w"
    using push_or_ucast [of w 5 "ucast (drop_bit 29 tag) :: u8"] by (simp only: ucast_id) simp
  also have "\<dots> = of_nat (unat tag div 2 ^ 29 * 32 + unat w)"
    using c d w by (simp add: word_unat_eq_iff unat_word_ariths)
  finally show "(ucast (drop_bit 24 tag) AND 0xe0 :: u8) OR w = of_nat (unat tag div 2 ^ 29 * 32 + unat w)"
    unfolding m .
qed

lemma and_tag_number: "(tag :: u32) AND 0x1fffffff = take_bit 29 tag"
  by (simp add: take_bit_eq_mask mask_numeral)

lemma CBB_add_asn1_implements:
  "implements env (\<lambda>_. True) (CBB_add_asn1 env tag k)
     (\<lambda>fs. Option.bind (a_append k (der_tag tag) fs) (a_open k Asn1Prefix))"
proof -
  define tag_bits :: u8 where "tag_bits = ucast (drop_bit CBS_ASN1_TAG_SHIFT tag) AND 0xe0"
  define num where "num = tag AND CBS_ASN1_TAG_NUMBER_MASK"
  define wr where "wr = (\<lambda>cbb. if num \<ge> 0x1f then
       and_then (CBB_add_u8 env (tag_bits OR 0x1f) k cbb) (add_base128_integer env (ucast num) k)
     else CBB_add_u8 env (tag_bits OR ucast num) k cbb)"
  have n: "unat num = unat tag mod 2 ^ 29"
    by (simp add: num_def CBS_ASN1_TAG_NUMBER_MASK_def CBS_ASN1_TAG_SHIFT_def and_tag_number word_nat)
  have wr: "implements env (\<lambda>_. True) wr (a_append k (der_tag tag))"
  proof (cases "num \<ge> 0x1f")
    case True
    then have big: "\<not> unat tag mod 2 ^ 29 < 31" using n by (simp add: word_le_nat_alt)
    have w: "unat (ucast num :: u64) = unat tag mod 2 ^ 29" using n by (simp add: word_nat)
    have tb: "tag_bits OR 0x1f = of_nat (unat tag div 2 ^ 29 * 32 + 31)"
      using tag_bits_or [of "0x1f" tag] by (simp add: tag_bits_def CBS_ASN1_TAG_SHIFT_def)
    have dt: "der_tag tag = [tag_bits OR 0x1f] @ base128 (unat (ucast num :: u64))"
      using big unfolding w tb by (simp add: der_tag_def Let_def)
    show ?thesis
      by (rule implements_cong [OF implements_seq [OF CBB_add_u8_implements [of env "tag_bits OR 0x1f" k]
            add_base128_integer_implements [of env k "ucast num"] a_append_length]])
         (use True in \<open>simp_all only: a_append_append dt wr_def if_True\<close>)
  next
    case False
    then have small: "unat num < 31" by (simp add: word_le_nat_alt)
    then have u: "unat (ucast num :: u8) = unat num" by (simp add: word_nat)
    have "der_tag tag = [tag_bits OR ucast num]"
      using tag_bits_or [of "ucast num" tag] small u n
      by (simp add: der_tag_def Let_def tag_bits_def CBS_ASN1_TAG_SHIFT_def)
    then show ?thesis
      by (intro implements_cong [OF CBB_add_u8_implements [of env "tag_bits OR ucast num" k]])
         (use False in \<open>simp_all add: wr_def\<close>)
  qed
  have g: "implements env (\<lambda>fs. length fs = Suc k) (CBB_add_u8 env 0 k)
      (\<lambda>fs. Some (app_last (replicate (psize Asn1Prefix) 0) fs))"
    by (rule implements_cong [OF CBB_add_u8_implements [of env 0 k]]) (simp_all add: a_append_top)
  have "implements env (\<lambda>fs. length fs = Suc k)
     (\<lambda>c. and_then (CBB_add_u8 env 0 k c) (\<lambda>c'. (True, open_child k (base_len c) 1 True c')))
     (\<lambda>fs. Some (fs @ [(Asn1Prefix, [])]))"
    using open_implements [OF g] by simp
  note s1 = implements_seq [OF wr this a_append_length]
  have ab: "Option.bind (a_flush k x) (\<lambda>x. Option.bind (a_append k (der_tag tag) x) (\<lambda>fs. Some (fs @ [(Asn1Prefix, [])]))) =
      Option.bind (a_append k (der_tag tag) x) (a_open k Asn1Prefix)" for x
    unfolding Option.bind_assoc [symmetric] a_flush_append
    by (cases "a_append k (der_tag tag) x") (auto simp: a_open_def a_flush_top dest: a_append_length)
  show ?thesis
    by (rule implements_cong [OF implements_seq [OF CBB_flush_implements [of env k] s1]])
       (simp_all only: ab CBB_add_asn1_def Let_def wr_def tag_bits_def num_def)
qed

end
