(* ===== verification/Cbb_Asn1.thy ===== *)
theory Cbb_Asn1
  imports Cbb_Refine
begin

text \<open>What the element writers of \<open>cbb.c\<close> produce, and that the readers of \<open>cbs.c\<close> give it back.\<close>

subsection \<open>One element\<close>

text \<open>The element a writer appends, where its contents are short enough for a DER length.\<close>

definition der_elem :: "u32 \<Rightarrow> bytes \<Rightarrow> bytes" where
  "der_elem tag c = der_header tag (length c) @ c"

definition a_element :: "nat \<Rightarrow> u32 \<Rightarrow> bytes \<Rightarrow> frame list \<Rightarrow> frame list option" where
  "a_element k tag c fs = (if length c \<le> 0xfffffffe then a_append k (der_elem tag c) fs else None)"

lemma a_element_close:
  "Option.bind (a_append k (der_tag tag) fs) (\<lambda>x. Option.bind (a_open k Asn1Prefix x)
     (\<lambda>x. Option.bind (a_append (k + 1) c x) (a_flush k))) = a_element k tag c fs"
proof (cases "a_append k (der_tag tag) fs")
  case None
  then show ?thesis by (auto simp: a_element_def a_append_def)
next
  case (Some x)
  note l = a_append_length [OF Some]
  have o: "a_open k Asn1Prefix x = Some (x @ [(Asn1Prefix, [])])"
    using l by (simp add: a_open_def a_flush_top)
  have f: "a_flush k (x @ [(Asn1Prefix, c)]) = map_option (\<lambda>r. app_last r x) (enc_frame Asn1Prefix c)"
    using l by (simp add: a_flush_def split: option.split)
  have a: "a_append (k + 1) c (x @ [(Asn1Prefix, [])]) = Some (x @ [(Asn1Prefix, c)])"
    using l by (simp add: a_append_top)
  have "a_append k (der_len (length c) @ c) x = a_append k (der_elem tag c) fs"
    using a_append_append [of k "der_tag tag" fs "der_len (length c) @ c"]
    by (simp add: Some der_elem_def der_header_def)
  then show ?thesis using l
    by (auto simp: Some o a f a_element_def a_append_top)
qed

lemma and_then_assoc: "and_then (and_then r f) g = and_then r (\<lambda>c. and_then (f c) g)"
  by (cases r) (simp add: and_then_def)

lemma element_implements:
  assumes w: "implements env (\<lambda>fs. length fs = Suc (Suc k)) w (a_append (k + 1) c)"
  shows "implements env (\<lambda>_. True)
     (\<lambda>cbb. and_then (CBB_add_asn1 env tag k cbb) (\<lambda>cbb. and_then (w cbb) (CBB_flush env k)))
     (a_element k tag c)"
proof -
  have o: "a_open k Asn1Prefix y = Some x' \<Longrightarrow> length x' = Suc (Suc k)" for x' y
    by (auto simp: a_open_def dest: a_flush_length)
  note s = implements_seq [OF w CBB_flush_implements [of env k]]
  show ?thesis
    by (rule implements_cong [OF implements_seq [OF CBB_add_asn1_implements [of env tag k] s]])
       (simp_all only: Option.bind_assoc a_element_close and_then_assoc, auto split: bind_splits dest: o)
qed

lemma implements_top: "implements env (\<lambda>_. True) f a \<Longrightarrow> implements env P f a"
  by (rule implements_cong) auto

lemma CBB_add_asn1_octet_string_implements:
  assumes "length d < SIZE_MOD"
  shows "implements env (\<lambda>_. True) (CBB_add_asn1_octet_string env d k)
     (a_element k CBS_ASN1_OCTETSTRING d)"
  by (rule implements_cong [OF element_implements [OF implements_top [OF CBB_add_bytes_implements [OF assms]]]])
     (simp_all add: CBB_add_asn1_octet_string_def and_then_assoc)

lemma CBB_add_asn1_bool_implements:
  "implements env (\<lambda>_. True) (CBB_add_asn1_bool env v k)
     (a_element k CBS_ASN1_BOOLEAN [if v then 0xff else 0])"
  by (rule implements_cong [OF element_implements [OF implements_top [OF CBB_add_u8_implements]]])
     (simp_all add: CBB_add_asn1_bool_def and_then_assoc)

subsection \<open>Integers\<close>

text \<open>The contents of the shortest INTEGER of an unsigned and of a signed number.\<close>

definition uint_contents :: "nat \<Rightarrow> bytes" where
  "uint_contents v = (let bs = dropWhile (\<lambda>b. b = 0) (be_bytes 8 v)
     in if bs = [] then [0] else if 128 \<le> unat (hd bs) then 0 # bs else bs)"

lemma implements_bind_cong:
  assumes "implements env P f a" "\<And>c. f c = f' c"
  shows "implements env P f' a"
  using implements_cong [OF assms(1)] assms(2) by blast

text \<open>The bytes that are left of the loop, with the flag.\<close>

definition uint_loop_bytes :: "bool \<Rightarrow> bytes \<Rightarrow> bytes" where
  "uint_loop_bytes started bs = (if started then bs else
     let bs = dropWhile (\<lambda>b. b = 0) bs in if bs \<noteq> [] \<and> 128 \<le> unat (hd bs) then 0 # bs else bs)"

lemma be_bytes_Cons: "be_bytes (Suc n) v = of_nat (v div 256 ^ n mod 256) # be_bytes n v"
proof (induction n arbitrary: v)
  case (Suc n)
  have "be_bytes (Suc (Suc n)) v = be_bytes (Suc n) (v div 256) @ [of_nat (v mod 256)]" by (rule be_bytes.simps)
  also have "\<dots> = of_nat (v div 256 ^ Suc n mod 256) # be_bytes (Suc n) v"
    by (subst Suc) (simp add: div_mult2_eq)
  finally show ?case .
qed simp

lemma and_ff_u8: "(b :: u8) AND 0xff = b"
proof -
  have "take_bit 8 b = b" by (simp add: take_bit_word_eq_self)
  then show ?thesis by (simp add: take_bit_eq_mask mask_numeral)
qed

lemma uint64_byte: "(ucast (drop_bit (8 * n) (v :: u64)) AND 0xff :: u8) = of_nat (unat v div 256 ^ n mod 256)"
  by (simp add: word_unat_eq_iff and_ff_u8 word_nat power_mult)

lemma append_top_implements:
  "implements env (\<lambda>fs. length fs = Suc k) (\<lambda>c. if b then CBB_add_u8 env v k c else (True, c))
     (a_append k (if b then [v] else []))"
proof (cases b)
  case False
  then show ?thesis
    by (intro implements_cong [OF implements_skip]) (auto simp: a_append_top)
qed (simp add: implements_top [OF CBB_add_u8_implements])

lemma asn1_uint64_bytes_implements:
  "implements env (\<lambda>fs. length fs = Suc k)
     (\<lambda>c. case asn1_uint64_bytes env v n started k c of (ok, _, c') \<Rightarrow> (ok, c'))
     (a_append k (uint_loop_bytes started (be_bytes n (unat v))))"
proof (induction n arbitrary: started)
  case 0
  have "uint_loop_bytes started (be_bytes 0 (unat v)) = []" by (simp add: uint_loop_bytes_def)
  then show ?case by (intro implements_cong [OF implements_skip]) (auto simp: a_append_top)
next
  case (Suc n)
  define byte :: u8 where "byte = ucast (drop_bit (8 * n) v) AND 0xff"
  have "byte = of_nat (unat v div 256 ^ n mod 256)" by (simp only: byte_def uint64_byte)
  then have bs: "be_bytes (Suc n) (unat v) = byte # be_bytes n (unat v)" by (simp only: be_bytes_Cons)
  show ?case
  proof (cases "\<not> started \<and> byte = 0")
    case True
    then have u: "uint_loop_bytes started (be_bytes (Suc n) (unat v)) = uint_loop_bytes False (be_bytes n (unat v))"
      by (simp only: bs) (simp add: uint_loop_bytes_def)
    show ?thesis unfolding u
      by (rule implements_cong [OF Suc [of False]]) (use True in \<open>simp_all add: byte_def\<close>)
  next
    case False
    define pre where "pre = (\<not> started \<and> byte AND 0x80 \<noteq> 0)"
    have u: "uint_loop_bytes started (be_bytes (Suc n) (unat v)) =
        (if pre then [0] else []) @ [byte] @ uint_loop_bytes True (be_bytes n (unat v))"
      using False by (simp only: bs) (auto simp: uint_loop_bytes_def pre_def and_80_u8)
    note s = implements_seq [OF implements_seq [OF append_top_implements [of env k pre 0]
        CBB_add_u8_implements [of env byte k]] Suc [of True]]
    have step: "and_then (and_then (if pre then CBB_add_u8 env 0 k c else (True, c)) (CBB_add_u8 env byte k))
          (\<lambda>c. case asn1_uint64_bytes env v n True k c of (ok, _, c') \<Rightarrow> (ok, c')) =
        (case asn1_uint64_bytes env v (Suc n) started k c of (ok, _, c') \<Rightarrow> (ok, c'))" for c
      using False by (auto simp: Let_def byte_def [symmetric] pre_def and_then_def split: prod.splits bool.splits)
    show ?thesis unfolding u
      by (rule implements_cong [OF s])
         (simp_all only: step a_append_append append_assoc, auto dest: a_append_length)
  qed
qed


lemma uint_loop_contents: "uint_contents v = (let bs = uint_loop_bytes False (be_bytes 8 v) in if bs = [] then [0] else bs)"
  by (simp add: uint_contents_def uint_loop_bytes_def Let_def)

lemma asn1_uint64_started:
  "asn1_uint64_bytes env v n started k c = (True, started', c') \<Longrightarrow>
     started' = (started \<or> uint_loop_bytes False (be_bytes n (unat v)) \<noteq> [])"
proof (induction n arbitrary: started c)
  case 0
  then show ?case by (simp add: uint_loop_bytes_def)
next
  case (Suc n)
  let ?byte = "ucast (drop_bit (8 * n) v) AND 0xff :: u8"
  have bs: "be_bytes (Suc n) (unat v) = ?byte # be_bytes n (unat v)"
    by (simp only: be_bytes_Cons uint64_byte)
  show ?case
  proof (cases "?byte = 0")
    case True
    then have "uint_loop_bytes False (be_bytes (Suc n) (unat v)) = uint_loop_bytes False (be_bytes n (unat v))"
      by (simp only: bs) (simp add: uint_loop_bytes_def)
    with Suc True show ?thesis by (auto simp: Let_def split: if_splits prod.splits bool.splits)
  next
    case False
    then have "uint_loop_bytes False (be_bytes (Suc n) (unat v)) \<noteq> []"
      by (simp only: bs) (simp add: uint_loop_bytes_def Let_def)
    with Suc False show ?thesis by (auto simp: Let_def split: if_splits prod.splits bool.splits)
  qed
qed

lemma CBB_add_asn1_uint64_implements:
  "implements env (\<lambda>_. True) (CBB_add_asn1_uint64 env v k)
     (a_element k CBS_ASN1_INTEGER (uint_contents (unat v)))"
proof -
  define bs where "bs = uint_loop_bytes False (be_bytes 8 (unat v))"
  define w where "w = (\<lambda>c. and_then (case asn1_uint64_bytes env v 8 False (k + 1) c of (ok, _, c') \<Rightarrow> (ok, c'))
      (\<lambda>c. if bs = [] then CBB_add_u8 env 0 (k + 1) c else (True, c)))"
  have "implements env (\<lambda>fs. length fs = Suc (k + 1)) w
      (\<lambda>fs. Option.bind (a_append (k + 1) bs fs) (a_append (k + 1) (if bs = [] then [0] else [])))"
    unfolding w_def bs_def
    by (rule implements_seq [OF asn1_uint64_bytes_implements append_top_implements a_append_length])
  then have "implements env (\<lambda>fs. length fs = Suc (Suc k)) w (a_append (k + 1) (uint_contents (unat v)))"
    unfolding a_append_append by (simp add: uint_loop_contents bs_def [symmetric] Let_def if_distrib cong: if_cong)
  note e = element_implements [OF this, of CBS_ASN1_INTEGER]
  show ?thesis
    by (rule implements_cong [OF e])
       (auto simp: CBB_add_asn1_uint64_def w_def and_then_assoc bs_def and_then_def
          split: prod.splits bool.splits dest: asn1_uint64_started)
qed


lemma int64_byte_nat: "int64_byte v i = of_nat (unat v div 256 ^ i mod 256)"
  using uint64_byte [of i v] by (simp add: int64_byte_def and_ff_u8)

lemma add_int64_bytes_implements:
  "implements env (\<lambda>fs. length fs = Suc k) (add_int64_bytes env v n k) (a_append k (be_bytes n (unat v)))"
proof (induction n)
  case 0
  then show ?case by (intro implements_cong [OF implements_skip]) (auto simp: a_append_top)
next
  case (Suc n)
  have bs: "be_bytes (Suc n) (unat v) = [int64_byte v n] @ be_bytes n (unat v)"
    by (simp only: be_bytes_Cons int64_byte_nat append_Cons append_Nil)
  show ?case unfolding bs
    by (rule implements_cong [OF implements_seq [OF CBB_add_u8_implements [of env "int64_byte v n" k] Suc]])
       (simp_all only: a_append_append add_int64_bytes.simps, auto dest: a_append_length)
qed

definition int_contents :: "u64 \<Rightarrow> bytes" where
  "int_contents v = (if sint v \<ge> 0 then uint_contents (unat v) else be_bytes (int64_start v 7 + 1) (unat v))"

lemma CBB_add_asn1_int64_implements:
  "implements env (\<lambda>_. True) (CBB_add_asn1_int64 env v k) (a_element k CBS_ASN1_INTEGER (int_contents v))"
proof (cases "sint v \<ge> 0")
  case True
  then show ?thesis
    by (intro implements_cong [OF CBB_add_asn1_uint64_implements]) (auto simp: CBB_add_asn1_int64_def int_contents_def)
next
  case False
  have "implements env (\<lambda>fs. length fs = Suc (Suc k)) (add_int64_bytes env v (int64_start v 7 + 1) (k + 1))
      (a_append (k + 1) (int_contents v))"
    using add_int64_bytes_implements [of env "k + 1" v "int64_start v 7 + 1"] False by (simp add: int_contents_def)
  from element_implements [OF this] show ?thesis
    by (rule implements_cong) (use False in \<open>simp_all add: CBB_add_asn1_int64_def and_then_assoc\<close>)
qed

subsection \<open>What the contents denote\<close>

lemma be_nat_dropWhile_0: "be_nat (dropWhile (\<lambda>b. b = 0) bs) = be_nat bs"
  by (induction bs) auto

lemma be_nat_uint_contents:
  assumes "v < 2 ^ 64"
  shows "be_nat (uint_contents v) = v"
proof -
  let ?bs = "dropWhile (\<lambda>b. b = 0) (be_bytes 8 v)"
  have "be_nat ?bs = v" using assms by (simp add: be_nat_dropWhile_0 be_nat_be_bytes)
  moreover from this have "?bs = [] \<Longrightarrow> v = 0" by (metis be_nat.simps(1))
  ultimately show ?thesis unfolding uint_contents_def Let_def by (simp split del: if_split add: if_distrib) auto
qed

lemma valid_integer_Cons:
  "CBS_is_valid_asn1_integer (b # bs) =
     (if bs \<noteq> [] \<and> (b = 0 \<and> unat (hd bs) < 128 \<or> b = 0xff \<and> 128 \<le> unat (hd bs)) then None
      else Some (128 \<le> unat b))"
  by (cases bs) (auto simp: CBS_is_valid_asn1_integer_def and_80_u8 Let_def)

lemma unsigned_Cons: "CBS_is_unsigned_asn1_integer (b # bs) \<longleftrightarrow>
    unat b < 128 \<and> \<not> (b = 0 \<and> bs \<noteq> [] \<and> unat (hd bs) < 128)"
  by (cases bs) (auto simp: CBS_is_unsigned_asn1_integer_def valid_integer_Cons)

lemma uint_contents_unsigned: "CBS_is_unsigned_asn1_integer (uint_contents v)"
proof -
  let ?bs = "dropWhile (\<lambda>b. b = 0) (be_bytes 8 v)"
  show ?thesis
  proof (cases ?bs)
    case (Cons b bs)
    then have "b \<noteq> 0" using hd_dropWhile [of "\<lambda>b. b = 0" "be_bytes 8 v"] by auto
    then show ?thesis by (simp only: uint_contents_def Cons) (auto simp: Let_def unsigned_Cons)
  next
    case Nil
    then show ?thesis by (simp only: uint_contents_def) (simp add: Let_def unsigned_Cons)
  qed
qed

lemma length_uint_contents: "length (uint_contents v) \<le> 9"
  using length_dropWhile_le [of "\<lambda>b. b = 0" "be_bytes 8 v"] unfolding uint_contents_def Let_def by simp

lemma length_uint_contents_63:
  assumes "v < 2 ^ 63"
  shows "length (uint_contents v) \<le> 8"
proof -
  have be: "be_bytes 8 v = of_nat (v div 256 ^ 7 mod 256) # be_bytes 7 v"
    using be_bytes_Cons [of 7 v] by simp
  have top: "unat (of_nat (v div 256 ^ 7 mod 256) :: u8) < 128" using assms by simp
  show ?thesis
  proof (cases "of_nat (v div 256 ^ 7 mod 256) = (0 :: u8)")
    case True
    then show ?thesis using length_dropWhile_le [of "\<lambda>b. b = 0" "be_bytes 7 v"]
      unfolding uint_contents_def be by (simp add: Let_def)
  next
    case False
    then show ?thesis using top unfolding uint_contents_def be by simp
  qed
qed

lemma uint_contents_roundtrip:
  "CBS_get_asn1_uint64 (der_elem CBS_ASN1_INTEGER (uint_contents (unat v)) @ rest) = (Some v, rest)"
  unfolding CBS_get_asn1_uint64_iff
  by (rule exI [of _ "uint_contents (unat v)"])
     (use length_uint_contents [of "unat v"] in
        \<open>simp add: der_elem_def uint_contents_unsigned be_nat_uint_contents\<close>)


lemma CBS_get_asn1_int64_complete:
  assumes "CBS_is_valid_asn1_integer c = Some neg" "length c \<le> 8"
    and "unat v = be_nat (replicate (8 - length c) (if neg then 0xff else 0) @ c)"
  shows "CBS_get_asn1_int64 (der_elem CBS_ASN1_INTEGER c @ rest) = (Some v, rest)"
  unfolding CBS_get_asn1_int64_iff
  by (intro exI [of _ c] exI [of _ neg] conjI assms) (simp add: der_elem_def)

lemma int64_start_prefix:
  "int64_start v n \<le> n \<and>
   replicate (n - int64_start v n) 0xff @ be_bytes (Suc (int64_start v n)) (unat v) = be_bytes (Suc n) (unat v)"
proof (induction n)
  case (Suc n)
  show ?case
  proof (cases "int64_byte v (Suc n) = 0xff \<and> int64_byte v n AND 0x80 \<noteq> 0")
    case True
    have "be_bytes (Suc (Suc n)) (unat v) = 0xff # be_bytes (Suc n) (unat v)"
      using True int64_byte_nat [of v "Suc n"] by (simp only: be_bytes_Cons [of "Suc n"])
    moreover have "int64_start v (Suc n) = int64_start v n" using True by simp
    moreover have "replicate (Suc n - int64_start v n) (0xff :: u8) = 0xff # replicate (n - int64_start v n) 0xff"
      using Suc by (simp add: Suc_diff_le)
    ultimately show ?thesis using Suc by (simp only: append_Cons le_SucI)
  qed auto
qed simp

lemma int64_start_high: "128 \<le> unat (int64_byte v n) \<Longrightarrow> 128 \<le> unat (int64_byte v (int64_start v n))"
  by (induction n) (auto simp: and_80_u8)

lemma int64_start_minimal:
  "int64_start v n = Suc m \<Longrightarrow> \<not> (int64_byte v (Suc m) = 0xff \<and> 128 \<le> unat (int64_byte v m))"
  by (induction n) (auto simp: and_80_u8 split: if_splits)

lemma int_contents_roundtrip:
  "CBS_get_asn1_int64 (der_elem CBS_ASN1_INTEGER (int_contents v) @ rest) = (Some v, rest)"
proof (cases "sint v \<ge> 0")
  case True
  then have v: "unat v < 2 ^ 63" using sint_u64 [of v] uint_lt2p [of v] by (auto split: if_splits)
  have "length (uint_contents (unat v)) \<le> 8"
    using v by (rule length_uint_contents_63)
  then show ?thesis using True uint_contents_unsigned [of "unat v"]
    by (intro CBS_get_asn1_int64_complete [of _ False])
       (simp_all add: int_contents_def CBS_is_unsigned_asn1_integer_def be_nat_uint_contents)
next
  case False
  then have "2 ^ 63 \<le> unat v" using sint_u64 [of v] by (auto split: if_splits)
  then have "unat v div 256 ^ 7 \<ge> 128" by simp
  moreover have "unat v div 256 ^ 7 < 256" using unat_u64_less [of v] by (simp add: div_less_iff_less_mult)
  ultimately have high: "128 \<le> unat (int64_byte v 7)" by (simp add: int64_byte_nat)
  define m where "m = int64_start v 7"
  have c: "int_contents v = int64_byte v m # be_bytes m (unat v)"
    using False by (simp add: int_contents_def m_def be_bytes_Cons int64_byte_nat del: be_bytes.simps)
  have m: "m \<le> 7" "replicate (7 - m) 0xff @ int_contents v = be_bytes 8 (unat v)"
    using int64_start_prefix [of v 7] False unfolding m_def int_contents_def by simp_all
  have "CBS_is_valid_asn1_integer (int_contents v) = Some True"
  proof (cases m)
    case 0
    then show ?thesis using int64_start_high [OF high] by (simp add: c valid_integer_Cons m_def)
  next
    case (Suc l)
    have "hd (be_bytes m (unat v)) = int64_byte v l"
      unfolding Suc be_bytes_Cons by (simp add: int64_byte_nat)
    with Suc int64_start_high [OF high] int64_start_minimal [of v 7 l] show ?thesis
      by (auto simp: c valid_integer_Cons m_def)
  qed
  then show ?thesis
    by (rule CBS_get_asn1_int64_complete) (use m in \<open>simp_all add: c be_nat_be_bytes\<close>)
qed

subsection \<open>From the first write to the result\<close>

lemma CBB_init_abs:
  assumes "CBB_init env n = (True, c)"
  shows "cbb_abs c [(LenPrefix 0, [])]" "resizable c"
  using assms by (auto simp: CBB_init_def cbb_init_def CBB_zero_def cbb_abs_def resizable_def SIZE_MOD_def split: if_splits)

lemma CBB_finish_abs:
  assumes "cbb_abs c [(LenPrefix 0, out)]"
  shows "fst (CBB_finish env True 0 c) = Some out"
proof -
  have "CBB_flush env 0 c = (True, c)" "\<exists>b. cbb_base c = Some b \<and> bb_buf b = out"
    using assms by (auto simp: cbb_abs_def CBB_flush_def)
  then show ?thesis by (auto simp: CBB_finish_def)
qed

lemma CBB_finish_sound:
  assumes "cbb_abs c fs" "CBB_finish env h 0 c = (Some out, c')"
  shows "a_flush 0 fs = Some [(LenPrefix 0, out)]"
proof -
  obtain c1 b where c1: "CBB_flush env 0 c = (True, c1)" "cbb_base c1 = Some b" "out = bb_buf b"
    using assms(2) by (auto simp: CBB_finish_def split: prod.splits bool.splits option.splits if_splits)
  from implements_sound [OF CBB_flush_implements TrueI assms(1) c1(1)] obtain x' where
    x': "a_flush 0 fs = Some x'" "cbb_abs c1 x'" .
  have "length x' = 1" using a_flush_length [OF x'(1)] by simp
  with x' c1 show ?thesis by (auto simp: cbb_abs_def)
qed


text \<open>
  The life of a builder: initialise, write, finish. The result is \<open>None\<close> where any of the calls
  returns 0.
\<close>

definition build :: "mem_env \<Rightarrow> nat \<Rightarrow> (cbb \<Rightarrow> bool \<times> cbb) \<Rightarrow> bytes option" where
  "build env cap write = (case CBB_init env cap of (False, _) \<Rightarrow> None | (True, cbb) \<Rightarrow>
     (case write cbb of (False, _) \<Rightarrow> None | (True, cbb) \<Rightarrow> fst (CBB_finish env True 0 cbb)))"

definition alloc_ok :: "mem_env \<Rightarrow> bool" where
  "alloc_ok env \<longleftrightarrow> env_malloc env = (\<lambda>_. True) \<and> env_realloc env = (\<lambda>_. True)"

lemma build_sound:
  assumes w: "implements env (\<lambda>_. True) write a" and b: "build env cap write = Some out"
  shows "Option.bind (a [(LenPrefix 0, [])]) (a_flush 0) = Some [(LenPrefix 0, out)]"
proof -
  obtain c c' where c: "CBB_init env cap = (True, c)" "write c = (True, c')" "fst (CBB_finish env True 0 c') = Some out"
    using b by (auto simp: build_def split: prod.splits bool.splits)
  then obtain c'' where f: "CBB_finish env True 0 c' = (Some out, c'')" by (cases "CBB_finish env True 0 c'") auto
  obtain x' where "a [(LenPrefix 0, [])] = Some x'" "cbb_abs c' x'"
    using implements_sound [OF w TrueI CBB_init_abs(1) [OF c(1)] c(2)] by blast
  with CBB_finish_sound [OF this(2) f] show ?thesis by simp
qed

lemma build_live:
  assumes w: "implements env (\<lambda>_. True) write a" and env: "alloc_ok env"
    and a: "a [(LenPrefix 0, [])] = Some x" "a_flush 0 x = Some [(LenPrefix 0, out)]" "length out < SIZE_MOD"
  shows "build env cap write = Some out"
proof -
  have al: "env_malloc env n" "env_realloc env n" for n using env by (simp_all add: alloc_ok_def)
  obtain c where c: "CBB_init env cap = (True, c)" by (simp add: CBB_init_def cbb_init_def al)
  note i = CBB_init_abs [OF c]
  have "x \<noteq> []" using implements_grows(1) [OF w TrueI _ a(1)] by simp
  then have "length (frames_buf x) \<le> length (frames_buf [(LenPrefix 0, out)])"
    using implements_grows(2) [OF CBB_flush_implements TrueI _ a(2)] by blast
  then have "length (frames_buf x) < SIZE_MOD" using a(3) by simp
  then obtain c1 where c1: "write c = (True, c1)" "cbb_abs c1 x" "resizable c1"
    using implements_live [OF w TrueI i(1) a(1) i(2) al(2)] by blast
  obtain c2 where c2: "CBB_flush env 0 c1 = (True, c2)" "cbb_abs c2 [(LenPrefix 0, out)]"
    using implements_live [OF CBB_flush_implements TrueI c1(2) a(2) c1(3) al(2)] a(3) by auto
  have "\<exists>b. cbb_base c2 = Some b \<and> bb_buf b = out" using c2(2) by (auto simp: cbb_abs_def)
  with c2(1) have "fst (CBB_finish env True 0 c1) = Some out" by (auto simp: CBB_finish_def)
  with c c1(1) show ?thesis by (simp add: build_def)
qed

lemma build_append:
  assumes w: "implements env (\<lambda>_. True) write (a_append 0 bs)"
  shows "build env cap write = Some out \<Longrightarrow> out = bs"
    and "alloc_ok env \<Longrightarrow> length bs < SIZE_MOD \<Longrightarrow> build env cap write = Some bs"
proof -
  have a: "a_append 0 bs [(LenPrefix 0, [])] = Some [(LenPrefix 0, bs)]" "a_flush 0 [(LenPrefix 0, bs)] = Some [(LenPrefix 0, bs)]"
    by (simp_all add: a_append_top a_flush_top app_last_def)
  show "build env cap write = Some out \<Longrightarrow> out = bs" using build_sound [OF w] a by fastforce
  show "alloc_ok env \<Longrightarrow> length bs < SIZE_MOD \<Longrightarrow> build env cap write = Some bs" using build_live [OF w _ a] .
qed

lemma length_der_header: "length (der_header tag n) \<le> 11"
  using length_der_tag [of tag] len_bytes_range(2) [of n] by (simp add: der_header_def der_len_def del: len_bytes_range)

lemma build_element:
  assumes w: "implements env (\<lambda>_. True) write (a_element 0 tag c)"
  shows "build env cap write = Some out \<Longrightarrow> out = der_elem tag c"
    and "alloc_ok env \<Longrightarrow> length c \<le> 0xfffffffe \<Longrightarrow> build env cap write = Some (der_elem tag c)"
proof -
  show "out = der_elem tag c" if b: "build env cap write = Some out"
  proof -
    have l: "length c \<le> 0xfffffffe" using build_sound [OF w b] by (auto simp: a_element_def split: if_splits)
    then have "a_element 0 tag c = a_append 0 (der_elem tag c)" by (auto simp: a_element_def)
    with build_append(1) w b show ?thesis by metis
  qed
  assume e: "alloc_ok env" and l: "length c \<le> 0xfffffffe"
  then have "a_element 0 tag c = a_append 0 (der_elem tag c)" by (auto simp: a_element_def)
  moreover have "length (der_elem tag c) < SIZE_MOD"
    using l length_der_header [of tag "length c"] by (simp add: der_elem_def SIZE_MOD_def)
  ultimately show "build env cap write = Some (der_elem tag c)" using build_append(2) w e by metis
qed

end
