(* ===== verification/Codec.thy ===== *)
theory Codec
  imports C_Prelude
begin

text \<open>
  The contract between a writer and the reader of the same format. The writer appends \<open>enc v\<close> for
  a value that satisfies \<open>ok\<close>; the reader takes a value from the front of its input and leaves the
  rest.
\<close>

locale codec =
  fixes ok :: "'v \<Rightarrow> bool" and enc :: "'v \<Rightarrow> bytes" and dec :: "(bytes, 'v) cfun"
  assumes dec_enc: "ok v \<Longrightarrow> dec (enc v @ rest) = (Some v, rest)"
begin

lemma dec_enc_only: "ok v \<Longrightarrow> dec (enc v) = (Some v, [])"
  using dec_enc [of v "[]"] by simp

text \<open>Two written values that are followed by anything are the same if the bytes are.\<close>

lemma enc_append_eq: "ok v \<Longrightarrow> ok w \<Longrightarrow> enc v @ r = enc w @ s \<longleftrightarrow> v = w \<and> r = s"
  using dec_enc [of v r] dec_enc [of w s] by (metis option.inject prod.inject)

lemma enc_inj: "ok v \<Longrightarrow> ok w \<Longrightarrow> enc v = enc w \<Longrightarrow> v = w"
  using enc_append_eq [of v w "[]" "[]"] by simp

lemma enc_prefix_free: "ok v \<Longrightarrow> ok w \<Longrightarrow> enc w = enc v @ s \<Longrightarrow> s = []"
  using enc_append_eq [of w v "[]" s] by simp

lemma concat_inj:
  "list_all ok vs \<Longrightarrow> list_all ok ws \<Longrightarrow> length vs = length ws \<Longrightarrow>
   concat (map enc vs) = concat (map enc ws) \<Longrightarrow> vs = ws"
proof (induction vs arbitrary: ws)
  case (Cons v vs)
  then obtain w ws' where w: "ws = w # ws'" by (cases ws) auto
  have "enc v @ concat (map enc vs) = enc w @ concat (map enc ws')" "ok v" "ok w"
    using Cons(2,3,5) w by simp_all
  then have "v = w" "concat (map enc vs) = concat (map enc ws')" using enc_append_eq by blast+
  with Cons w show ?case by simp
qed simp

end

text \<open>A reader that accepts nothing but what the writer writes: the encoding is canonical.\<close>

locale canonical_codec = codec +
  assumes dec_sound: "dec bs = (Some v, rest) \<Longrightarrow> ok v \<and> bs = enc v @ rest"
begin

lemma dec_iff: "dec bs = (Some v, rest) \<longleftrightarrow> ok v \<and> bs = enc v @ rest"
  using dec_sound dec_enc by blast

lemma dec_consumes: "dec bs = (Some v, rest) \<Longrightarrow> length bs = length (enc v) + length rest"
  using dec_sound [of bs v rest] by simp

end

text \<open>
  A reader that also consumes something at every value, so that a loop over its whole input ends.
  The loops of the clients all have the shape of the premise of \<open>loop_iff\<close>.
\<close>

locale progress_codec = canonical_codec +
  assumes enc_nonempty: "ok v \<Longrightarrow> enc v \<noteq> []"
begin

lemma dec_shorter: "dec bs = (Some v, rest) \<Longrightarrow> length rest < length bs"
  using dec_sound [of bs v rest] enc_nonempty [of v] by auto

lemma loop_iff:
  assumes f: "\<And>bs. f bs = (if bs = [] then Some [] else case dec bs of
     (None, _) \<Rightarrow> None | (Some v, bs') \<Rightarrow> map_option ((#) v) (f bs'))"
  shows "f bs = Some vs \<longleftrightarrow> list_all ok vs \<and> bs = concat (map enc vs)"
proof (induction vs arbitrary: bs)
  case Nil
  show ?case by (subst f) (auto split: prod.splits option.splits)
next
  case (Cons v vs)
  show ?case
  proof
    assume "f bs = Some (v # vs)"
    then obtain bs' where "dec bs = (Some v, bs')" "f bs' = Some vs"
      by (subst (asm) f) (auto split: prod.splits option.splits if_splits)
    with Cons show "list_all ok (v # vs) \<and> bs = concat (map enc (v # vs))" by (simp add: dec_iff)
  next
    assume r: "list_all ok (v # vs) \<and> bs = concat (map enc (v # vs))"
    then have "dec bs = (Some v, concat (map enc vs))" "bs \<noteq> []" by (simp_all add: dec_enc enc_nonempty)
    with Cons r show "f bs = Some (v # vs)" by (subst f) simp
  qed
qed

end

end
