(* ===== verification/Der_Codec.thy ===== *)
theory Der_Codec
  imports Cbb_Asn1 Codec
begin

text \<open>
  The readers of \<open>cbs.c\<close> and the writers of \<open>cbb.c\<close> as codecs. Every one of them is canonical: the
  reader accepts exactly the bytes that the writer produces for a value.
\<close>

subsection \<open>Integers of fixed width and length prefixes\<close>

lemma be_bytes_eq_iff: "length bs = n \<Longrightarrow> v < 256 ^ n \<Longrightarrow> be_bytes n v = bs \<longleftrightarrow> be_nat bs = v"
  using be_bytes_be_nat [of bs] be_nat_be_bytes [of n v] by auto

lemma cbs_get_u_be_bytes:
  assumes "n \<le> 8"
  shows "cbs_get_u n bs = (Some v, rest) \<longleftrightarrow> unat v < 256 ^ n \<and> bs = be_bytes n (unat v) @ rest"
proof
  assume "cbs_get_u n bs = (Some v, rest)"
  then have g: "n \<le> length bs" "unat v = be_nat (take n bs)" "rest = drop n bs"
    using assms by (simp_all add: cbs_get_u_iff)
  have "be_bytes n (unat v) = take n bs" using be_bytes_be_nat [of "take n bs"] g by simp
  moreover have "unat v < 256 ^ n" using be_nat_bound [of "take n bs"] g by simp
  ultimately show "unat v < 256 ^ n \<and> bs = be_bytes n (unat v) @ rest" using g by simp
next
  assume "unat v < 256 ^ n \<and> bs = be_bytes n (unat v) @ rest"
  then show "cbs_get_u n bs = (Some v, rest)" using assms by (simp add: cbs_get_u_iff be_nat_be_bytes)
qed

lemma narrow_iff:
  assumes "256 ^ n \<le> (2 :: nat) ^ LENGTH('a::len)" "n \<le> 8"
  shows "(case cbs_get_u n bs of (None, r) \<Rightarrow> (None, r) | (Some v, r) \<Rightarrow> (Some (ucast v :: 'a word), r)) = (Some w, rest) \<longleftrightarrow>
    unat w < 256 ^ n \<and> bs = be_bytes n (unat w) @ rest"
proof -
  have "256 ^ n \<le> (256 :: nat) ^ 8" using assms(2) by (intro power_increasing) simp_all
  then have w: "unat (ucast w :: u64) = unat w" if "unat w < 256 ^ n"
    using that by (simp add: unat_ucast_mod)
  have v: "unat (ucast v :: 'a word) = unat v" if "unat v < 256 ^ n" for v :: u64
    using that assms(1) by (simp add: unat_ucast_mod)
  show ?thesis
  proof
    assume "(case cbs_get_u n bs of (None, r) \<Rightarrow> (None, r) | (Some v, r) \<Rightarrow> (Some (ucast v :: 'a word), r)) = (Some w, rest)"
    then obtain v where "cbs_get_u n bs = (Some v, rest)" "w = ucast v"
      by (auto split: prod.splits option.splits)
    then show "unat w < 256 ^ n \<and> bs = be_bytes n (unat w) @ rest"
      using assms(2) v by (auto simp: cbs_get_u_be_bytes)
  next
    assume r: "unat w < 256 ^ n \<and> bs = be_bytes n (unat w) @ rest"
    then have "cbs_get_u n bs = (Some (ucast w), rest)" using assms(2) w by (simp add: cbs_get_u_be_bytes)
    moreover have "ucast (ucast w :: u64) = w" using v [of "ucast w"] w r by (simp add: word_unat_eq_iff)
    ultimately show "(case cbs_get_u n bs of (None, r) \<Rightarrow> (None, r) | (Some v, r) \<Rightarrow> (Some (ucast v :: 'a word), r)) = (Some w, rest)"
      by simp
  qed
qed

lemma get_u8_iff: "CBS_get_u8 bs = (Some b, rest) \<longleftrightarrow> bs = b # rest"
  by (cases bs) (auto simp: CBS_get_u8_def cbs_get_def CBS_len_def)

interpretation u8: progress_codec "\<lambda>_. True" "\<lambda>b. [b]" CBS_get_u8
  by unfold_locales (simp_all add: get_u8_iff)

interpretation u16: progress_codec "\<lambda>_. True" "\<lambda>v. be_bytes 2 (unat v)" CBS_get_u16
  by unfold_locales (use narrow_iff [where 'a = 16 and n = 2] in \<open>simp_all add: CBS_get_u16_def\<close>)

interpretation u24: progress_codec "\<lambda>v. unat v < 2 ^ 24" "\<lambda>v. be_bytes 3 (unat v)" CBS_get_u24
  by unfold_locales (use narrow_iff [where 'a = 32 and n = 3] in \<open>simp_all add: CBS_get_u24_def\<close>)

interpretation u32: progress_codec "\<lambda>_. True" "\<lambda>v. be_bytes 4 (unat v)" CBS_get_u32
  by unfold_locales (use narrow_iff [where 'a = 32 and n = 4] in \<open>simp_all add: CBS_get_u32_def\<close>)

interpretation u64: progress_codec "\<lambda>_. True" "\<lambda>v. be_bytes 8 (unat v)" CBS_get_u64
  by unfold_locales (simp_all add: CBS_get_u64_def cbs_get_u_be_bytes)

lemma length_prefixed_iff:
  assumes "n \<le> 8"
  shows "cbs_get_length_prefixed n bs = (Some c, rest) \<longleftrightarrow>
    length c < 256 ^ n \<and> length c < 2 ^ 64 \<and> bs = be_bytes n (length c) @ c @ rest"
proof
  assume "cbs_get_length_prefixed n bs = (Some c, rest)"
  then obtain len r where "cbs_get_u n bs = (Some len, r)" "CBS_get_bytes (unat len) r = (Some c, rest)"
    by (auto simp: cbs_get_length_prefixed_def split: prod.splits option.splits)
  then have "unat len < 256 ^ n" "bs = be_bytes n (unat len) @ r" "length c = unat len" "r = c @ rest"
    using assms by (auto simp: cbs_get_u_be_bytes CBS_get_bytes_def cbs_get_def CBS_init_def CBS_len_def split: if_splits)
  then show "length c < 256 ^ n \<and> length c < 2 ^ 64 \<and> bs = be_bytes n (length c) @ c @ rest" by simp
next
  assume r: "length c < 256 ^ n \<and> length c < 2 ^ 64 \<and> bs = be_bytes n (length c) @ c @ rest"
  then have u: "unat (of_nat (length c) :: u64) = length c" by (simp add: unat_of_nat)
  have "cbs_get_u n bs = (Some (of_nat (length c)), c @ rest)"
    unfolding cbs_get_u_be_bytes [OF assms] u using r by simp
  then show "cbs_get_length_prefixed n bs = (Some c, rest)"
    by (simp add: cbs_get_length_prefixed_def u CBS_get_bytes_def cbs_get_def CBS_init_def CBS_len_def)
qed

interpretation u8_prefixed: progress_codec "\<lambda>c. length c < 2 ^ 8" "\<lambda>c. be_bytes 1 (length c) @ c" CBS_get_u8_length_prefixed
  by unfold_locales (auto simp: CBS_get_u8_length_prefixed_def length_prefixed_iff simp del: be_bytes.simps)

interpretation u16_prefixed: progress_codec "\<lambda>c. length c < 2 ^ 16" "\<lambda>c. be_bytes 2 (length c) @ c" CBS_get_u16_length_prefixed
  by unfold_locales (auto simp: CBS_get_u16_length_prefixed_def length_prefixed_iff)

interpretation u24_prefixed: progress_codec "\<lambda>c. length c < 2 ^ 24" "\<lambda>c. be_bytes 3 (length c) @ c" CBS_get_u24_length_prefixed
  by unfold_locales (auto simp: CBS_get_u24_length_prefixed_def length_prefixed_iff)

subsection \<open>DER\<close>

lemma base128_nonempty [simp]: "base128 n \<noteq> []"
  by (simp add: base128_def)

lemma der_header_nonempty [simp]: "der_header tag n \<noteq> []"
  by (simp add: der_header_def der_len_def)

lemma der_elem_nonempty [simp]: "der_elem tag c \<noteq> []"
  by (simp add: der_elem_def der_header_def der_len_def)

interpretation base128: progress_codec "\<lambda>_. True" "\<lambda>v. base128 (unat v)" parse_base128_integer
  by unfold_locales (simp_all add: parse_base128_iff)

interpretation asn1: progress_codec "\<lambda>c. length c < 2 ^ 32" "der_elem tag" "CBS_get_asn1 tag" for tag
  by unfold_locales (auto simp: CBS_get_asn1_iff der_elem_def)

text \<open>One element with its header, as the byte string that it is.\<close>

definition get_child :: "(cbs, cbs) cfun" where
  "get_child cbs = (case CBS_get_any_asn1_element cbs of
     (None, r) \<Rightarrow> (None, r) | (Some e, r) \<Rightarrow> (Some (elt_out e), r))"

definition der_child :: "bytes \<Rightarrow> bool" where
  "der_child bs \<longleftrightarrow> (\<exists>e. der_element e \<and> elt_out e = bs)"

lemma get_child_iff: "get_child bs = (Some c, rest) \<longleftrightarrow> der_child c \<and> bs = c @ rest"
proof -
  have "get_child bs = (Some c, rest) \<longleftrightarrow> (\<exists>e. CBS_get_any_asn1_element bs = (Some e, rest) \<and> elt_out e = c)"
    by (auto simp: get_child_def split: prod.splits option.splits)
  then show ?thesis by (auto simp: any_asn1_element_iff der_child_def)
qed

interpretation child: progress_codec der_child "\<lambda>c. c" get_child
  by unfold_locales
     (auto simp: get_child_iff, auto simp: der_child_def der_element_def der_header_def der_len_def)

lemma set_of_children_iff: "set_of_children cbs = Some cs \<longleftrightarrow> list_all der_child cs \<and> cbs = concat cs"
proof -
  have "set_of_children bs = (if bs = [] then Some [] else case get_child bs of
      (None, _) \<Rightarrow> None | (Some v, bs') \<Rightarrow> map_option ((#) v) (set_of_children bs'))" for bs
    by (subst set_of_children.simps) (simp add: CBS_len_def get_child_def split: prod.splits option.splits)
  from child.loop_iff [OF this] show ?thesis by simp
qed

subsection \<open>Booleans, strings and integers\<close>

interpretation asn1_bool: progress_codec "\<lambda>_. True"
  "\<lambda>v. der_elem CBS_ASN1_BOOLEAN [if v then 0xff else 0]" CBS_get_asn1_bool
proof
  fix v and bs rest :: bytes
  show "CBS_get_asn1_bool (der_elem CBS_ASN1_BOOLEAN [if v then 0xff else 0] @ rest) = (Some v, rest)"
    by (simp add: CBS_get_asn1_bool_def asn1.dec_enc CBS_len_def)
  assume "CBS_get_asn1_bool bs = (Some v, rest)"
  then obtain c where "CBS_get_asn1 CBS_ASN1_BOOLEAN bs = (Some c, rest)" "length c = 1" "hd c = (if v then 0xff else 0)"
    by (auto simp: CBS_get_asn1_bool_def CBS_len_def Let_def split: prod.splits option.splits if_splits)
  moreover from this have "c = [if v then 0xff else 0]" by (cases c) auto
  ultimately show "True \<and> bs = der_elem CBS_ASN1_BOOLEAN [if v then 0xff else 0] @ rest" by (simp add: asn1.dec_iff)
qed simp

lemma dropWhile_0_be_nat: "be_nat a = be_nat b \<Longrightarrow> dropWhile (\<lambda>x. x = 0) a = dropWhile (\<lambda>x. x = 0) b"
proof -
  have pad: "dropWhile (\<lambda>x. x = 0) (replicate n (0 :: u8) @ a) = dropWhile (\<lambda>x. x = 0) a" for n a
    by (induction n) simp_all
  assume e: "be_nat a = be_nat b"
  define n where "n = length a + length b"
  have "replicate (n - length a) 0 @ a = replicate (n - length b) 0 @ b"
    using be_bytes_be_nat [of "replicate (n - length a) 0 @ a"] be_bytes_be_nat [of "replicate (n - length b) 0 @ b"] e
    by (simp add: n_def add.commute)
  then show ?thesis using pad by metis
qed

lemma unsigned_unique:
  assumes "CBS_is_unsigned_asn1_integer c" "be_nat c < 2 ^ 64"
  shows "c = uint_contents (be_nat c)"
proof -
  have d: "dropWhile (\<lambda>x. x = 0) (be_bytes 8 (be_nat c)) = dropWhile (\<lambda>x. x = 0) c"
    using assms(2) by (intro dropWhile_0_be_nat) (simp add: be_nat_be_bytes)
  obtain b bs where c: "c = b # bs" using assms(1) by (cases c) (auto simp: CBS_is_unsigned_asn1_integer_def CBS_is_valid_asn1_integer_def)
  have u: "unat b < 128" "\<not> (b = 0 \<and> bs \<noteq> [] \<and> unat (hd bs) < 128)" using assms(1) by (simp_all add: c unsigned_Cons)
  show ?thesis
  proof (cases "b = 0")
    case False
    then have "dropWhile (\<lambda>x. x = 0) c = c" by (simp add: c)
    then show ?thesis unfolding uint_contents_def d using u c by (simp add: Let_def)
  next
    case True
    show ?thesis
    proof (cases bs)
      case (Cons e es)
      with True u have "128 \<le> unat e" by auto
      then have "dropWhile (\<lambda>x. x = 0) c = bs" using Cons True c by auto
      then show ?thesis unfolding uint_contents_def d using \<open>128 \<le> unat e\<close> Cons True c by (simp add: Let_def)
    next
      case Nil
      then show ?thesis unfolding uint_contents_def d using True c by (simp add: Let_def)
    qed
  qed
qed

interpretation asn1_uint64: progress_codec "\<lambda>_. True"
  "\<lambda>v. der_elem CBS_ASN1_INTEGER (uint_contents (unat v))" CBS_get_asn1_uint64
proof
  fix v and bs rest :: bytes
  assume "CBS_get_asn1_uint64 bs = (Some v, rest)"
  then obtain c where c: "bs = der_elem CBS_ASN1_INTEGER c @ rest" "CBS_is_unsigned_asn1_integer c" "be_nat c = unat v"
    by (auto simp: CBS_get_asn1_uint64_iff der_elem_def)
  with unsigned_unique [of c] show "True \<and> bs = der_elem CBS_ASN1_INTEGER (uint_contents (unat v)) @ rest" by simp
qed (simp_all add: uint_contents_roundtrip)


text \<open>The sign extension of minimal contents to eight bytes determines them.\<close>

definition sign_fill :: "bool \<Rightarrow> u8" where
  "sign_fill neg = (if neg then 0xff else 0)"

lemma sign_fill_sign [simp]: "128 \<le> unat (sign_fill neg) \<longleftrightarrow> neg"
  by (simp add: sign_fill_def)

lemma hd_extended:
  assumes "CBS_is_valid_asn1_integer c = Some neg"
  shows "128 \<le> unat (hd (replicate n (sign_fill neg) @ c)) \<longleftrightarrow> neg"
  using is_valid_asn1_integer_sign [OF assms] by (cases n) auto

lemma minimal_shorter:
  assumes "CBS_is_valid_asn1_integer c = Some neg" "CBS_is_valid_asn1_integer d = Some neg"
    and "d = replicate j (sign_fill neg) @ c"
  shows "d = c"
proof (cases j)
  case (Suc i)
  have "c \<noteq> []" using is_valid_asn1_integer_sign [OF assms(1)] by simp
  then have "CBS_is_valid_asn1_integer d = None"
    using hd_extended [OF assms(1), of i] unfolding assms(3) Suc replicate_Suc append_Cons valid_integer_Cons
    by (cases neg) (auto simp: sign_fill_def)
  with assms(2) show ?thesis by simp
qed (use assms in simp)

lemma minimal_unique:
  assumes c: "CBS_is_valid_asn1_integer c = Some neg" "length c \<le> 8"
    and d: "CBS_is_valid_asn1_integer d = Some neg'" "length d \<le> 8"
    and e: "be_nat (replicate (8 - length c) (sign_fill neg) @ c) = be_nat (replicate (8 - length d) (sign_fill neg') @ d)"
  shows "c = d"
proof -
  have x: "replicate (8 - length c) (sign_fill neg) @ c = replicate (8 - length d) (sign_fill neg') @ d"
    using be_bytes_be_nat [of "replicate (8 - length c) (sign_fill neg) @ c"]
      be_bytes_be_nat [of "replicate (8 - length d) (sign_fill neg') @ d"] e c d by simp
  have n: "neg' = neg" using hd_extended [OF c(1)] hd_extended [OF d(1)] x by metis
  show ?thesis
  proof (cases "length c \<le> length d")
    case True
    then have "8 - length c = 8 - length d + (length d - length c)" using d by simp
    with x n have "d = replicate (length d - length c) (sign_fill neg) @ c" by (simp add: replicate_add)
    then show ?thesis using minimal_shorter [OF c(1) d(1) [unfolded n]] by blast
  next
    case False
    then have "8 - length d = 8 - length c + (length c - length d)" using c by simp
    with x n have "c = replicate (length c - length d) (sign_fill neg) @ d" by (simp add: replicate_add)
    then show ?thesis using minimal_shorter [OF d(1) [unfolded n] c(1)] by blast
  qed
qed

interpretation asn1_int64: progress_codec "\<lambda>_. True"
  "\<lambda>v. der_elem CBS_ASN1_INTEGER (int_contents v)" CBS_get_asn1_int64
proof
  fix v and bs rest :: bytes
  assume "CBS_get_asn1_int64 bs = (Some v, rest)"
  then obtain c neg where c: "bs = der_elem CBS_ASN1_INTEGER c @ rest" "CBS_is_valid_asn1_integer c = Some neg"
    "length c \<le> 8" "unat v = be_nat (replicate (8 - length c) (sign_fill neg) @ c)"
    by (auto simp: CBS_get_asn1_int64_iff der_elem_def sign_fill_def)
  obtain d neg' where d: "der_elem CBS_ASN1_INTEGER (int_contents v) @ rest = der_elem CBS_ASN1_INTEGER d @ rest"
    "CBS_is_valid_asn1_integer d = Some neg'" "length d \<le> 8" "unat v = be_nat (replicate (8 - length d) (sign_fill neg') @ d)"
    using int_contents_roundtrip [of v rest] unfolding CBS_get_asn1_int64_iff by (auto simp: der_elem_def sign_fill_def)
  have "c = d" using minimal_unique [OF c(2,3) d(2,3)] c(4) d(4) by simp
  with c(1) d(1) show "True \<and> bs = der_elem CBS_ASN1_INTEGER (int_contents v) @ rest" by simp
qed (simp_all add: int_contents_roundtrip)

end
