(* ===== verification/Oid.thy ===== *)
theory Oid
  imports Der_Codec
begin

text \<open>Object identifiers: the dotted text that \<open>cbb.c\<close> reads and \<open>cbs.c\<close> prints.\<close>

subsection \<open>Decimal components\<close>

lemma decimal_small: "n < 10 \<Longrightarrow> decimal n = [of_nat (48 + n)]"
  by (subst decimal.simps) simp

lemma decimal_snoc: "0 < n \<Longrightarrow> d < 10 \<Longrightarrow> decimal (n * 10 + d) = decimal n @ [of_nat (48 + d)]"
  by (subst decimal.simps) simp

lemma decimal_nonempty [simp]: "decimal n \<noteq> []"
  by (subst decimal.simps) simp

text \<open>The four ways in which a digit is refused.\<close>

definition digit_ok :: "u64 \<Rightarrow> bool \<Rightarrow> u8 \<Rightarrow> bool" where
  "digit_ok out seen u \<longleftrightarrow> 48 \<le> unat u \<and> unat u \<le> 57 \<and> \<not> (seen \<and> out = 0) \<and>
     unat out * 10 + (unat u - 48) < 2 ^ 64"

lemma unat_of_nat_u64: "n < 2 ^ 64 \<Longrightarrow> unat (of_nat n :: u64) = n"
  by (simp add: unat_of_nat)

lemma UINT64_MAX_nat: "unat UINT64_MAX = 2 ^ 64 - 1"
  by (simp add: UINT64_MAX_def)

lemma digit_step:
  assumes "\<not> (u = 46 \<and> cbs \<noteq> [])"
  shows "dotted_decimal_loop out seen (u # cbs) =
    (if digit_ok out seen u then dotted_decimal_loop (of_nat (unat out * 10 + (unat u - 48))) True cbs
     else (None, cbs))"
proof -
  define d where "d = unat u - 48"
  have r: "u < 48 \<or> u > 57 \<longleftrightarrow> \<not> (48 \<le> unat u \<and> unat u \<le> 57)"
    by (auto simp: word_less_nat_alt)
  show ?thesis
  proof (cases "48 \<le> unat u \<and> unat u \<le> 57")
    case False
    then show ?thesis using assms r by (auto simp: digit_ok_def)
  next
    case True
    then have u: "unat (u - 48) = d" by (simp add: d_def unat_sub word_le_nat_alt)
    have d: "unat (ucast (u - 48) :: u64) = d" by (simp add: u)
    have d9: "d \<le> 9" using True unfolding d_def by linarith
    have ov: "out > UINT64_MAX div 10 \<or> out * 10 > UINT64_MAX - ucast (u - 48) \<longleftrightarrow>
        \<not> unat out * 10 + d < 2 ^ 64"
    proof (cases "out > UINT64_MAX div 10")
      case True
      then have "unat out > (2 ^ 64 - 1) div 10"
        by (simp add: word_less_nat_alt unat_div UINT64_MAX_nat)
      with True show ?thesis by simp
    next
      case False
      then have o: "unat out \<le> (2 ^ 64 - 1) div 10"
        by (simp add: word_less_nat_alt unat_div UINT64_MAX_nat)
      then have m: "unat (out * 10) = unat out * 10" by (simp add: unat_word_ariths)
      have "unat (UINT64_MAX - ucast (u - 48)) = 2 ^ 64 - 1 - d"
        using d d9 by (simp add: unat_sub word_le_nat_alt UINT64_MAX_nat)
      then have "out * 10 > UINT64_MAX - ucast (u - 48) \<longleftrightarrow> unat out * 10 > 2 ^ 64 - 1 - d"
        by (simp only: word_less_nat_alt m)
      with False d9 show ?thesis by auto
    qed
    have "out * 10 + ucast (u - 48) = of_nat (unat out * 10 + d)"
      by (simp add: d [symmetric] del: unat_ucast_u8_u64)
    then show ?thesis using assms True r ov
      by (auto simp: digit_ok_def simp flip: d_def simp del: of_nat_add)
  qed
qed

text \<open>What follows a component: nothing, or a dot and more text.\<close>

definition oid_rest :: "bytes \<Rightarrow> bytes" where
  "oid_rest rest = (if rest = [] then [] else 46 # rest)"

lemma loop_oid_rest: "dotted_decimal_loop out seen (oid_rest rest) = (if seen then Some out else None, rest)"
  by (simp add: oid_rest_def)

lemma decimal_parses:
  "n < 2 ^ 64 \<Longrightarrow> dotted_decimal_loop 0 False (decimal n @ rest) = dotted_decimal_loop (of_nat n) True rest"
proof (induction n arbitrary: rest rule: decimal.induct)
  case (1 n)
  have dig: "unat (of_nat (48 + d) :: u8) = 48 + d" "of_nat (48 + d) \<noteq> (46 :: u8)" if "d < 10" for d
    using that by (simp_all add: word_unat_eq_iff unat_of_nat del: of_nat_add)
  show ?case
  proof (cases "n < 10")
    case True
    have "decimal n @ rest = of_nat (48 + n) # rest" using True by (simp add: decimal_small)
    then show ?thesis using dig [OF True] True by (simp only:) (subst digit_step, simp, simp add: digit_ok_def del: of_nat_add)
  next
    case False
    define d where "d = of_nat (48 + n mod 10) # rest"
    have "decimal n @ rest = decimal (n div 10) @ d"
      using False by (subst decimal.simps) (simp add: d_def)
    moreover have "dotted_decimal_loop 0 False (decimal (n div 10) @ d) = dotted_decimal_loop (of_nat (n div 10)) True d"
      using 1 False by simp
    moreover have "unat (of_nat (n div 10) :: u64) = n div 10" "of_nat (n div 10) \<noteq> (0 :: u64)"
      using 1(2) False by (simp_all add: word_unat_eq_iff unat_of_nat)
    moreover have "n mod 10 < 10" "n mod 10 \<le> 9" by simp_all
    ultimately show ?thesis using 1(2) dig [of "n mod 10"]
      unfolding d_def by (simp only:) (subst digit_step, simp, simp add: digit_ok_def del: of_nat_add)
  qed
qed

lemma parse_decimal:
  assumes "n < 2 ^ 64"
  shows "parse_dotted_decimal (decimal n @ oid_rest rest) = (Some (of_nat n), rest)"
  using assms by (simp add: parse_dotted_decimal_def decimal_parses loop_oid_rest)

lemma dotted_loop_sound:
  "dotted_decimal_loop out True cbs = (Some v, rest) \<Longrightarrow> decimal (unat out) @ cbs = decimal (unat v) @ oid_rest rest"
proof (induction cbs arbitrary: out)
  case (Cons u cbs)
  show ?case
  proof (cases "u = 46 \<and> cbs \<noteq> []")
    case True
    with Cons(2) show ?thesis by (auto simp: oid_rest_def)
  next
    case False
    with Cons(2) have ok: "digit_ok out True u" and
      l: "dotted_decimal_loop (of_nat (unat out * 10 + (unat u - 48))) True cbs = (Some v, rest)"
      by (simp_all add: digit_step [OF False] split: if_splits del: dotted_decimal_loop.simps of_nat_add)
    have o: "0 < unat out" "unat u - 48 < 10" "of_nat (48 + (unat u - 48)) = u"
      using ok by (auto simp: digit_ok_def unat_gt_0 simp del: of_nat_add)
    have "unat (of_nat (unat out * 10 + (unat u - 48)) :: u64) = unat out * 10 + (unat u - 48)"
      using ok by (intro unat_of_nat_u64) (auto simp only: digit_ok_def)
    then show ?thesis using Cons(1) [OF l] o by (simp only: decimal_snoc) simp
  qed
qed (auto simp: oid_rest_def)

lemma parse_decimal_sound:
  assumes "parse_dotted_decimal cbs = (Some v, rest)"
  shows "cbs = decimal (unat v) @ oid_rest rest"
proof (cases cbs)
  case Nil
  with assms show ?thesis by (simp add: parse_dotted_decimal_def)
next
  case (Cons u us)
  show ?thesis
  proof (cases "u = 46 \<and> us \<noteq> []")
    case True
    with assms Cons show ?thesis by (simp add: parse_dotted_decimal_def)
  next
    case False
    with assms Cons have ok: "digit_ok 0 False u" and
      l: "dotted_decimal_loop (of_nat (unat u - 48)) True us = (Some v, rest)"
      by (simp_all add: parse_dotted_decimal_def digit_step [OF False] split: if_splits del: dotted_decimal_loop.simps)
    then have "unat u - 48 < 10" "of_nat (48 + (unat u - 48)) = u"
      by (auto simp: digit_ok_def simp del: of_nat_add)
    moreover from this have "unat (of_nat (unat u - 48) :: u64) = unat u - 48"
      by (intro unat_of_nat_u64) simp
    ultimately have "decimal (unat (of_nat (unat u - 48) :: u64)) = [u]"
      by (simp only: decimal_small)
    with dotted_loop_sound [OF l] Cons show ?thesis by simp
  qed
qed

lemma parse_decimal_iff:
  "parse_dotted_decimal cbs = (Some v, rest) \<longleftrightarrow> cbs = decimal (unat v) @ oid_rest rest"
proof
  assume "cbs = decimal (unat v) @ oid_rest rest"
  then show "parse_dotted_decimal cbs = (Some v, rest)" using parse_decimal [of "unat v" rest] by simp
qed (rule parse_decimal_sound)


subsection \<open>The text and the encoding of an identifier\<close>

text \<open>Components \<open>a\<close>, \<open>b\<close> and the rest, joined by dots; and the contents of the OBJECT IDENTIFIER.\<close>

fun dotted :: "u64 list \<Rightarrow> bytes" where
  "dotted [] = []"
| "dotted (c # cs) = decimal (unat c) @ oid_rest (dotted cs)"

fun oid_contents :: "u64 list \<Rightarrow> bytes" where
  "oid_contents (a # b # cs) = base128 (unat (40 * a + b)) @ concat (map (\<lambda>c. base128 (unat c)) cs)"
| "oid_contents _ = []"

text \<open>The first two components share a number, so that they are bounded.\<close>

fun oid_valid :: "u64 list \<Rightarrow> bool" where
  "oid_valid (a # b # cs) \<longleftrightarrow> unat a \<le> 2 \<and> (unat a < 2 \<longrightarrow> unat b \<le> 39) \<and> unat b < 2 ^ 64 - 80"
| "oid_valid _ \<longleftrightarrow> False"

lemma dotted_Nil_iff [simp]: "dotted cs = [] \<longleftrightarrow> cs = []"
  by (cases cs) auto

text \<open>The components that the loop reads.\<close>

function text_components :: "bytes \<Rightarrow> u64 list option" where
  "text_components cbs = (if cbs = [] then Some [] else case parse_dotted_decimal cbs of
     (None, _) \<Rightarrow> None | (Some a, cbs') \<Rightarrow> map_option ((#) a) (text_components cbs'))"
  by pat_completeness auto
termination
  by (relation "measure length") (auto simp: parse_dotted_decimal_def dest: dotted_decimal_shorter [OF sym])

declare text_components.simps [simp del]

lemma text_components_iff: "text_components cbs = Some cs \<longleftrightarrow> cbs = dotted cs"
proof (induction cs arbitrary: cbs)
  case Nil
  show ?case by (subst text_components.simps) (auto split: option.splits prod.splits)
next
  case (Cons c cs)
  show ?case
  proof
    assume "text_components cbs = Some (c # cs)"
    then show "cbs = dotted (c # cs)"
      by (subst (asm) text_components.simps)
         (auto simp: Cons dest: parse_decimal_sound split: option.splits prod.splits if_splits)
  next
    assume "cbs = dotted (c # cs)"
    then show "text_components cbs = Some (c # cs)"
      using parse_decimal [of "unat c" "dotted cs"] by (subst text_components.simps) (simp add: Cons)
  qed
qed

lemma oid_components_implements:
  "implements env (\<lambda>fs. length fs = Suc k) (oid_components env k cbs)
     (\<lambda>fs. Option.bind (text_components cbs) (\<lambda>cs. a_append k (concat (map (\<lambda>c. base128 (unat c)) cs)) fs))"
proof (induction "length cbs" arbitrary: cbs rule: less_induct)
  case less
  show ?case
  proof (cases "cbs = []")
    case True
    then show ?thesis
      by (intro implements_cong [OF implements_skip])
         (auto simp: a_append_top oid_components.simps text_components.simps)
  next
    case False
    show ?thesis
    proof (cases "parse_dotted_decimal cbs")
      case (Pair r cbs')
      show ?thesis
      proof (cases r)
        case None
        with Pair False show ?thesis
          by (auto simp: implements_def oid_components.simps [of env k cbs] text_components.simps [of cbs])
      next
        case (Some a)
        have "length cbs' < length cbs"
          using dotted_decimal_shorter [of 0 False cbs a cbs'] Pair Some False by (simp add: parse_dotted_decimal_def)
        note s = implements_seq [OF add_base128_integer_implements [of env k a] less [OF this]]
        show ?thesis
          by (rule implements_cong [OF s])
             (auto simp: Pair Some False oid_components.simps [of env k cbs] text_components.simps [of cbs]
                and_then_def a_append_append [symmetric] split: prod.splits bool.splits bind_splits dest: a_append_length)
      qed
    qed
  qed
qed


lemma oid_check: "(a > 2 \<or> (a < 2 \<and> b > 39) \<or> b > UINT64_MAX - 80) \<longleftrightarrow> \<not> oid_valid (a # b # cs)"
proof -
  have "unat (UINT64_MAX - 80) = 2 ^ 64 - 81" by (simp add: UINT64_MAX_def)
  then show ?thesis by (auto simp: word_less_nat_alt)
qed

lemma text_components_two:
  "text_components text = Some (a # b # cs) \<longleftrightarrow> (\<exists>r1 r2. parse_dotted_decimal text = (Some a, r1) \<and>
     parse_dotted_decimal r1 = (Some b, r2) \<and> text_components r2 = Some cs)"
proof -
  have "text_components text = Some (a # b # cs) \<longleftrightarrow> text = decimal (unat a) @ oid_rest (decimal (unat b) @ oid_rest (dotted cs))"
    by (simp add: text_components_iff)
  then show ?thesis by (auto simp: parse_decimal_iff text_components_iff)
qed

text \<open>The encoding that \<open>CBB_add_asn1_oid_from_text\<close> writes for a text, if it accepts it.\<close>

definition oid_of_text :: "bytes \<Rightarrow> bytes option" where
  "oid_of_text text = (case text_components text of
     Some cs \<Rightarrow> if oid_valid cs then Some (oid_contents cs) else None | None \<Rightarrow> None)"

lemma oid_of_text_iff: "oid_of_text text = Some bs \<longleftrightarrow> (\<exists>cs. text = dotted cs \<and> oid_valid cs \<and> bs = oid_contents cs)"
proof -
  have [simp]: "text_components (dotted cs) = Some cs" for cs by (simp add: text_components_iff)
  show ?thesis by (auto simp: oid_of_text_def split: option.splits if_splits) (auto simp: text_components_iff)
qed

lemma oid_of_text_unfold:
  "oid_of_text text = (case parse_dotted_decimal text of (None, _) \<Rightarrow> None | (Some a, r1) \<Rightarrow>
     (case parse_dotted_decimal r1 of (None, _) \<Rightarrow> None | (Some b, r2) \<Rightarrow>
       if oid_valid (a # b # []) then
         map_option (\<lambda>cs. base128 (unat (40 * a + b)) @ concat (map (\<lambda>c. base128 (unat c)) cs)) (text_components r2)
       else None))" (is "_ = ?rhs")
proof -
  have [simp]: "parse_dotted_decimal [] = (None, [])" by (simp add: parse_dotted_decimal_def)
  have t: "text_components t = (case parse_dotted_decimal t of (None, _) \<Rightarrow> if t = [] then Some [] else None
      | (Some a, r) \<Rightarrow> map_option ((#) a) (text_components r))" for t
    by (subst text_components.simps) (auto split: prod.splits option.splits)
  obtain p1 r1 where p: "parse_dotted_decimal text = (p1, r1)" by (cases "parse_dotted_decimal text")
  obtain p2 r2 where q: "parse_dotted_decimal r1 = (p2, r2)" by (cases "parse_dotted_decimal r1")
  show ?thesis
    by (cases p1; cases p2; cases "text_components r2") (auto simp: oid_of_text_def t [of "text"] t [of r1] p q)
qed

lemma CBB_add_asn1_oid_from_text_implements:
  "implements env (\<lambda>_. True) (CBB_add_asn1_oid_from_text env text k)
     (\<lambda>fs. Option.bind (oid_of_text text) (\<lambda>bs. a_append k bs fs))"
proof (cases "\<exists>a r1 b r2. parse_dotted_decimal text = (Some a, r1) \<and> parse_dotted_decimal r1 = (Some b, r2) \<and> oid_valid [a, b]")
  case False
  then have n: "oid_of_text text = None" by (auto simp: oid_of_text_unfold split: option.split prod.split)
  have "\<not> fst (CBB_add_asn1_oid_from_text env text k c)" for c
    using False by (auto simp: CBB_add_asn1_oid_from_text_def and_then_def oid_check [where cs = "[]"]
        split: option.split prod.split simp del: oid_valid.simps)
  then have "CBB_add_asn1_oid_from_text env text k c \<noteq> (True, c')" for c c' by (metis fst_conv)
  then show ?thesis by (simp add: implements_def n)
next
  case True
  then obtain a r1 b r2 where p: "parse_dotted_decimal text = (Some a, r1)" "parse_dotted_decimal r1 = (Some b, r2)" "oid_valid [a, b]"
    by blast
  note s = implements_seq [OF CBB_flush_implements [of env k]
      implements_seq [OF add_base128_integer_implements [of env k "40 * a + b"] oid_components_implements [of env k r2]]]
  have e: "Option.bind (a_flush k fs) (\<lambda>x. Option.bind (a_append k bs x) (\<lambda>x. Option.bind r (\<lambda>cs. a_append k (h cs) x)))
     = Option.bind (map_option (\<lambda>cs. bs @ h cs) r) (\<lambda>bs. a_append k bs fs)" for fs bs r and h :: "u64 list \<Rightarrow> bytes"
    by (cases r) (simp_all add: a_append_append a_flush_append split: bind_splits)
  show ?thesis
    by (rule implements_cong [OF s])
       (simp_all add: e p oid_of_text_unfold CBB_add_asn1_oid_from_text_def oid_check [where cs = "[]"] a_flush_length a_append_length
         del: oid_valid.simps bind_map_option)
qed


subsection \<open>Printing\<close>

lemma dotted_concat: "dotted (a # cs) = decimal (unat a) @ concat (map (\<lambda>c. 46 # decimal (unat c)) cs)"
proof (induction cs arbitrary: a)
  case (Cons c cs)
  have "dotted (a # c # cs) = decimal (unat a) @ 46 # dotted (c # cs)" by (simp add: oid_rest_def)
  then show ?case by (simp only: Cons) simp
qed (simp add: oid_rest_def)

function der_components :: "bytes \<Rightarrow> u64 list option" where
  "der_components cbs = (if cbs = [] then Some [] else case parse_base128_integer cbs of
     (None, _) \<Rightarrow> None | (Some a, cbs') \<Rightarrow> map_option ((#) a) (der_components cbs'))"
  by pat_completeness auto
termination
  by (relation "measure length") (auto simp: parse_base128_integer_def dest: parse_base128_shorter [OF sym])

declare der_components.simps [simp del]

lemma der_components_iff: "der_components cbs = Some cs \<longleftrightarrow> cbs = concat (map (\<lambda>c. base128 (unat c)) cs)"
  using base128.loop_iff [OF der_components.simps] by (simp add: list_all_iff)

lemma length_decimal: "n < 10 ^ m \<Longrightarrow> 0 < m \<Longrightarrow> length (decimal n) \<le> m"
proof (induction m arbitrary: n)
  case (Suc m)
  show ?case
  proof (cases "n < 10")
    case False
    then have "n div 10 < 10 ^ m" "0 < m" using Suc(2) by (auto intro!: gr0I)
    with Suc(1) [of "n div 10"] False show ?thesis by (subst decimal.simps) simp
  qed (simp add: decimal_small)
qed simp

lemma add_decimal_implements: "implements env (\<lambda>_. True) (add_decimal env v k) (a_append k (decimal (unat v)))"
proof -
  have "unat v < 10 ^ 20" by (rule less_trans [OF unat_u64_less]) simp
  then have "length (decimal (unat v)) < SIZE_MOD" using length_decimal [of "unat v" 20] by (simp add: SIZE_MOD_def)
  then show ?thesis unfolding add_decimal_def by (rule CBB_add_bytes_implements)
qed

lemma oid_text_components_implements:
  "implements env (\<lambda>fs. length fs = 1) (oid_text_components env cbs)
     (\<lambda>fs. Option.bind (der_components cbs) (\<lambda>cs. a_append 0 (concat (map (\<lambda>c. 46 # decimal (unat c)) cs)) fs))"
proof (induction "length cbs" arbitrary: cbs rule: less_induct)
  case less
  show ?case
  proof (cases "cbs = []")
    case True
    then show ?thesis
      by (intro implements_cong [OF implements_skip])
         (auto simp: a_append_top oid_text_components.simps der_components.simps CBS_len_def)
  next
    case False
    obtain r cbs' where p: "parse_base128_integer cbs = (r, cbs')" by (cases "parse_base128_integer cbs")
    show ?thesis
    proof (cases r)
      case None
      with p False show ?thesis
        by (auto simp: implements_def oid_text_components.simps [of env cbs] der_components.simps [of cbs] CBS_len_def)
    next
      case (Some a)
      have "length cbs' < length cbs"
        using parse_base128_shorter [of 0 cbs a cbs'] p Some by (simp add: parse_base128_integer_def)
      note s = implements_seq [OF implements_seq [OF CBB_add_u8_implements [of env 46 0] add_decimal_implements [of env a 0]]
          less [OF this]]
      have s: "implements env (\<lambda>_. True)
          (\<lambda>c. and_then (and_then (CBB_add_u8 env 46 0 c) (add_decimal env a 0)) (oid_text_components env cbs'))
          (\<lambda>x. Option.bind (a_append 0 ([46] @ decimal (unat a)) x)
             (\<lambda>x. Option.bind (der_components cbs') (\<lambda>cs. a_append 0 (concat (map (\<lambda>c. 46 # decimal (unat c)) cs)) x)))"
        using s by (simp only: a_append_append) (auto dest: a_append_length)
      show ?thesis
        by (rule implements_cong [OF s])
           (auto simp: p Some False CBS_len_def oid_text_components.simps [of env cbs] der_components.simps [of cbs]
              a_append_top and_then_def split: prod.splits bool.splits bind_splits)
    qed
  qed
qed


subsection \<open>The first two components\<close>

text \<open>The two components that share the first number.\<close>

definition first_two :: "u64 \<Rightarrow> u64 \<times> u64" where
  "first_two v = (if v \<ge> 80 then (2, v - 80) else (v div 40, v mod 40))"

lemma first_two_valid:
  assumes "first_two v = (a, b)"
  shows "oid_valid (a # b # cs)" "40 * a + b = v"
proof -
  show "40 * a + b = v"
    using assms by (auto simp: first_two_def mult_div_mod_eq split: if_splits)
  show "oid_valid (a # b # cs)"
  proof (cases "v \<ge> 80")
    case True
    then have "80 \<le> unat v" by (simp add: word_le_nat_alt)
    moreover have "unat (v - 80) = unat v - 80" using True by (simp add: unat_sub)
    ultimately have "unat (v - 80) < 2 ^ 64 - 80" using unat_u64_less [of v] by (simp del: unat_u64_less)
    with True assms show ?thesis by (auto simp: first_two_def)
  next
    case False
    then have "unat v < 80" by (simp add: word_le_nat_alt)
    then have "unat v div 40 \<le> 1" "unat v mod 40 \<le> 39" by (simp_all add: div_le_mono less_mult_imp_div_less)
    with False assms show ?thesis by (auto simp: first_two_def unat_div unat_mod)
  qed
qed

lemma first_two_inverse:
  assumes "oid_valid (a # b # cs)"
  shows "first_two (40 * a + b) = (a, b)"
proof -
  have "unat b < 2 ^ 64 - 80" "unat a \<le> 2" using assms by simp_all
  then have u: "unat (40 * a + b) = 40 * unat a + unat b"
    by (simp add: unat_word_ariths)
  show ?thesis
  proof (cases "unat a = 2")
    case True
    then have "a = 2" by (simp add: word_unat_eq_iff)
    moreover have "40 * a + b \<ge> 80" using u True by (simp add: word_le_nat_alt)
    ultimately show ?thesis by (simp add: first_two_def)
  next
    case False
    then have ab: "unat a \<le> 1" "unat b \<le> 39" using assms by simp_all
    then have "\<not> 40 * a + b \<ge> 80" using u by (simp add: word_le_nat_alt)
    moreover have "(40 * a + b) div 40 = a" "(40 * a + b) mod 40 = b"
      using u ab by (simp_all add: word_unat_eq_iff unat_div unat_mod)
    ultimately show ?thesis by (simp add: first_two_def)
  qed
qed

lemma first_two_implements:
  assumes "first_two v = (a, b)"
  shows "implements env (\<lambda>_. True)
     (\<lambda>c. if v \<ge> 80 then and_then (CBB_add_bytes env [50, 46] 0 c) (add_decimal env (v - 80) 0)
          else and_then (and_then (add_decimal env (v div 40) 0 c) (CBB_add_u8 env 46 0)) (add_decimal env (v mod 40) 0))
     (a_append 0 (decimal (unat a) @ 46 # decimal (unat b)))"
proof (cases "v \<ge> 80")
  case True
  have l: "length [50, 46 :: u8] < SIZE_MOD" by (simp add: SIZE_MOD_def)
  have "decimal 2 = [50]" by (simp add: decimal_small)
  then have e: "decimal (unat a) @ 46 # decimal (unat b) = [50, 46] @ decimal (unat (v - 80))"
    using True assms by (auto simp: first_two_def)
  show ?thesis unfolding e
    by (rule implements_cong [OF implements_seq [OF CBB_add_bytes_implements [OF l, of env 0] add_decimal_implements [of env "v - 80" 0]]])
       (use True in \<open>simp_all only: a_append_append if_True\<close>)
next
  case False
  have e: "decimal (unat a) @ 46 # decimal (unat b) = (decimal (unat (v div 40)) @ [46]) @ decimal (unat (v mod 40))"
    using False assms by (auto simp: first_two_def)
  show ?thesis unfolding e
    by (rule implements_cong [OF implements_seq [OF implements_seq [OF add_decimal_implements [of env "v div 40" 0]
            CBB_add_u8_implements [of env 46 0]] add_decimal_implements [of env "v mod 40" 0]]])
       (use False in \<open>simp_all only: a_append_append if_False\<close>)
qed

text \<open>The writes of \<open>CBS_asn1_oid_to_text\<close>, after the first number is read.\<close>

definition oid_writes :: "mem_env \<Rightarrow> u64 \<Rightarrow> cbs \<Rightarrow> cbb \<Rightarrow> bool \<times> cbb" where
  "oid_writes env v copy cbb = and_then (and_then
     (if v \<ge> 80 then and_then (CBB_add_bytes env [50, 46] 0 cbb) (add_decimal env (v - 80) 0)
      else and_then (and_then (add_decimal env (v div 40) 0 cbb) (CBB_add_u8 env 46 0)) (add_decimal env (v mod 40) 0))
     (oid_text_components env copy)) (CBB_add_u8 env 0 0)"

lemma oid_writes_implements:
  assumes "first_two v = (a, b)"
  shows "implements env (\<lambda>fs. length fs = 1) (oid_writes env v copy)
     (\<lambda>fs. Option.bind (der_components copy) (\<lambda>cs. a_append 0 (dotted (a # b # cs) @ [0]) fs))"
proof -
  note s = implements_seq [OF implements_seq [OF first_two_implements [OF assms] oid_text_components_implements [of env copy]]
      CBB_add_u8_implements [of env 0 0]]
  show ?thesis
    by (rule implements_cong [OF s])
       (auto simp: oid_writes_def dotted_concat a_append_top split: bind_splits dest: a_append_length
          simp del: dotted.simps)
qed

lemma oid_to_text_unfold:
  "CBS_asn1_oid_to_text env cbs = (case CBB_init env 32 of (False, _) \<Rightarrow> None | (True, cbb) \<Rightarrow>
     (case parse_base128_integer cbs of (None, _) \<Rightarrow> None | (Some v, copy) \<Rightarrow>
       (case oid_writes env v copy cbb of (False, _) \<Rightarrow> None | (True, cbb) \<Rightarrow> fst (CBB_finish env True 0 cbb))))"
  unfolding CBS_asn1_oid_to_text_def oid_writes_def Let_def by (rule refl)

lemma oid_to_text_sound:
  assumes "CBS_asn1_oid_to_text env cbs = Some t"
  obtains cs where "oid_valid cs" "cbs = oid_contents cs" "t = dotted cs @ [0]"
proof -
  obtain c v copy c' where c: "CBB_init env 32 = (True, c)" "parse_base128_integer cbs = (Some v, copy)"
    "oid_writes env v copy c = (True, c')" "fst (CBB_finish env True 0 c') = Some t"
    using assms by (auto simp: oid_to_text_unfold split: prod.splits bool.splits option.splits)
  obtain a b where ab: "first_two v = (a, b)" by (cases "first_two v")
  obtain x' where x': "Option.bind (der_components copy) (\<lambda>cs. a_append 0 (dotted (a # b # cs) @ [0]) [(LenPrefix 0, [])]) = Some x'"
    "cbb_abs c' x'"
    using implements_sound [OF oid_writes_implements [OF ab] _ CBB_init_abs(1) [OF c(1)] c(3)] by auto
  then obtain cs where cs: "der_components copy = Some cs" "x' = [(LenPrefix 0, dotted (a # b # cs) @ [0])]"
    by (auto simp: a_append_top app_last_def split: bind_splits)
  have "t = dotted (a # b # cs) @ [0]" using CBB_finish_abs [of c' _ env] x'(2) cs(2) c(4) by simp
  moreover have "cbs = oid_contents (a # b # cs)"
    using c(2) cs(1) first_two_valid(2) [OF ab] by (simp add: der_components_iff parse_base128_iff)
  ultimately show thesis using that first_two_valid(1) [OF ab] by blast
qed

lemma oid_to_text_complete:
  assumes env: "\<And>n. env_malloc env n" "\<And>n. env_realloc env n"
    and cs: "oid_valid cs" "length (dotted cs) + 1 < SIZE_MOD"
  shows "CBS_asn1_oid_to_text env (oid_contents cs) = Some (dotted cs @ [0])"
proof -
  obtain a b ds where abc: "cs = a # b # ds" using cs(1) by (cases cs rule: oid_valid.cases) auto
  let ?v = "40 * a + b" and ?copy = "concat (map (\<lambda>c. base128 (unat c)) ds)"
  have ab: "first_two ?v = (a, b)" using cs(1) first_two_inverse abc by blast
  obtain c where c: "CBB_init env 32 = (True, c)" by (simp add: CBB_init_def cbb_init_def env)
  have d: "der_components ?copy = Some ds" by (simp add: der_components_iff)
  have ap: "Option.bind (der_components ?copy) (\<lambda>cs. a_append 0 (dotted (a # b # cs) @ [0]) [(LenPrefix 0, [])]) =
      Some [(LenPrefix 0, dotted cs @ [0])]"
    by (simp add: d a_append_top app_last_def abc del: dotted.simps)
  obtain c' where "oid_writes env ?v ?copy c = (True, c')" "cbb_abs c' [(LenPrefix 0, dotted cs @ [0])]"
    using implements_live [OF oid_writes_implements [OF ab] _ CBB_init_abs(1) [OF c] ap CBB_init_abs(2) [OF c] env(2)] cs(2) by auto
  then show ?thesis by (simp add: oid_to_text_unfold c abc CBB_finish_abs base128.dec_enc del: dotted.simps)
qed


subsection \<open>Sizes\<close>

lemma length_decimal_u64: "length (decimal (unat (c :: u64))) \<le> 20"
proof (rule length_decimal)
  show "unat c < 10 ^ 20" by (rule less_trans [OF unat_u64_less]) simp
qed simp

lemma length_dotted: "length (dotted cs) \<le> 21 * length cs"
proof (induction cs)
  case (Cons c cs)
  then show ?case using length_decimal_u64 [of c] by (simp add: oid_rest_def)
qed simp

lemma length_components: "length cs \<le> length (dotted cs)"
proof (induction cs)
  case (Cons c cs)
  have "0 < length (decimal (unat c))" by simp
  with Cons show ?case by (auto simp: oid_rest_def simp del: length_greater_0_conv)
qed simp

lemma length_base128_u64: "0 < length (base128 (unat (c :: u64)))" "length (base128 (unat c)) \<le> 10"
proof -
  have "unat c < 128 ^ Suc 9" by (rule less_trans [OF unat_u64_less]) simp
  from length_base128 [OF this] show "length (base128 (unat c)) \<le> 10" by simp
qed simp

lemma length_base128s:
  "length cs \<le> length (concat (map (\<lambda>c. base128 (unat (c :: u64))) cs)) \<and>
   length (concat (map (\<lambda>c. base128 (unat c)) cs)) \<le> 10 * length cs"
proof (induction cs)
  case (Cons c cs)
  then show ?case using length_base128_u64 [of c] by (simp del: length_greater_0_conv)
qed simp

lemma length_oid_contents:
  "length (oid_contents cs) \<le> 10 * length cs" "oid_valid cs \<Longrightarrow> length cs \<le> length (oid_contents cs) + 1"
proof -
  have *: "length (oid_contents cs) \<le> 10 * length cs \<and> (oid_valid cs \<longrightarrow> length cs \<le> length (oid_contents cs) + 1)"
  proof (cases cs rule: oid_contents.cases)
    case (1 a b ds)
    then show ?thesis using length_base128s [of ds] length_base128_u64 [of "40 * a + b"]
      by (simp del: length_greater_0_conv)
  qed auto
  then show "length (oid_contents cs) \<le> 10 * length cs" "oid_valid cs \<Longrightarrow> length cs \<le> length (oid_contents cs) + 1"
    by simp_all
qed

subsection \<open>Building from text\<close>

text \<open>A builder that is not short of memory accepts exactly the valid texts.\<close>

lemma oid_text_build:
  assumes "alloc_ok env" "10 * length txt < SIZE_MOD"
  shows "build env cap (CBB_add_asn1_oid_from_text env txt 0) = oid_of_text txt"
proof (cases "oid_of_text txt")
  case None
  then have "build env cap (CBB_add_asn1_oid_from_text env txt 0) \<noteq> Some out" for out
    using build_sound [OF CBB_add_asn1_oid_from_text_implements, of env cap "txt" 0 out] by auto
  then show ?thesis using None by (metis option.exhaust)
next
  case (Some out)
  then obtain cs where "txt = dotted cs" "out = oid_contents cs" by (auto simp: oid_of_text_iff)
  then have l: "length out < SIZE_MOD" using assms(2) length_oid_contents(1) [of cs] length_components [of cs] by simp
  have "build env cap (CBB_add_asn1_oid_from_text env txt 0) = Some out"
    by (rule build_live [OF CBB_add_asn1_oid_from_text_implements assms(1) _ _ l, where x = "[(LenPrefix 0, out)]"])
       (simp_all add: Some a_append_top a_flush_top app_last_def)
  then show ?thesis using Some by simp
qed

end
