(* ===== verification/Set_Of.thy ===== *)
theory Set_Of
  imports Der_Codec
begin

text \<open>\<open>CBB_flush_asn1_set_of\<close>: the order of the elements of a SET OF, and the result of sorting.\<close>

subsection \<open>The order of the elements\<close>

lemma compare_simps [simp]:
  "compare_set_of_element [] [] = 0"
  "compare_set_of_element [] (y # ys) = -1"
  "compare_set_of_element (x # xs) [] = 1"
  "compare_set_of_element (x # xs) (y # ys) =
     (if x < y then -1 else if y < x then 1 else compare_set_of_element xs ys)"
  by (simp_all add: compare_set_of_element_def Let_def CBS_len_def)

lemma compare_refl: "compare_set_of_element a a = 0"
  by (induction a) simp_all

lemma compare_swap: "compare_set_of_element b a = - compare_set_of_element a b"
proof (induction a arbitrary: b)
  case Nil
  show ?case by (cases b) simp_all
next
  case (Cons x a)
  then show ?case by (cases b) auto
qed

lemma compare_eq: "compare_set_of_element a b = 0 \<Longrightarrow> a = b"
proof (induction a arbitrary: b)
  case Nil
  then show ?case by (cases b) simp_all
next
  case (Cons x a)
  then show ?case by (cases b) (auto split: if_splits)
qed

lemma compare_trans:
  "compare_set_of_element a b \<le> 0 \<Longrightarrow> compare_set_of_element b c \<le> 0 \<Longrightarrow> compare_set_of_element a c \<le> 0"
proof (induction a arbitrary: b c)
  case Nil
  show ?case by (cases c) simp_all
next
  case (Cons x a)
  then show ?case by (cases b; cases c) (force split: if_splits)+
qed

interpretation set_of: strict_comparison compare_set_of_element
proof
  fix a b c :: cbs
  show "compare_set_of_element a a = 0" by (rule compare_refl)
  show "compare_set_of_element a b \<le> 0 \<or> compare_set_of_element b a \<le> 0"
    using compare_swap [of a b] by auto
  show "compare_set_of_element a b \<le> 0 \<Longrightarrow> compare_set_of_element b c \<le> 0 \<Longrightarrow> compare_set_of_element a c \<le> 0"
    by (rule compare_trans)
  show "compare_set_of_element a b \<le> 0 \<Longrightarrow> compare_set_of_element b a \<le> 0 \<Longrightarrow> a = b"
    using compare_swap [of a b] compare_eq [of a b] by simp
qed

text \<open>
  The order that DER prescribes for the elements of a SET OF, on its own: the encodings are compared
  as numbers octet by octet, and the end of an encoding comes before every octet.
\<close>

fun octets_le :: "bytes \<Rightarrow> bytes \<Rightarrow> bool" where
  "octets_le [] bs = True"
| "octets_le (a # as) [] = False"
| "octets_le (a # as) (b # bs) = (unat a < unat b \<or> unat a = unat b \<and> octets_le as bs)"

lemma compare_octets_le: "compare_set_of_element a b \<le> 0 \<longleftrightarrow> octets_le a b"
proof (induction a b rule: octets_le.induct)
  case (1 bs)
  show ?case by (cases bs) simp_all
qed (auto simp: word_less_nat_alt)

lemma ordered_octets_le: "ordered_by compare_set_of_element ds \<longleftrightarrow> sorted_wrt octets_le ds"
  by (simp add: ordered_by_def compare_octets_le)

subsection \<open>Rewinding and writing back\<close>

lemma cbb_node_at_last:
  assumes "cbb_abs c (fs @ [(kind, content)])" "length fs = k"
  shows "nd_offset (cbb_node_at k c) + nd_pending_len_len (cbb_node_at k c) = length (frames_buf fs) + psize kind"
    and "cbb_base c = Some b \<Longrightarrow> bb_buf b = frames_buf fs @ replicate (psize kind) 0 @ content"
proof -
  show "cbb_base c = Some b \<Longrightarrow> bb_buf b = frames_buf fs @ replicate (psize kind) 0 @ content"
    using assms(1) by (elim cbb_abs_split) simp
  show "nd_offset (cbb_node_at k c) + nd_pending_len_len (cbb_node_at k c) = length (frames_buf fs) + psize kind"
  proof (cases fs)
    case Nil
    with assms show ?thesis by (auto simp: cbb_abs_def cbb_node_at_def)
  next
    case (Cons f gs)
    with assms obtain root where f: "f = (LenPrefix 0, root)"
      "cbb_chain c = frames_nodes (length root) (gs @ [(kind, content)])"
      by (auto simp: cbb_abs_def)
    have "k = Suc (length gs)" using assms(2) Cons by simp
    then show ?thesis using f Cons by (simp add: cbb_node_at_def frames_nodes_append nth_append)
  qed
qed

lemma CBB_data_last:
  assumes "cbb_abs c (fs @ [(kind, content)])" "length fs = k"
  shows "CBB_data k c = content"
proof -
  obtain b where "cbb_base c = Some b" using assms(1) by (rule cbb_abs_split)
  with cbb_node_at_last [OF assms] show ?thesis by (simp add: CBB_data_def)
qed

lemma cbb_abs_rewind:
  assumes "cbb_abs c (fs @ [(kind, content)])" "length fs = k"
    and n: "n = nd_offset (cbb_node_at k c) + nd_pending_len_len (cbb_node_at k c)"
  defines "c' \<equiv> c\<lparr>cbb_base := map_option (\<lambda>b. b\<lparr>bb_buf := take n (bb_buf b)\<rparr>) (cbb_base c)\<rparr>"
  shows "cbb_abs c' (fs @ [(kind, [])])" "resizable c' = resizable c"
proof -
  obtain b where b: "cbb_base c = Some b" "\<not> bb_error b" "length (bb_buf b) < SIZE_MOD"
    using assms(1) by (rule cbb_abs_split)
  note l = cbb_node_at_last [OF assms(1,2)]
  have buf: "take n (bb_buf b) = frames_buf fs @ replicate (psize kind) 0"
    unfolding n l(1) by (simp add: l(2) [OF b(1)])
  show "cbb_abs c' (fs @ [(kind, [])])"
  proof (cases fs)
    case Nil
    with assms(1) b buf show ?thesis by (auto simp: cbb_abs_def c'_def)
  next
    case (Cons f gs)
    with assms(1) obtain root where f: "f = (LenPrefix 0, root)"
      "cbb_chain c = frames_nodes (length root) (gs @ [(kind, content)])" "0 < psize kind"
      "\<forall>f \<in> set gs. 0 < psize (fst f)"
      by (auto simp: cbb_abs_def)
    have "length (take n (bb_buf b)) < SIZE_MOD" using b(3) by (simp add: min_def)
    with Cons f b buf show ?thesis by (simp add: cbb_abs_def c'_def frames_nodes_append)
  qed
  show "resizable c' = resizable c" using b by (simp add: resizable_def c'_def)
qed

lemma add_children_implements:
  "\<forall>d \<in> set cs. length d < SIZE_MOD \<Longrightarrow>
   implements env (\<lambda>fs. length fs = Suc k) (add_children env k cs) (a_append k (concat cs))"
proof (induction cs)
  case Nil
  show ?case by (rule implements_cong [OF implements_skip]) (auto simp: a_append_top)
next
  case (Cons d cs)
  then have d: "length d < SIZE_MOD" and IH: "implements env (\<lambda>fs. length fs = Suc k) (add_children env k cs) (a_append k (concat cs))"
    by auto
  show ?case
    by (rule implements_cong [OF implements_seq [OF CBB_add_bytes_implements [OF d, of env k] IH]])
       (auto simp: a_append_append dest: a_append_length)
qed

lemma length_le_concat: "d \<in> set cs \<Longrightarrow> length d \<le> length (concat cs)"
  by (induction cs) auto

lemma qsort_few: "length cs < 2 \<Longrightarrow> qsort cmp cs = cs"
  by (cases cs; cases "tl cs") (auto simp: qsort_def)

lemma CBB_flush_asn1_set_of_sound:
  assumes "cbb_abs c fs" "CBB_flush_asn1_set_of env k c = (True, c')"
  obtains gs kind content cs where "a_flush k fs = Some (gs @ [(kind, content)])"
    "length gs = k" "set_of_children content = Some cs"
    "cbb_abs c' (gs @ [(kind, concat (qsort compare_set_of_element cs))])"
proof -
  obtain c1 where c1: "CBB_flush env k c = (True, c1)"
    using assms(2) by (cases "CBB_flush env k c") (auto simp: CBB_flush_asn1_set_of_def and_then_def split: if_splits)
  obtain fs1 where fs1: "a_flush k fs = Some fs1" "cbb_abs c1 fs1"
    using implements_sound [OF CBB_flush_implements TrueI assms(1) c1] by blast
  obtain gs kind content where g: "fs1 = gs @ [(kind, content)]" "length gs = k"
    using a_flush_length [OF fs1(1)] by (cases fs1 rule: rev_cases) (auto simp: prod_eq_iff)
  note d = CBB_data_last [OF fs1(2) [unfolded g(1)] g(2)]
  define n where "n = nd_offset (cbb_node_at k c1) + nd_pending_len_len (cbb_node_at k c1)"
  define c2 where "c2 = c1\<lparr>cbb_base := map_option (\<lambda>b. b\<lparr>bb_buf := take n (bb_buf b)\<rparr>) (cbb_base c1)\<rparr>"
  from assms(2) obtain cs where cs: "set_of_children content = Some cs"
    and c': "length cs < 2 \<and> c' = c1 \<or> add_children env k (qsort compare_set_of_element cs) c2 = (True, c')"
    unfolding CBB_flush_asn1_set_of_def c1
    by (auto simp: d c2_def n_def Let_def split: option.splits if_splits)
  have len: "length d < SIZE_MOD" if "d \<in> set cs" for d
  proof -
    obtain b :: cbb_buffer where "bb_buf b = frames_buf fs1" "length (bb_buf b) < SIZE_MOD"
      by (rule cbb_abs_split [OF fs1(2)])
    then have "length content < SIZE_MOD" using g(1) by simp
    moreover have "length d \<le> length content"
      using length_le_concat [OF that] cs [unfolded set_of_children_iff] by simp
    ultimately show ?thesis by simp
  qed
  show thesis
  proof (rule that [of gs kind content cs])
    show "cbb_abs c' (gs @ [(kind, concat (qsort compare_set_of_element cs))])"
      using c'
    proof
      assume "length cs < 2 \<and> c' = c1"
      then show ?thesis using fs1(2) g(1) cs [unfolded set_of_children_iff] by (simp add: qsort_few)
    next
      assume a: "add_children env k (qsort compare_set_of_element cs) c2 = (True, c')"
      have r: "cbb_abs c2 (gs @ [(kind, [])])"
        unfolding c2_def using cbb_abs_rewind(1) [OF fs1(2) [unfolded g(1)] g(2) n_def] .
      have "implements env (\<lambda>fs. length fs = Suc k) (add_children env k (qsort compare_set_of_element cs))
          (a_append k (concat (qsort compare_set_of_element cs)))"
        by (rule add_children_implements) (simp add: len)
      from implements_sound [OF this _ r a] g(2) show ?thesis
        by (auto simp: a_append_top)
    qed
  qed (use fs1 g cs in simp_all)
qed

end
