(* ===== verification/Unicode.thy ===== *)
theory Unicode
  imports Der_Codec
begin

text \<open>
  The character encodings of \<open>crypto/bytestring/unicode.c\<close>: UTF-8, Latin-1, UCS-2 and UTF-32, one
  code point at a time.
\<close>

definition is_valid_code_point :: "u32 \<Rightarrow> bool" where
  "is_valid_code_point v =
     (if v > 0x10ffff \<or> v AND 0xfffe = 0xfffe \<or> (v \<ge> 0xfdd0 \<and> v \<le> 0xfdef) \<or> (v \<ge> 0xd800 \<and> v \<le> 0xdfff)
      then False else True)"

definition BOTTOM_BITS :: "nat \<Rightarrow> u8" where
  "BOTTOM_BITS n = ucast (push_bit n (1 :: u32) - 1)"

definition TOP_BITS :: "nat \<Rightarrow> u8" where
  "TOP_BITS n = NOT (BOTTOM_BITS (8 - n))"

text \<open>The loop over the \<open>len\<close> continuation bytes.\<close>

fun utf8_rest :: "nat \<Rightarrow> u32 \<Rightarrow> (cbs, u32) cfun" where
  "utf8_rest 0 v cbs = (Some v, cbs)"
| "utf8_rest (Suc len) v cbs = (case CBS_get_u8 cbs of
     (None, cbs') \<Rightarrow> (None, cbs')
   | (Some c, cbs') \<Rightarrow>
       if c AND TOP_BITS 2 \<noteq> TOP_BITS 1 then (None, cbs')
       else utf8_rest len (push_bit 6 v OR ucast (c AND BOTTOM_BITS 6)) cbs')"

definition utf8_multi :: "u32 \<Rightarrow> nat \<Rightarrow> u32 \<Rightarrow> (cbs, u32) cfun" where
  "utf8_multi v len lower_bound cbs = (case utf8_rest len v cbs of
     (None, cbs') \<Rightarrow> (None, cbs')
   | (Some v, cbs') \<Rightarrow>
       if \<not> is_valid_code_point v \<or> v < lower_bound then (None, cbs') else (Some v, cbs'))"

definition cbs_get_utf8 :: "(cbs, u32) cfun" where
  "cbs_get_utf8 cbs = (case CBS_get_u8 cbs of
     (None, cbs') \<Rightarrow> (None, cbs')
   | (Some c, cbs') \<Rightarrow>
       if c \<le> 0x7f then (Some (ucast c), cbs')
       else if c AND TOP_BITS 3 = TOP_BITS 2 then utf8_multi (ucast (c AND BOTTOM_BITS 5)) 1 0x80 cbs'
       else if c AND TOP_BITS 4 = TOP_BITS 3 then utf8_multi (ucast (c AND BOTTOM_BITS 4)) 2 0x800 cbs'
       else if c AND TOP_BITS 5 = TOP_BITS 4 then utf8_multi (ucast (c AND BOTTOM_BITS 3)) 3 0x10000 cbs'
       else (None, cbs'))"

definition cbs_get_latin1 :: "(cbs, u32) cfun" where
  "cbs_get_latin1 cbs = (case CBS_get_u8 cbs of
     (None, cbs') \<Rightarrow> (None, cbs') | (Some c, cbs') \<Rightarrow> (Some (ucast c), cbs'))"

definition cbs_get_ucs2_be :: "(cbs, u32) cfun" where
  "cbs_get_ucs2_be cbs = (case CBS_get_u16 cbs of
     (None, cbs') \<Rightarrow> (None, cbs')
   | (Some c, cbs') \<Rightarrow> if \<not> is_valid_code_point (ucast c) then (None, cbs') else (Some (ucast c), cbs'))"

definition cbs_get_utf32_be :: "(cbs, u32) cfun" where
  "cbs_get_utf32_be cbs = (case CBS_get_u32 cbs of
     (None, cbs') \<Rightarrow> (None, cbs')
   | (Some c, cbs') \<Rightarrow> if is_valid_code_point c then (Some c, cbs') else (None, cbs'))"

definition cbb_get_utf8_len :: "u32 \<Rightarrow> nat" where
  "cbb_get_utf8_len u = (if u \<le> 0x7f then 1 else if u \<le> 0x7ff then 2 else if u \<le> 0xffff then 3 else 4)"

text \<open>The byte \<open>bits | x\<close> that is passed as a \<open>uint8_t\<close>.\<close>

definition lead :: "u8 \<Rightarrow> u32 \<Rightarrow> u8" where
  "lead bits x = ucast (ucast bits OR x)"

definition cbb_add_utf8 :: "mem_env \<Rightarrow> u32 \<Rightarrow> nat \<Rightarrow> cbb \<Rightarrow> bool \<times> cbb" where
  "cbb_add_utf8 env u k cbb =
     (let b6 = ucast (BOTTOM_BITS 6) :: u32 in
      if \<not> is_valid_code_point u then (False, cbb)
      else if u \<le> 0x7f then CBB_add_u8 env (ucast u) k cbb
      else if u \<le> 0x7ff then
        and_then (CBB_add_u8 env (lead (TOP_BITS 2) (drop_bit 6 u)) k cbb)
          (CBB_add_u8 env (lead (TOP_BITS 1) (u AND b6)) k)
      else if u \<le> 0xffff then
        and_then (and_then (CBB_add_u8 env (lead (TOP_BITS 3) (drop_bit 12 u)) k cbb)
          (CBB_add_u8 env (lead (TOP_BITS 1) (drop_bit 6 u AND b6)) k))
          (CBB_add_u8 env (lead (TOP_BITS 1) (u AND b6)) k)
      else if u \<le> 0x10ffff then
        and_then (and_then (and_then (CBB_add_u8 env (lead (TOP_BITS 4) (drop_bit 18 u)) k cbb)
          (CBB_add_u8 env (lead (TOP_BITS 1) (drop_bit 12 u AND b6)) k))
          (CBB_add_u8 env (lead (TOP_BITS 1) (drop_bit 6 u AND b6)) k))
          (CBB_add_u8 env (lead (TOP_BITS 1) (u AND b6)) k)
      else (False, cbb))"

definition cbb_add_latin1 :: "mem_env \<Rightarrow> u32 \<Rightarrow> nat \<Rightarrow> cbb \<Rightarrow> bool \<times> cbb" where
  "cbb_add_latin1 env u k cbb = (if u \<le> 0xff then CBB_add_u8 env (ucast u) k cbb else (False, cbb))"

definition cbb_add_ucs2_be :: "mem_env \<Rightarrow> u32 \<Rightarrow> nat \<Rightarrow> cbb \<Rightarrow> bool \<times> cbb" where
  "cbb_add_ucs2_be env u k cbb =
     (if u \<le> 0xffff \<and> is_valid_code_point u then CBB_add_u16 env (ucast u) k cbb else (False, cbb))"

definition cbb_add_utf32_be :: "mem_env \<Rightarrow> u32 \<Rightarrow> nat \<Rightarrow> cbb \<Rightarrow> bool \<times> cbb" where
  "cbb_add_utf32_be env u k cbb =
     (if is_valid_code_point u then CBB_add_u32 env u k cbb else (False, cbb))"

subsection \<open>UTF-8 as arithmetic\<close>

text \<open>The bytes of a code point, by division.\<close>

definition cont :: "nat \<Rightarrow> u8" where
  "cont n = of_nat (128 + n mod 64)"

definition utf8 :: "nat \<Rightarrow> bytes" where
  "utf8 n =
     (if n < 0x80 then [of_nat n]
      else if n < 0x800 then [of_nat (192 + n div 64), cont n]
      else if n < 0x10000 then [of_nat (224 + n div 4096), cont (n div 64), cont n]
      else [of_nat (240 + n div 262144), cont (n div 4096), cont (n div 64), cont n])"

lemma top_bits: "TOP_BITS 1 = 0x80" "TOP_BITS (Suc 0) = 0x80" "TOP_BITS 2 = 0xc0" "TOP_BITS 3 = 0xe0" "TOP_BITS 4 = 0xf0" "TOP_BITS 5 = 0xf8"
  by (simp_all add: TOP_BITS_def BOTTOM_BITS_def)

lemma bottom_bits: "BOTTOM_BITS 6 = 0x3f" "BOTTOM_BITS 5 = 0x1f" "BOTTOM_BITS 4 = 0xf" "BOTTOM_BITS 3 = 7"
  by (simp_all add: BOTTOM_BITS_def)


lemma and_high_bits:
  fixes c :: u8
  shows "unat (c AND 0xc0) = unat c div 64 * 64" "unat (c AND 0xe0) = unat c div 32 * 32"
    "unat (c AND 0xf0) = unat c div 16 * 16" "unat (c AND 0xf8) = unat c div 8 * 8"
proof -
  have h: "unat (c AND NOT (mask m)) = unat c div 2 ^ m * 2 ^ m" for m
  proof -
    have "c AND NOT (mask m) = push_bit m (drop_bit m c)" by (rule bit_word_eqI) (auto simp: bit_simps)
    moreover have "unat c div 2 ^ m * 2 ^ m < 2 ^ 8"
      by (rule le_less_trans [OF div_times_less_eq_dividend]) simp
    ultimately show ?thesis by (simp add: word_nat)
  qed
  have n: "NOT (mask 6 :: u8) = 0xc0" "NOT (mask 5 :: u8) = 0xe0" "NOT (mask 4 :: u8) = 0xf0" "NOT (mask 3 :: u8) = 0xf8"
    by (simp_all add: mask_numeral)
  show "unat (c AND 0xc0) = unat c div 64 * 64" using h [of 6, unfolded n] by simp
  show "unat (c AND 0xe0) = unat c div 32 * 32" using h [of 5, unfolded n] by simp
  show "unat (c AND 0xf0) = unat c div 16 * 16" using h [of 4, unfolded n] by simp
  show "unat (c AND 0xf8) = unat c div 8 * 8" using h [of 3, unfolded n] by simp
qed

lemma and_low_bits:
  fixes c :: u8
  shows "unat (c AND 0x3f) = unat c mod 64" "unat (c AND 0x1f) = unat c mod 32"
    "unat (c AND 0xf) = unat c mod 16" "unat (c AND 7) = unat c mod 8"
proof -
  have h: "unat (c AND mask m) = unat c mod 2 ^ m" for m
    by (simp add: unat_take_bit_mod flip: take_bit_eq_mask)
  show "unat (c AND 0x3f) = unat c mod 64" using h [of 6] by (simp add: mask_numeral)
  show "unat (c AND 0x1f) = unat c mod 32" using h [of 5] by (simp add: mask_numeral)
  show "unat (c AND 0xf) = unat c mod 16" using h [of 4] by (simp add: mask_numeral)
  show "unat (c AND 7) = unat c mod 8" using h [of 3] by (simp add: mask_numeral)
qed

lemma high_bits_iff:
  fixes c :: u8
  shows "c AND 0xc0 = 0x80 \<longleftrightarrow> 128 \<le> unat c \<and> unat c < 192"
    "c AND 0xe0 = 0xc0 \<longleftrightarrow> 192 \<le> unat c \<and> unat c < 224"
    "c AND 0xf0 = 0xe0 \<longleftrightarrow> 224 \<le> unat c \<and> unat c < 240"
    "c AND 0xf8 = 0xf0 \<longleftrightarrow> 240 \<le> unat c \<and> unat c < 248"
  using nat_div_eq_iff [of 64 "unat c" 2] nat_div_eq_iff [of 32 "unat c" 6]
    nat_div_eq_iff [of 16 "unat c" 14] nat_div_eq_iff [of 8 "unat c" 30]
  unfolding word_unat_eq_iff and_high_bits by auto

text \<open>The last \<open>len\<close> continuation bytes of a code point.\<close>

fun conts :: "nat \<Rightarrow> nat \<Rightarrow> bytes" where
  "conts 0 n = []"
| "conts (Suc len) n = cont (n div 64 ^ len) # conts len n"

lemma lead_iff:
  fixes x :: nat
  assumes "m dvd lo" "q < m"
  shows "lo \<le> x \<and> x < lo + m \<and> q = x mod m \<longleftrightarrow> x = lo + q"
proof -
  obtain j where lo: "lo = m * j" using assms(1) by (elim dvdE)
  have s: "(lo + y) mod m = y mod m" for y by (simp add: lo)
  show ?thesis
  proof
    assume x: "lo \<le> x \<and> x < lo + m \<and> q = x mod m"
    then have "q = (lo + (x - lo)) mod m" by simp
    also have "\<dots> = x - lo" unfolding s using x by (intro mod_less) linarith
    finally show "x = lo + q" using x by simp
  qed (use assms s in auto)
qed

lemma cont_iff: "c = cont n \<longleftrightarrow> 128 \<le> unat c \<and> unat c < 192 \<and> n mod 64 = unat c mod 64"
proof -
  have "unat (cont n) = 128 + n mod 64" unfolding cont_def unat_byte_of_nat by simp
  then show ?thesis using lead_iff [of 64 128 "n mod 64" "unat c"] by (simp add: word_unat_eq_iff)
qed

lemma utf8_rest_iff:
  "(unat v + 1) * 64 ^ len \<le> 2 ^ 32 \<Longrightarrow>
   utf8_rest len v cbs = (Some w, rest) \<longleftrightarrow> unat w div 64 ^ len = unat v \<and> cbs = conts len (unat w) @ rest"
proof (induction len arbitrary: v cbs)
  case 0
  show ?case by (auto simp: word_unat_eq_iff)
next
  case (Suc len)
  show ?case
  proof (cases cbs)
    case (Cons c cs)
    define v' where "v' = push_bit 6 v OR (ucast (c AND BOTTOM_BITS 6) :: u32)"
    have m: "unat (c AND BOTTOM_BITS 6) = unat c mod 64" by (simp only: bottom_bits and_low_bits)
    have "(unat v + 1) * 64 \<le> (unat v + 1) * 64 ^ Suc len" by (rule mult_le_mono2) simp
    then have vb: "(unat v + 1) * 64 \<le> 2 ^ 32" using Suc(2) by linarith
    have "v' = v * 2 ^ 6 + ucast (c AND BOTTOM_BITS 6)"
      unfolding v'_def by (rule push_or_ucast) (simp add: m)
    then have v': "unat v' = unat v * 64 + unat c mod 64"
      using vb m by (simp add: unat_word_ariths)
    have "(unat v' + 1) * 64 ^ len \<le> (unat v + 1) * 64 * 64 ^ len"
      unfolding v' by (rule mult_le_mono1) simp
    then have "(unat v' + 1) * 64 ^ len \<le> 2 ^ 32" using Suc(2) unfolding power_Suc mult.assoc by linarith
    from Suc(1) [OF this] have IH: "utf8_rest len v' cs = (Some w, rest) \<longleftrightarrow> unat w div 64 ^ len = unat v' \<and> cs = conts len (unat w) @ rest" .
    define y where "y = unat w div 64 ^ len"
    have y: "y = unat v * 64 + unat c mod 64 \<longleftrightarrow> y div 64 = unat v \<and> y mod 64 = unat c mod 64"
      by (rule eq_divmod_iff) simp
    have "utf8_rest (Suc len) v cbs = (if 128 \<le> unat c \<and> unat c < 192 then utf8_rest len v' cs else (None, cs))"
      by (simp add: Cons v'_def top_bits high_bits_iff)
    moreover have "unat w div 64 ^ Suc len = y div 64" by (simp only: y_def power_Suc2 div_mult2_eq)
    ultimately show ?thesis
      using IH y by (auto simp: Cons y_def [symmetric] v' cont_iff)
  qed simp
qed


subsection \<open>UTF-8 is canonical\<close>

lemma utf8_multi_iff:
  assumes "(unat v + 1) * 64 ^ len \<le> 2 ^ 32"
  shows "utf8_multi v len lb cbs = (Some w, rest) \<longleftrightarrow>
    is_valid_code_point w \<and> lb \<le> w \<and> unat w div 64 ^ len = unat v \<and> cbs = conts len (unat w) @ rest"
proof -
  have "utf8_multi v len lb cbs = (Some w, rest) \<longleftrightarrow>
      utf8_rest len v cbs = (Some w, rest) \<and> is_valid_code_point w \<and> lb \<le> w"
    by (auto simp: utf8_multi_def not_less split: prod.splits option.splits)
  then show ?thesis using utf8_rest_iff [OF assms] by blast
qed

lemma valid_code_point_bound: "is_valid_code_point w \<Longrightarrow> unat w < 0x110000"
  by (auto simp: is_valid_code_point_def word_less_nat_alt split: if_splits)

lemma ascii_valid: "unat w < 0x80 \<Longrightarrow> is_valid_code_point w"
proof -
  assume w: "unat w < 0x80"
  have "unat (w AND 0xfffe) \<le> unat w" using word_and_le2 [of w "0xfffe"] by (simp add: word_le_nat_alt)
  then have "w AND 0xfffe \<noteq> 0xfffe" using w by (auto simp: word_unat_eq_iff)
  then show ?thesis using w by (simp add: is_valid_code_point_def word_le_nat_alt word_less_nat_alt)
qed

text \<open>One line for each length, in terms of the leading byte.\<close>

lemma utf8_Cons:
  "n < 0x110000 \<Longrightarrow> c # cs = utf8 (n) @ rest \<longleftrightarrow>
    (n < 0x80 \<and> unat c = n \<and> cs = rest) \<or>
    (0x80 \<le> n \<and> 192 \<le> unat c \<and> unat c < 224 \<and> n div 64 = unat c mod 32 \<and> cs = conts 1 (n) @ rest) \<or>
    (0x800 \<le> n \<and> 224 \<le> unat c \<and> unat c < 240 \<and> n div 4096 = unat c mod 16 \<and> cs = conts 2 (n) @ rest) \<or>
    (0x10000 \<le> n \<and> 240 \<le> unat c \<and> unat c < 248 \<and> n div 262144 = unat c mod 8 \<and> cs = conts 3 (n) @ rest)"
proof -
  assume n: "n < 0x110000"
  have cb: "c = of_nat m \<longleftrightarrow> unat c = m" if "m < 256" for m using that by (auto simp: word_unat_eq_iff)
  consider "n < 0x80" | "0x80 \<le> n" "n < 0x800" | "0x800 \<le> n" "n < 0x10000" | "0x10000 \<le> n" by linarith
  then show ?thesis
  proof cases
    case 1
    then show ?thesis by (simp add: utf8_def cb)
  next
    case 2
    then have d: "n div 64 < 32" by (simp add: div_less_iff_less_mult)
    have "c # cs = utf8 n @ rest \<longleftrightarrow> unat c = 192 + n div 64 \<and> cs = conts 1 n @ rest"
      using 2 d cb [of "192 + n div 64"] by (simp add: utf8_def del: of_nat_add)
    then show ?thesis using 2 lead_iff [of 32 192 "n div 64" "unat c"] d by auto
  next
    case 3
    then have d: "n div 4096 < 16" "\<not> n div 64 < 32" by (simp_all add: div_less_iff_less_mult)
    have "n div 64 \<noteq> unat c mod 32" using d(2) by (metis mod_less_divisor zero_less_numeral)
    moreover have "c # cs = utf8 n @ rest \<longleftrightarrow> unat c = 224 + n div 4096 \<and> cs = conts 2 n @ rest"
      using 3 d cb [of "224 + n div 4096"] by (simp add: utf8_def numeral_2_eq_2 del: of_nat_add)
    ultimately show ?thesis using 3 lead_iff [of 16 224 "n div 4096" "unat c"] d by auto
  next
    case 4
    then have d: "n div 262144 < 8" "\<not> n div 64 < 32" "\<not> n div 4096 < 16"
      using n by (simp_all add: div_less_iff_less_mult)
    have "n div 64 \<noteq> unat c mod 32" "n div 4096 \<noteq> unat c mod 16"
      using d(2,3) by (metis mod_less_divisor zero_less_numeral)+
    moreover have "c # cs = utf8 n @ rest \<longleftrightarrow> unat c = 240 + n div 262144 \<and> cs = conts 3 n @ rest"
      using 4 d cb [of "240 + n div 262144"] by (simp add: utf8_def numeral_3_eq_3 del: of_nat_add)
    ultimately show ?thesis using 4 lead_iff [of 8 240 "n div 262144" "unat c"] d by auto
  qed
qed

lemma cbs_get_utf8_iff: "cbs_get_utf8 cbs = (Some w, rest) \<longleftrightarrow> is_valid_code_point w \<and> cbs = utf8 (unat w) @ rest"
proof (cases cbs)
  case Nil
  then show ?thesis by (auto simp: cbs_get_utf8_def utf8_def)
next
  case (Cons c cs)
  have u: "unat (ucast (c AND BOTTOM_BITS 5) :: u32) = unat c mod 32"
    "unat (ucast (c AND BOTTOM_BITS 4) :: u32) = unat c mod 16"
    "unat (ucast (c AND BOTTOM_BITS 3) :: u32) = unat c mod 8"
    by (simp_all add: bottom_bits and_low_bits)
  have "unat c mod 32 < 32" "unat c mod 16 < 16" "unat c mod 8 < 8" by simp_all
  then have b: "(unat (ucast (c AND BOTTOM_BITS 5) :: u32) + 1) * 64 ^ 1 \<le> 2 ^ 32"
    "(unat (ucast (c AND BOTTOM_BITS 4) :: u32) + 1) * 64 ^ 2 \<le> 2 ^ 32"
    "(unat (ucast (c AND BOTTOM_BITS 3) :: u32) + 1) * 64 ^ 3 \<le> 2 ^ 32"
    unfolding u by simp_all
  note m = utf8_multi_iff [OF b(1), unfolded u] utf8_multi_iff [OF b(2), unfolded u] utf8_multi_iff [OF b(3), unfolded u]
  have get: "cbs_get_utf8 cbs = (if unat c < 128 then (Some (ucast c), cs)
      else if 192 \<le> unat c \<and> unat c < 224 then utf8_multi (ucast (c AND BOTTOM_BITS 5)) 1 0x80 cs
      else if 224 \<le> unat c \<and> unat c < 240 then utf8_multi (ucast (c AND BOTTOM_BITS 4)) 2 0x800 cs
      else if 240 \<le> unat c \<and> unat c < 248 then utf8_multi (ucast (c AND BOTTOM_BITS 3)) 3 0x10000 cs
      else (None, cs))"
    by (simp add: Cons cbs_get_utf8_def top_bits high_bits_iff word_le_nat_alt less_Suc_eq_le)
  have a: "ucast c = w \<longleftrightarrow> unat c = unat w" by (simp add: word_unat_eq_iff)
  have lb: "0x80 \<le> w \<longleftrightarrow> 0x80 \<le> unat w" "0x800 \<le> w \<longleftrightarrow> 0x800 \<le> unat w" "0x10000 \<le> w \<longleftrightarrow> 0x10000 \<le> unat w"
    by (simp_all add: word_le_nat_alt)
  have r: "is_valid_code_point w \<and> cbs = utf8 (unat w) @ rest \<longleftrightarrow> is_valid_code_point w \<and>
    ((unat w < 0x80 \<and> unat c = unat w \<and> cs = rest) \<or>
    (0x80 \<le> unat w \<and> 192 \<le> unat c \<and> unat c < 224 \<and> unat w div 64 = unat c mod 32 \<and> cs = conts 1 (unat w) @ rest) \<or>
    (0x800 \<le> unat w \<and> 224 \<le> unat c \<and> unat c < 240 \<and> unat w div 4096 = unat c mod 16 \<and> cs = conts 2 (unat w) @ rest) \<or>
    (0x10000 \<le> unat w \<and> 240 \<le> unat c \<and> unat c < 248 \<and> unat w div 262144 = unat c mod 8 \<and> cs = conts 3 (unat w) @ rest))"
    unfolding Cons using utf8_Cons [OF valid_code_point_bound, of w c cs rest] by blast
  consider "unat c < 128" | "128 \<le> unat c" "unat c < 192" | "192 \<le> unat c" "unat c < 224"
    | "224 \<le> unat c" "unat c < 240" | "240 \<le> unat c" "unat c < 248" | "248 \<le> unat c" by linarith
  moreover have r': "is_valid_code_point w \<and> cbs = utf8 (unat w) @ rest \<longleftrightarrow> is_valid_code_point w \<and>
    ((0x80 \<le> unat w \<and> 192 \<le> unat c \<and> unat c < 224 \<and> unat w div 64 = unat c mod 32 \<and> cs = conts 1 (unat w) @ rest) \<or>
    (0x800 \<le> unat w \<and> 224 \<le> unat c \<and> unat c < 240 \<and> unat w div 4096 = unat c mod 16 \<and> cs = conts 2 (unat w) @ rest) \<or>
    (0x10000 \<le> unat w \<and> 240 \<le> unat c \<and> unat c < 248 \<and> unat w div 262144 = unat c mod 8 \<and> cs = conts 3 (unat w) @ rest))"
    if "128 \<le> unat c"
  proof -
    have "\<not> (unat w < 0x80 \<and> unat c = unat w \<and> cs = rest)" using that by linarith
    then show ?thesis unfolding r by blast
  qed
  ultimately show ?thesis
  proof cases
    case 1
    then have "(Some (ucast c), cs) = (Some w, rest) \<longleftrightarrow>
        is_valid_code_point w \<and> unat w < 0x80 \<and> unat c = unat w \<and> cs = rest"
      unfolding prod.inject option.inject a using ascii_valid [of w] by metis
    then show ?thesis unfolding r get using 1 by simp
  next
    case 2
    then show ?thesis unfolding r' [OF 2(1)] get by simp
  next
    case 3
    then have "128 \<le> unat c" by linarith
    from r' [OF this] show ?thesis unfolding get using 3 by (simp add: m(1) lb del: conts.simps One_nat_def)
  next
    case 4
    then have "128 \<le> unat c" by linarith
    from r' [OF this] show ?thesis unfolding get using 4 by (simp add: m(2) lb del: conts.simps One_nat_def)
  next
    case 5
    then have "128 \<le> unat c" by linarith
    from r' [OF this] show ?thesis unfolding get using 5 by (simp add: m(3) lb del: conts.simps One_nat_def)
  next
    case 6
    then have "128 \<le> unat c" by linarith
    from r' [OF this] show ?thesis unfolding get using 6 by simp
  qed
qed

lemma utf8_nonempty: "utf8 n \<noteq> []"
  by (simp add: utf8_def)

interpretation utf8: progress_codec is_valid_code_point "\<lambda>w. utf8 (unat w)" cbs_get_utf8
  by unfold_locales (simp_all only: cbs_get_utf8_iff utf8_nonempty, simp_all)

lemma latin1_iff: "cbs_get_latin1 cbs = (Some w, rest) \<longleftrightarrow> unat w < 256 \<and> cbs = of_nat (unat w) # rest"
proof -
  have "ucast c = w \<longleftrightarrow> unat w < 256 \<and> c = of_nat (unat w)" for c :: u8
    unfolding word_unat_eq_iff unat_ucast_u8_u32 unat_byte_of_nat by (metis mod_less unat_u8_less)
  then show ?thesis by (cases cbs) (auto simp: cbs_get_latin1_def)
qed

interpretation latin1: progress_codec "\<lambda>w. unat w < 256" "\<lambda>w. [of_nat (unat w)]" cbs_get_latin1
  by unfold_locales (simp_all only: latin1_iff, simp_all)

interpretation ucs2: progress_codec "\<lambda>w. unat w < 0x10000 \<and> is_valid_code_point w" "\<lambda>w. be_bytes 2 (unat w)" cbs_get_ucs2_be
proof
  fix w :: u32 and bs rest :: bytes
  show "cbs_get_ucs2_be (be_bytes 2 (unat w) @ rest) = (Some w, rest)" if w: "unat w < 0x10000 \<and> is_valid_code_point w"
  proof -
    have c: "unat (ucast w :: u16) = unat w" using w by (simp add: word_nat)
    then have "ucast (ucast w :: u16) = w" by (simp add: word_unat_eq_iff word_nat)
    then show ?thesis using u16.dec_enc [of "ucast w" rest] w by (simp add: cbs_get_ucs2_be_def c)
  qed
  assume "cbs_get_ucs2_be bs = (Some w, rest)"
  then obtain c where "CBS_get_u16 bs = (Some c, rest)" "w = ucast c" "is_valid_code_point w"
    by (auto simp: cbs_get_ucs2_be_def split: prod.splits option.splits if_splits)
  then show "(unat w < 0x10000 \<and> is_valid_code_point w) \<and> bs = be_bytes 2 (unat w) @ rest"
    using unat_u16_less [of c] by (simp add: u16.dec_iff unat_ucast_mod mod_less del: unat_u16_less)
qed simp

lemma utf32_iff: "cbs_get_utf32_be cbs = (Some w, rest) \<longleftrightarrow> is_valid_code_point w \<and> cbs = be_bytes 4 (unat w) @ rest"
proof -
  have "cbs_get_utf32_be cbs = (Some w, rest) \<longleftrightarrow> CBS_get_u32 cbs = (Some w, rest) \<and> is_valid_code_point w"
    by (auto simp: cbs_get_utf32_be_def split: prod.splits option.splits)
  then show ?thesis using u32.dec_iff by blast
qed

interpretation utf32: progress_codec is_valid_code_point "\<lambda>w. be_bytes 4 (unat w)" cbs_get_utf32_be
  by unfold_locales (simp_all only: utf32_iff, simp_all)


subsection \<open>The writers\<close>

lemma lead_nat:
  assumes "bits = of_nat (hi * 2 ^ j)" "hi * 2 ^ j + 2 ^ j \<le> 256" "unat x < 2 ^ j"
  shows "lead bits x = of_nat (hi * 2 ^ j + unat x)"
proof -
  have b: "hi * 2 ^ j < 256" using assms(2) zero_less_power [of "2 :: nat" j] by linarith
  then have "unat bits = hi * 2 ^ j" unfolding assms(1) unat_byte_of_nat by simp
  moreover have "hi \<le> hi * 2 ^ j" by simp
  then have "hi < 256" using b by (rule le_less_trans)
  ultimately have "(ucast bits :: u32) = push_bit j (of_nat hi)"
    using b by (simp add: word_unat_eq_iff word_nat unat_of_nat)
  then have "(ucast bits :: u32) OR x = of_nat hi * 2 ^ j + x"
    using push_or_ucast [OF assms(3), of "of_nat hi :: u32"] by (simp only: ucast_id)
  then have "lead bits x = ucast (of_nat (hi * 2 ^ j + unat x) :: u32)" by (simp add: lead_def)
  also have "\<dots> = of_nat (hi * 2 ^ j + unat x)"
    using assms by (simp add: word_unat_eq_iff word_nat unat_of_nat del: of_nat_add)
  finally show ?thesis .
qed

lemma lead_cont: "lead (TOP_BITS 1) (x AND ucast (BOTTOM_BITS 6)) = cont (unat x)"
proof -
  have "x AND ucast (BOTTOM_BITS 6) = take_bit 6 x" by (simp add: bottom_bits take_bit_eq_mask mask_numeral)
  then have "unat (x AND ucast (BOTTOM_BITS 6)) = unat x mod 64" by (simp add: word_nat)
  then show ?thesis using lead_nat [of "TOP_BITS 1" 2 6 "x AND ucast (BOTTOM_BITS 6)"]
    by (simp add: top_bits cont_def)
qed

lemma lead_first:
  assumes "unat x < 2 ^ (7 - n)" "n \<in> {2, 3, 4}"
  shows "lead (TOP_BITS n) x = of_nat (256 - 2 ^ (8 - n) + unat x)"
proof -
  consider "n = 2" | "n = 3" | "n = 4" using assms(2) by blast
  then show ?thesis
  proof cases
    case 1
    then show ?thesis using lead_nat [of "TOP_BITS n" 3 6 x] assms(1) by (simp add: top_bits)
  next
    case 2
    then show ?thesis using lead_nat [of "TOP_BITS n" 7 5 x] assms(1) by (simp add: top_bits)
  next
    case 3
    then show ?thesis using lead_nat [of "TOP_BITS n" 15 4 x] assms(1) by (simp add: top_bits)
  qed
qed

text \<open>The bytes as the writer computes them.\<close>

definition utf8_bytes :: "u32 \<Rightarrow> bytes" where
  "utf8_bytes u = (let b6 = ucast (BOTTOM_BITS 6) :: u32 in
     if u \<le> 0x7f then [ucast u]
     else if u \<le> 0x7ff then [lead (TOP_BITS 2) (drop_bit 6 u), lead (TOP_BITS 1) (u AND b6)]
     else if u \<le> 0xffff then
       [lead (TOP_BITS 3) (drop_bit 12 u), lead (TOP_BITS 1) (drop_bit 6 u AND b6), lead (TOP_BITS 1) (u AND b6)]
     else [lead (TOP_BITS 4) (drop_bit 18 u), lead (TOP_BITS 1) (drop_bit 12 u AND b6),
           lead (TOP_BITS 1) (drop_bit 6 u AND b6), lead (TOP_BITS 1) (u AND b6)])"

lemma utf8_bytes_eq:
  assumes "is_valid_code_point u"
  shows "utf8_bytes u = utf8 (unat u)"
proof -
  have u: "unat u < 0x110000" using assms by (rule valid_code_point_bound)
  have n: "u \<le> 0x7f \<longleftrightarrow> unat u < 0x80" "u \<le> 0x7ff \<longleftrightarrow> unat u < 0x800" "u \<le> 0xffff \<longleftrightarrow> unat u < 0x10000"
    by (auto simp: word_le_nat_alt)
  have a: "unat u < 0x80 \<Longrightarrow> ucast u = (of_nat (unat u) :: u8)" by (simp add: word_unat_eq_iff word_nat)
  have 2: "unat u < 0x800 \<Longrightarrow> lead (TOP_BITS 2) (drop_bit 6 u) = of_nat (192 + unat u div 64)"
    using lead_first [of "drop_bit 6 u" 2] by (simp add: word_nat div_less_iff_less_mult)
  have 3: "unat u < 0x10000 \<Longrightarrow> lead (TOP_BITS 3) (drop_bit 12 u) = of_nat (224 + unat u div 4096)"
    using lead_first [of "drop_bit 12 u" 3] by (simp add: word_nat div_less_iff_less_mult)
  have 4: "lead (TOP_BITS 4) (drop_bit 18 u) = of_nat (240 + unat u div 262144)"
    using lead_first [of "drop_bit 18 u" 4] u by (simp add: word_nat div_less_iff_less_mult)
  show ?thesis
    unfolding utf8_bytes_def utf8_def Let_def n lead_cont
    using a 2 3 4 by (simp add: word_nat del: of_nat_add)
qed

lemma cbb_add_utf8_implements:
  "implements env (\<lambda>_. True) (cbb_add_utf8 env u k)
     (\<lambda>fs. if is_valid_code_point u then a_append k (utf8 (unat u)) fs else None)"
proof (cases "is_valid_code_point u")
  case False
  then show ?thesis by (simp add: implements_def cbb_add_utf8_def Let_def)
next
  case True
  define b6 where "b6 = (ucast (BOTTOM_BITS 6) :: u32)"
  have le: "u \<le> 0x10ffff" using True by (auto simp: is_valid_code_point_def not_less split: if_splits)
  note w = CBB_add_u8_implements [of env _ k]
  have 1: "implements env (\<lambda>_. True) (CBB_add_u8 env a k) (a_append k [a])" for a by (rule w)
  have 2: "implements env (\<lambda>_. True) (\<lambda>c. and_then (CBB_add_u8 env a k c) (CBB_add_u8 env b k)) (a_append k [a, b])" for a b
    by (rule implements_cong [OF implements_seq [OF 1 [of a] 1 [of b]]]) (simp_all add: a_append_append)
  have 3: "implements env (\<lambda>_. True) (\<lambda>c. and_then (and_then (CBB_add_u8 env a k c) (CBB_add_u8 env b k)) (CBB_add_u8 env d k))
      (a_append k [a, b, d])" for a b d
    by (rule implements_cong [OF implements_seq [OF 2 [of a b] 1 [of d]]]) (simp_all add: a_append_append)
  have 4: "implements env (\<lambda>_. True) (\<lambda>c. and_then (and_then (and_then (CBB_add_u8 env a k c) (CBB_add_u8 env b k))
      (CBB_add_u8 env d k)) (CBB_add_u8 env e k)) (a_append k [a, b, d, e])" for a b d e
    by (rule implements_cong [OF implements_seq [OF 3 [of a b d] 1 [of e]]]) (simp_all add: a_append_append)
  have "implements env (\<lambda>_. True) (cbb_add_utf8 env u k) (a_append k (utf8_bytes u))"
    unfolding cbb_add_utf8_def utf8_bytes_def Let_def b6_def [symmetric] using True le 1 2 3 4 by simp
  then show ?thesis using True by (simp add: utf8_bytes_eq)
qed

end
