(* ===== verification/Ber.thy ===== *)
theory Ber
  imports Der_Codec
begin

text \<open>
  \<open>crypto/bytestring/ber.c\<close>: finding BER in an input and converting it to DER, and implicitly
  tagged strings; and \<open>CBB_finish_i2d\<close> of \<open>asn1_compat.c\<close>.
\<close>

subsection \<open>Definitions\<close>

definition kMaxDepth :: nat where "kMaxDepth = 2048"

text \<open>The tags of the \<open>switch\<close>: OCTETSTRING, UTF8STRING and 0x12 to 0x1e without times.\<close>

definition is_string_type :: "u32 \<Rightarrow> bool" where
  "is_string_type tag =
     (tag AND NOT CBS_ASN1_CONSTRUCTED \<in>
        {0x4, 0xc, 0x12, 0x13, 0x14, 0x15, 0x16, 0x19, 0x1a, 0x1b, 0x1c, 0x1e})"

lemma ber_element_split:
  assumes "cbs_get_any_asn1_element ber cbs = (Some e, rest)"
  shows "cbs = elt_out e @ rest" "elt_out e \<noteq> []" "0 < elt_header_len e"
proof -
  obtain tag header where t: "parse_asn1_tag cbs = (Some tag, header)"
    using assms by (auto simp: cbs_get_any_asn1_element_def split: prod.splits option.splits)
  then obtain lb header' where l: "header = lb # header'"
    using assms by (cases header) (auto simp: cbs_get_any_asn1_element_def)
  have "cbs = der_tag tag @ header" using t by (simp add: parse_asn1_tag_iff)
  define hl where "hl = length (der_tag tag) + 1"
  have cl: "length cbs - length header' = hl" using \<open>cbs = _\<close> l by (simp add: hl_def)
  have hl: "0 < hl" "hl \<le> 7" using length_der_tag [of tag] by (simp_all add: hl_def)
  have u8: "CBS_get_u8 header = (Some lb, header')" by (simp add: l get_u8_iff)
  obtain n h b where n: "get_element cbs n tag h b = (Some e, rest)" "0 < n" "0 < h"
  proof (cases "lb AND 0x80 = 0")
    case True
    with assms have "get_element cbs (unat lb + hl) tag hl False = (Some e, rest)"
      by (simp add: cbs_get_any_asn1_element_def t u8 CBS_len_def cl)
    with that hl show thesis by simp
  next
    case False
    define nb where "nb = unat (lb AND 0x7f)"
    show thesis
    proof (cases "ber \<and> tag AND CBS_ASN1_CONSTRUCTED \<noteq> 0 \<and> nb = 0")
      case True
      with assms False have "get_element cbs hl tag hl True = (Some e, rest)"
        by (simp add: cbs_get_any_asn1_element_def t u8 CBS_len_def cl nb_def)
      with that hl show thesis by simp
    next
      case ni: False
      from assms False ni obtain v h' b where v: "nb \<le> 4" "cbs_get_u nb header' = (Some v, h')"
        "\<not> szadd (unat v) (hl + nb) < unat v" "get_element cbs (szadd (unat v) (hl + nb)) tag (hl + nb) b = (Some e, rest)"
        unfolding cbs_get_any_asn1_element_def
        by (auto simp: t u8 CBS_len_def cl nb_def [symmetric] Let_def split: option.splits prod.splits if_splits)
      have "0 < szadd (unat v) (hl + nb)"
        using v(1,3) hl by (cases "unat v = 0") (simp_all add: szadd_def SIZE_MOD_def)
      with that [OF v(4)] hl show thesis by simp
    qed
  qed
  then show "cbs = elt_out e @ rest" "elt_out e \<noteq> []" "0 < elt_header_len e"
    by (auto simp: get_element_iff)
qed

lemma ber_element_shorter:
  assumes "CBS_get_any_ber_asn1_element inp = (Some e, inp')"
  shows "length inp' < length inp \<and> length (elt_out e) - elt_header_len e < length inp"
proof -
  note s = ber_element_split [OF assms [unfolded CBS_get_any_ber_asn1_element_def]]
  have "length inp = length (elt_out e) + length inp'" using arg_cong [OF s(1), of length] by simp
  with s(2,3) show ?thesis by (cases "elt_out e") auto
qed

text \<open>
  The loop of \<open>cbs_find_ber\<close>, with the value of \<open>*ber_found\<close>; \<open>None\<close> where the function returns 0.
\<close>

function find_ber_loop :: "nat \<Rightarrow> bool \<Rightarrow> cbs \<Rightarrow> bool option" where
  "find_ber_loop depth ber_found inp =
     (if CBS_len inp = 0 then Some ber_found
      else case CBS_get_any_ber_asn1_element inp of
        (None, _) \<Rightarrow> None
      | (Some e, inp') \<Rightarrow>
          if elt_ber_found e then Some True
          else if elt_tag e AND CBS_ASN1_CONSTRUCTED \<noteq> 0 then
            (if is_string_type (elt_tag e) then Some True
             else if CBS_len (elt_out e) < elt_header_len e \<or> depth + 1 > kMaxDepth then None
             else case find_ber_loop (depth + 1) False (drop (elt_header_len e) (elt_out e)) of
               None \<Rightarrow> None
             | Some ber_found \<Rightarrow> find_ber_loop depth ber_found inp')
          else find_ber_loop depth False inp')"
  by pat_completeness auto
termination
  by (relation "measure (\<lambda>(depth, ber_found, inp). length inp)")
     (auto dest: ber_element_shorter [OF sym])

declare find_ber_loop.simps [simp del]

definition cbs_find_ber :: "nat \<Rightarrow> cbs \<Rightarrow> bool option" where
  "cbs_find_ber depth orig_in = (if depth > kMaxDepth then None else find_ber_loop depth False orig_in)"

definition is_eoc :: "nat \<Rightarrow> cbs \<Rightarrow> bool" where
  "is_eoc header_len contents \<longleftrightarrow> header_len = 2 \<and> CBS_len contents = 2 \<and> contents = [0, 0]"

text \<open>The tag to write for an element, and the \<open>child_string_tag\<close> of its contents.\<close>

definition ber_out_tag :: "u32 \<Rightarrow> u32" where
  "ber_out_tag tag = (if tag AND CBS_ASN1_CONSTRUCTED \<noteq> 0 \<and> is_string_type tag
     then tag AND NOT CBS_ASN1_CONSTRUCTED else tag)"

definition child_string_tag :: "u32 \<Rightarrow> u32 \<Rightarrow> u32" where
  "child_string_tag string_tag tag =
     (if string_tag = 0 \<and> tag AND CBS_ASN1_CONSTRUCTED \<noteq> 0 \<and> is_string_type tag
      then ber_out_tag tag else string_tag)"

text \<open>The choice of \<open>out_contents\<close>: \<open>out\<close> itself within a string, a new child otherwise.\<close>

definition open_contents :: "mem_env \<Rightarrow> nat \<Rightarrow> u32 \<Rightarrow> u32 \<Rightarrow> cbb \<Rightarrow> bool \<times> cbb" where
  "open_contents env k string_tag tag out =
     (if string_tag \<noteq> 0 then (tag AND NOT CBS_ASN1_CONSTRUCTED = string_tag, out)
      else CBB_add_asn1 env (ber_out_tag tag) k out)"

definition is_indefinite :: "asn1_element \<Rightarrow> bool" where
  "is_indefinite e \<longleftrightarrow> CBS_len (elt_out e) = elt_header_len e \<and> elt_header_len e > 0 \<and>
     elt_out e ! (elt_header_len e - 1) = 0x80"

text \<open>
  \<open>cbs_convert_ber\<close>, one element of its loop at a time; \<open>k\<close> is the builder \<open>out\<close>. The outer
  \<open>None\<close> says that the fuel ran out, which more fuel than bytes of input excludes. The result is
  the return value, the rest of \<open>in\<close> and the builder.
\<close>

fun cbs_convert_ber ::
  "mem_env \<Rightarrow> nat \<Rightarrow> nat \<Rightarrow> u32 \<Rightarrow> bool \<Rightarrow> nat \<Rightarrow> cbs \<Rightarrow> cbb \<Rightarrow> (bool \<times> cbs \<times> cbb) option" where
  "cbs_convert_ber env 0 k string_tag looking_for_eoc depth inp out = None"
| "cbs_convert_ber env (Suc fuel) k string_tag looking_for_eoc depth inp out =
     (if depth > kMaxDepth then Some (False, inp, out)
      else if CBS_len inp = 0 then Some (\<not> looking_for_eoc, inp, out)
      else case CBS_get_any_ber_asn1_element inp of
        (None, inp) \<Rightarrow> Some (False, inp, out)
      | (Some e, inp) \<Rightarrow>
          if is_eoc (elt_header_len e) (elt_out e) then Some (looking_for_eoc, inp, out)
          else case open_contents env k string_tag (elt_tag e) out of
            (False, out) \<Rightarrow> Some (False, inp, out)
          | (True, out) \<Rightarrow>
              let kc = (if string_tag \<noteq> 0 then k else k + 1);
                  tag' = child_string_tag string_tag (elt_tag e);
                  contents = drop (elt_header_len e) (elt_out e);
                  written =
                    (if is_indefinite e then cbs_convert_ber env fuel kc tag' True (depth + 1) inp out
                     else if CBS_len (elt_out e) < elt_header_len e then Some (False, inp, out)
                     else if elt_tag e AND CBS_ASN1_CONSTRUCTED \<noteq> 0 then
                       map_option (\<lambda>(ok, _, out). (ok, inp, out))
                         (cbs_convert_ber env fuel kc tag' False (depth + 1) contents out)
                     else Some (case CBB_add_bytes env contents kc out of (ok, out) \<Rightarrow> (ok, inp, out)))
              in case written of
                   None \<Rightarrow> None
                 | Some (False, inp, out) \<Rightarrow> Some (False, inp, out)
                 | Some (True, inp, out) \<Rightarrow> (case CBB_flush env k out of
                     (False, out) \<Rightarrow> Some (False, inp, out)
                   | (True, out) \<Rightarrow> cbs_convert_ber env fuel k string_tag looking_for_eoc depth inp out))"

text \<open>
  The result is the bytes of \<open>out\<close> and whether they are in \<open>*out_storage\<close>; \<open>None\<close> where the
  function returns 0.
\<close>

definition CBS_asn1_ber_to_der :: "mem_env \<Rightarrow> (cbs, bytes \<times> bool) cfun" where
  "CBS_asn1_ber_to_der env inp = (case cbs_find_ber 0 inp of
     None \<Rightarrow> (None, inp)
   | Some conversion_needed \<Rightarrow>
       if \<not> conversion_needed then
         (case CBS_get_any_asn1_element inp of
            (None, inp') \<Rightarrow> (None, inp') | (Some e, inp') \<Rightarrow> (Some (elt_out e, False), inp'))
       else (case CBB_init env (CBS_len inp) of
         (False, _) \<Rightarrow> (None, inp)
       | (True, cbb) \<Rightarrow> (case cbs_convert_ber env (Suc (length inp)) 0 0 False 0 inp cbb of
           None \<Rightarrow> (None, inp)
         | Some (ok, inp', cbb) \<Rightarrow>
             if \<not> ok then (None, inp')
             else case CBB_finish env True 0 cbb of
               (None, _) \<Rightarrow> (None, inp') | (Some out, _) \<Rightarrow> (Some (out, True), inp'))))"

text \<open>The loop that concatenates the chunks of a constructed string.\<close>

function implicit_chunks :: "mem_env \<Rightarrow> u32 \<Rightarrow> cbs \<Rightarrow> cbb \<Rightarrow> bool \<times> cbb" where
  "implicit_chunks env inner_tag child result =
     (if CBS_len child = 0 then (True, result)
      else case CBS_get_asn1 inner_tag child of
        (None, _) \<Rightarrow> (False, result)
      | (Some chunk, child') \<Rightarrow> (case CBB_add_bytes env chunk 0 result of
          (False, result) \<Rightarrow> (False, result)
        | (True, result) \<Rightarrow> implicit_chunks env inner_tag child' result))"
  by pat_completeness auto
termination
  by (relation "measure (\<lambda>(env, inner_tag, child, result). length child)")
     (auto dest: asn1.dec_shorter [OF sym])

declare implicit_chunks.simps [simp del]

definition CBS_get_asn1_implicit_string :: "mem_env \<Rightarrow> u32 \<Rightarrow> u32 \<Rightarrow> (cbs, bytes \<times> bool) cfun" where
  "CBS_get_asn1_implicit_string env outer_tag inner_tag inp =
     (if CBS_peek_asn1_tag inp outer_tag then
        (case CBS_get_asn1 outer_tag inp of
           (None, inp') \<Rightarrow> (None, inp') | (Some out, inp') \<Rightarrow> (Some (out, False), inp'))
      else case CBB_init env (CBS_len inp) of
        (False, _) \<Rightarrow> (None, inp)
      | (True, result) \<Rightarrow> (case CBS_get_asn1 (outer_tag OR CBS_ASN1_CONSTRUCTED) inp of
          (None, inp') \<Rightarrow> (None, inp')
        | (Some child, inp') \<Rightarrow> (case implicit_chunks env inner_tag child result of
            (False, _) \<Rightarrow> (None, inp')
          | (True, result) \<Rightarrow> (case CBB_finish env True 0 result of
              (None, _) \<Rightarrow> (None, inp') | (Some data, _) \<Rightarrow> (Some (data, True), inp')))))"

text \<open>
  \<open>CBB_finish_i2d\<close>: \<open>None\<close> is -1. The caller's pointer is absent, null, or the start of a buffer
  with room for the result; the second component is what it points at afterwards, the bytes
  themselves where they are handed over.
\<close>

datatype outp = No_Outp | Null_Outp | Buf_Outp bytes nat

definition CBB_finish_i2d :: "mem_env \<Rightarrow> outp \<Rightarrow> cbb \<Rightarrow> nat option \<times> outp \<times> cbb" where
  "CBB_finish_i2d env outp cbb = (case CBB_finish env True 0 cbb of
     (None, cbb) \<Rightarrow> (None, outp, CBB_cleanup 0 cbb)
   | (Some der, cbb) \<Rightarrow>
       if length der > 0x7fffffff then (None, outp, cbb)
       else (Some (length der),
             (case outp of
                No_Outp \<Rightarrow> No_Outp
              | Null_Outp \<Rightarrow> Buf_Outp der 0
              | Buf_Outp mem pos \<Rightarrow> Buf_Outp (take pos mem @ der @ drop (pos + length der) mem) (pos + length der)),
             cbb))"

end
