(* ===== verification/Ber_Correct.thy ===== *)
theory Ber_Correct
  imports Ber
begin

text \<open>
  What \<open>ber.c\<close> does: the conversion ends, finding BER is sound, and implicitly tagged strings are
  concatenated. \<open>Ber_Trees\<close> says what the conversion writes.
\<close>

subsection \<open>Termination of the conversion\<close>

lemma ber_element_fail: "CBS_get_any_ber_asn1_element inp = (None, inp') \<Longrightarrow> inp' = inp"
  by (auto simp: CBS_get_any_ber_asn1_element_def cbs_get_any_asn1_element_def get_element_def
      CBS_get_bytes_def cbs_get_def Let_def split: prod.splits option.splits if_splits)

text \<open>The contents of one element, and the loop in terms of them.\<close>

definition convert_contents ::
  "mem_env \<Rightarrow> nat \<Rightarrow> nat \<Rightarrow> u32 \<Rightarrow> nat \<Rightarrow> asn1_element \<Rightarrow> cbs \<Rightarrow> cbb \<Rightarrow> (bool \<times> cbs \<times> cbb) option" where
  "convert_contents env fuel k st depth e inp out =
     (let kc = (if st \<noteq> 0 then k else k + 1);
          tag' = child_string_tag st (elt_tag e);
          contents = drop (elt_header_len e) (elt_out e)
      in if is_indefinite e then cbs_convert_ber env fuel kc tag' True (depth + 1) inp out
         else if CBS_len (elt_out e) < elt_header_len e then Some (False, inp, out)
         else if elt_tag e AND CBS_ASN1_CONSTRUCTED \<noteq> 0 then
           map_option (\<lambda>(ok, _, out). (ok, inp, out))
             (cbs_convert_ber env fuel kc tag' False (depth + 1) contents out)
         else Some (case CBB_add_bytes env contents kc out of (ok, out) \<Rightarrow> (ok, inp, out)))"

lemma convert_ber_step:
  "cbs_convert_ber env (Suc fuel) k st eoc depth inp out =
     (if depth > kMaxDepth then Some (False, inp, out)
      else if CBS_len inp = 0 then Some (\<not> eoc, inp, out)
      else case CBS_get_any_ber_asn1_element inp of
        (None, inp) \<Rightarrow> Some (False, inp, out)
      | (Some e, inp) \<Rightarrow>
          if is_eoc (elt_header_len e) (elt_out e) then Some (eoc, inp, out)
          else case open_contents env k st (elt_tag e) out of
            (False, out) \<Rightarrow> Some (False, inp, out)
          | (True, out) \<Rightarrow> (case convert_contents env fuel k st depth e inp out of
              None \<Rightarrow> None
            | Some (False, inp, out) \<Rightarrow> Some (False, inp, out)
            | Some (True, inp, out) \<Rightarrow> (case CBB_flush env k out of
                (False, out) \<Rightarrow> Some (False, inp, out)
              | (True, out) \<Rightarrow> cbs_convert_ber env fuel k st eoc depth inp out)))"
  unfolding cbs_convert_ber.simps convert_contents_def Let_def by (rule refl)

declare cbs_convert_ber.simps(2) [simp del]

lemma convert_contents_total:
  assumes "\<And>k st eoc depth out. \<exists>ok inp' out'. cbs_convert_ber env fuel k st eoc depth inp out = Some (ok, inp', out') \<and> length inp' \<le> length inp"
    and "\<And>k st eoc depth out. \<exists>ok inp' out'. cbs_convert_ber env fuel k st eoc depth (drop (elt_header_len e) (elt_out e)) out = Some (ok, inp', out')"
  shows "\<exists>ok i o2. convert_contents env fuel k st depth e inp out = Some (ok, i, o2) \<and> length i \<le> length inp"
proof -
  define kc where "kc = (if st \<noteq> 0 then k else k + 1)"
  define t where "t = child_string_tag st (elt_tag e)"
  obtain r1 where r1: "cbs_convert_ber env fuel kc t True (depth + 1) inp out = Some r1" "length (fst (snd r1)) \<le> length inp"
    using assms(1) [of kc t True "depth + 1" out] by auto
  obtain r2 where r2: "cbs_convert_ber env fuel kc t False (depth + 1) (drop (elt_header_len e) (elt_out e)) out = Some r2"
    using assms(2) [of kc t False "depth + 1" out] by auto
  obtain r3 where r3: "CBB_add_bytes env (drop (elt_header_len e) (elt_out e)) kc out = r3" by simp
  show ?thesis
    unfolding convert_contents_def Let_def kc_def [symmetric] t_def [symmetric] r1(1) r2 r3
    using r1(2) by (cases r1; cases r2; cases r3) auto
qed

lemma convert_ber_total:
  "length inp < fuel \<Longrightarrow>
   \<exists>ok inp' out'. cbs_convert_ber env fuel k st eoc depth inp out = Some (ok, inp', out') \<and> length inp' \<le> length inp"
proof (induction fuel arbitrary: k st eoc depth inp out)
  case (Suc fuel)
  show ?case
  proof (cases "depth > kMaxDepth \<or> CBS_len inp = 0")
    case True
    then show ?thesis by (auto simp: convert_ber_step)
  next
    case False
    obtain r inp1 where g: "CBS_get_any_ber_asn1_element inp = (r, inp1)" by (cases "CBS_get_any_ber_asn1_element inp")
    show ?thesis
    proof (cases r)
      case None
      with g False ber_element_fail [of inp inp1] show ?thesis by (auto simp: convert_ber_step)
    next
      case (Some e)
      define contents where "contents = drop (elt_header_len e) (elt_out e)"
      have l: "length inp1 < length inp" "length contents < length inp"
        using ber_element_shorter [of inp e inp1] g Some by (simp_all add: contents_def)
      have IH: "\<exists>ok inp' out'. cbs_convert_ber env fuel k st eoc depth i out = Some (ok, inp', out') \<and> length inp' \<le> length inp1"
        if "length i \<le> length inp1" for k st eoc depth i out
        using Suc(1) [of i k st eoc depth out] Suc(2) l that by fastforce
      have IHc: "\<exists>ok inp' out'. cbs_convert_ber env fuel k st eoc depth contents out = Some (ok, inp', out')" for k st eoc depth out
        using Suc(1) [of contents k st eoc depth out] Suc(2) l by fastforce
      obtain o1 out1 where op: "open_contents env k st (elt_tag e) out = (o1, out1)"
        by (cases "open_contents env k st (elt_tag e) out")
      have "\<exists>ok i o2. convert_contents env fuel k st depth e inp1 out1 = Some (ok, i, o2) \<and> length i \<le> length inp1"
        using IH [OF le_refl] IHc unfolding contents_def by (rule convert_contents_total)
      then obtain ok i o2 where w: "convert_contents env fuel k st depth e inp1 out1 = Some (ok, i, o2)" "length i \<le> length inp1"
        by blast
      have u: "cbs_convert_ber env (Suc fuel) k st eoc depth inp out =
          (if is_eoc (elt_header_len e) (elt_out e) then Some (eoc, inp1, out) else if \<not> o1 then Some (False, inp1, out1)
           else if \<not> ok then Some (False, i, o2) else case CBB_flush env k o2 of (False, o3) \<Rightarrow> Some (False, i, o3)
             | (True, o3) \<Rightarrow> cbs_convert_ber env fuel k st eoc depth i o3)"
        using False by (simp add: convert_ber_step g Some op w(1) split: bool.split)
      obtain f o3 where fl: "CBB_flush env k o2 = (f, o3)" by (cases "CBB_flush env k o2")
      show ?thesis unfolding u fl using l w(2) IH [OF w(2), of k st eoc depth o3]
        by (auto split: bool.split intro: le_trans less_imp_le)
    qed
  qed
qed simp


subsection \<open>Implicitly tagged strings\<close>

function chunks_of :: "u32 \<Rightarrow> cbs \<Rightarrow> bytes list option" where
  "chunks_of tag bs = (if bs = [] then Some [] else case CBS_get_asn1 tag bs of
     (None, _) \<Rightarrow> None | (Some v, bs') \<Rightarrow> map_option ((#) v) (chunks_of tag bs'))"
  by pat_completeness auto
termination
  by (relation "measure (\<lambda>(tag, bs). length bs)") (auto dest: asn1.dec_shorter [OF sym])

declare chunks_of.simps [simp del]

lemma chunks_of_iff: "chunks_of tag bs = Some cs \<longleftrightarrow> list_all (\<lambda>c. length c < 2 ^ 32) cs \<and> bs = concat (map (der_elem tag) cs)"
  by (rule asn1.loop_iff [where f = "chunks_of tag", OF chunks_of.simps])

lemma implicit_chunks_sound:
  "implicit_chunks env tag child r = (True, r') \<Longrightarrow> cbb_abs r [(LenPrefix 0, d)] \<Longrightarrow>
   \<exists>cs. chunks_of tag child = Some cs \<and> cbb_abs r' [(LenPrefix 0, d @ concat cs)]"
proof (induction env tag child r arbitrary: d rule: implicit_chunks.induct)
  case (1 env tag child r)
  show ?case
  proof (cases "child = []")
    case True
    with 1(2,3) show ?thesis
      by (intro exI [of _ "[]"]) (simp add: implicit_chunks.simps chunks_of.simps CBS_len_def)
  next
    case False
    with 1(2) obtain chunk child' r1 where c: "CBS_get_asn1 tag child = (Some chunk, child')"
      "CBB_add_bytes env chunk 0 r = (True, r1)" "implicit_chunks env tag child' r1 = (True, r')"
      by (subst (asm) implicit_chunks.simps) (auto simp: CBS_len_def split: prod.splits option.splits bool.splits)
    have "length chunk < SIZE_MOD" using c(1) by (auto simp: CBS_get_asn1_iff SIZE_MOD_def)
    from implements_sound [OF CBB_add_bytes_implements [OF this] TrueI 1(3) c(2)]
    have r1: "cbb_abs r1 [(LenPrefix 0, d @ chunk)]" by (auto simp: a_append_top app_last_def)
    from 1(1) [OF _ c(1) [symmetric] refl c(2) [symmetric] refl c(3) r1] False
    obtain cs where "chunks_of tag child' = Some cs" "cbb_abs r' [(LenPrefix 0, (d @ chunk) @ concat cs)]"
      by (auto simp: CBS_len_def)
    then show ?thesis using False c(1) by (intro exI [of _ "chunk # cs"]) (subst chunks_of.simps, simp)
  qed
qed

lemma implicit_string_sound:
  assumes "CBS_get_asn1_implicit_string env outer inner inp = (Some (data, stored), inp')"
  shows "\<not> stored \<and> inp = der_elem outer data @ inp' \<or>
    stored \<and> (\<exists>cs. inp = der_elem (outer OR CBS_ASN1_CONSTRUCTED) (concat (map (der_elem inner) cs)) @ inp' \<and> data = concat cs)"
proof (cases stored)
  case False
  with assms show ?thesis
    by (auto simp: CBS_get_asn1_implicit_string_def asn1.dec_iff split: if_splits prod.splits option.splits bool.splits)
next
  case True
  with assms obtain r child r' where c: "CBB_init env (CBS_len inp) = (True, r)"
    "CBS_get_asn1 (outer OR CBS_ASN1_CONSTRUCTED) inp = (Some child, inp')"
    "implicit_chunks env inner child r = (True, r')" "fst (CBB_finish env True 0 r') = Some data"
    by (auto simp: CBS_get_asn1_implicit_string_def split: if_splits prod.splits option.splits bool.splits)
  obtain cs where cs: "chunks_of inner child = Some cs" "cbb_abs r' [(LenPrefix 0, concat cs)]"
    using implicit_chunks_sound [OF c(3) CBB_init_abs(1) [OF c(1)]] by auto
  have "data = concat cs" using CBB_finish_abs [OF cs(2), of env] c(4) by simp
  moreover have "child = concat (map (der_elem inner) cs)" using cs(1) by (simp add: chunks_of_iff)
  moreover have "inp = der_elem (outer OR CBS_ASN1_CONSTRUCTED) child @ inp'" using c(2) by (simp add: asn1.dec_iff)
  ultimately show ?thesis using True by auto
qed


subsection \<open>Finding BER\<close>

text \<open>An input that holds an indefinite or non-minimal length or a constructed string somewhere.\<close>

inductive ber_inside :: "cbs \<Rightarrow> bool" where
  here: "CBS_get_any_ber_asn1_element inp = (Some e, rest) \<Longrightarrow>
    elt_ber_found e \<or> elt_tag e AND CBS_ASN1_CONSTRUCTED \<noteq> 0 \<and> is_string_type (elt_tag e) \<Longrightarrow> ber_inside inp"
| child: "CBS_get_any_ber_asn1_element inp = (Some e, rest) \<Longrightarrow> elt_tag e AND CBS_ASN1_CONSTRUCTED \<noteq> 0 \<Longrightarrow>
    ber_inside (drop (elt_header_len e) (elt_out e)) \<Longrightarrow> ber_inside inp"
| later: "CBS_get_any_ber_asn1_element inp = (Some e, rest) \<Longrightarrow> ber_inside rest \<Longrightarrow> ber_inside inp"

lemma find_ber_loop_sound: "find_ber_loop depth found inp = Some True \<Longrightarrow> found \<or> ber_inside inp"
proof (induction depth found inp rule: find_ber_loop.induct)
  case (1 depth found inp)
  show ?case
  proof (cases "CBS_len inp = 0")
    case True
    with 1(4) show ?thesis by (subst (asm) find_ber_loop.simps) simp
  next
    case False
    with 1(4) obtain e rest where e: "CBS_get_any_ber_asn1_element inp = (Some e, rest)"
      by (subst (asm) find_ber_loop.simps) (auto split: prod.splits option.splits)
    let ?c = "elt_tag e AND CBS_ASN1_CONSTRUCTED \<noteq> 0"
    show ?thesis
    proof (cases "elt_ber_found e \<or> ?c \<and> is_string_type (elt_tag e)")
      case True
      then show ?thesis using ber_inside.here [OF e] by blast
    next
      case n: False
      show ?thesis
      proof (cases ?c)
        case False
        then have "find_ber_loop depth False rest = Some True"
          using 1(4) e n \<open>CBS_len inp \<noteq> 0\<close> by (subst (asm) find_ber_loop.simps) simp
        then have "ber_inside rest" using 1(3) [OF \<open>CBS_len inp \<noteq> 0\<close> e [symmetric] refl _ _] n False by simp
        then show ?thesis using ber_inside.later [OF e] by blast
      next
        case True
        then obtain f where f: "find_ber_loop (depth + 1) False (drop (elt_header_len e) (elt_out e)) = Some f"
          "find_ber_loop depth f rest = Some True"
          "\<not> (CBS_len (elt_out e) < elt_header_len e \<or> depth + 1 > kMaxDepth)"
          using 1(4) e n \<open>CBS_len inp \<noteq> 0\<close>
          by (subst (asm) find_ber_loop.simps) (auto split: if_splits option.splits)
        have "f \<Longrightarrow> ber_inside (drop (elt_header_len e) (elt_out e))"
          using 1(1) [OF \<open>CBS_len inp \<noteq> 0\<close> e [symmetric] refl] n True f by auto
        moreover have "f \<or> ber_inside rest"
          using 1(2) [OF \<open>CBS_len inp \<noteq> 0\<close> e [symmetric] refl] n True f by auto
        ultimately show ?thesis using ber_inside.child [OF e True] ber_inside.later [OF e] by blast
      qed
    qed
  qed
qed

text \<open>A SEQUENCE that holds a constructed OCTET STRING, and one with a NULL after it.\<close>

definition nested_string :: bytes where
  "nested_string = [0x30, 0x06, 0x24, 0x04, 0x04, 0x02, 0x61, 0x62]"

definition with_sibling :: bytes where
  "with_sibling = [0x30, 0x0a] @ nested_string @ [0x05, 0x00]"

lemmas element_eval = CBS_get_any_ber_asn1_element_def CBS_get_any_asn1_element_def cbs_get_any_asn1_element_def
  parse_asn1_tag_def get_u8_iff get_element_def CBS_len_def CBS_get_bytes_def cbs_get_def CBS_init_def CBS_ASN1_TAG_SHIFT_def

lemma ber_inner: "CBS_get_any_ber_asn1_element (nested_string @ rest) =
   (Some \<lparr>elt_out = nested_string, elt_tag = 0x20000010, elt_header_len = 2, elt_ber_found = False\<rparr>, rest)"
  by (simp add: nested_string_def element_eval)

lemma ber_outer: "CBS_get_any_ber_asn1_element with_sibling =
   (Some \<lparr>elt_out = with_sibling, elt_tag = 0x20000010, elt_header_len = 2, elt_ber_found = False\<rparr>, [])"
  by (simp add: with_sibling_def nested_string_def element_eval)

lemma ber_string: "CBS_get_any_ber_asn1_element (drop 2 nested_string) =
   (Some \<lparr>elt_out = drop 2 nested_string, elt_tag = 0x20000004, elt_header_len = 2, elt_ber_found = False\<rparr>, [])"
  by (simp add: nested_string_def element_eval)

lemma ber_null: "CBS_get_any_ber_asn1_element [5, 0] =
   (Some \<lparr>elt_out = [5, 0], elt_tag = 5, elt_header_len = 2, elt_ber_found = False\<rparr>, [])"
  by (simp add: element_eval)

lemma nested_found: "find_ber_loop (Suc d) f (drop 2 nested_string) = Some True"
  by (subst find_ber_loop.simps)
     (simp add: ber_string CBS_len_def CBS_ASN1_CONSTRUCTED_def CBS_ASN1_TAG_SHIFT_def is_string_type_def,
      simp add: nested_string_def)

lemma with_sibling_missed: "cbs_find_ber 0 with_sibling = Some False"
proof -
  have len: "length with_sibling = 12" "length nested_string = 8" by (simp_all add: with_sibling_def nested_string_def)
  have c: "(0x20000010 :: u32) AND CBS_ASN1_CONSTRUCTED \<noteq> 0" "\<not> is_string_type 0x20000010" "(5 :: u32) AND CBS_ASN1_CONSTRUCTED = 0"
    by (simp_all add: CBS_ASN1_CONSTRUCTED_def CBS_ASN1_TAG_SHIFT_def is_string_type_def)
  have n: "find_ber_loop (Suc 0) True [5, 0] = Some False"
    by (simp add: find_ber_loop.simps [of _ True] find_ber_loop.simps [of _ False "[]"] ber_null c CBS_len_def)
  have d: "drop 2 with_sibling = nested_string @ [5, 0]" by (simp add: with_sibling_def)
  have "find_ber_loop (Suc 0) False (nested_string @ [5, 0]) = Some False"
    by (subst find_ber_loop.simps) (simp add: ber_inner c len CBS_len_def nested_found n kMaxDepth_def)
  then have "find_ber_loop 0 False with_sibling = Some False"
    by (subst find_ber_loop.simps) (simp add: ber_outer c len CBS_len_def d kMaxDepth_def find_ber_loop.simps [of _ _ "[]"])
  then show ?thesis by (simp add: cbs_find_ber_def)
qed

lemma with_sibling_ber: "ber_inside with_sibling"
proof -
  have c: "(0x20000010 :: u32) AND CBS_ASN1_CONSTRUCTED \<noteq> 0" "(0x20000004 :: u32) AND CBS_ASN1_CONSTRUCTED \<noteq> 0" "is_string_type 0x20000004"
    by (simp_all add: CBS_ASN1_CONSTRUCTED_def CBS_ASN1_TAG_SHIFT_def is_string_type_def)
  have "ber_inside (drop 2 nested_string)" by (rule ber_inside.here [OF ber_string]) (simp add: c)
  then have "ber_inside (nested_string @ [5, 0])" by (intro ber_inside.child [OF ber_inner]) (simp_all add: c)
  then show ?thesis by (intro ber_inside.child [OF ber_outer]) (simp_all add: c with_sibling_def)
qed

lemma with_sibling_not_converted: "CBS_asn1_ber_to_der env with_sibling = (Some (with_sibling, False), [])"
proof -
  have "CBS_get_any_asn1_element with_sibling =
     (Some \<lparr>elt_out = with_sibling, elt_tag = 0x20000010, elt_header_len = 2, elt_ber_found = False\<rparr>, [])"
    by (simp add: with_sibling_def nested_string_def element_eval)
  then show ?thesis by (simp add: CBS_asn1_ber_to_der_def with_sibling_missed)
qed

end
