(* ===== verification/Ber_Trees.thy ===== *)
theory Ber_Trees
  imports Ber_Correct
begin

text \<open>
  What \<open>CBS_asn1_ber_to_der\<close> means: the trees that a BER encoding stands for, their DER encoding, and
  that \<open>cbs_convert_ber\<close> reads the one and writes the other.
\<close>

subsection \<open>Trees and their encodings\<close>

datatype asn1_tree = Primitive u32 bytes | Constructed u32 "asn1_tree list"

text \<open>
  The length octets of X.690 8.1.3: the short form, and the long form with up to four octets, which
  need not be the fewest.
\<close>

inductive ber_len :: "nat \<Rightarrow> bytes \<Rightarrow> bool" where
  short: "n < 128 \<Longrightarrow> ber_len n [of_nat n]"
| long: "0 < k \<Longrightarrow> k \<le> 4 \<Longrightarrow> n < 256 ^ k \<Longrightarrow> ber_len n (of_nat (128 + k) # be_bytes k n)"

abbreviation constructed_tag :: "u32 \<Rightarrow> bool" where
  "constructed_tag tag \<equiv> tag AND CBS_ASN1_CONSTRUCTED \<noteq> 0"

abbreviation primitive_tag :: "u32 \<Rightarrow> u32" where
  "primitive_tag tag \<equiv> tag AND NOT CBS_ASN1_CONSTRUCTED"

text \<open>The BER encodings of a run of elements; a constructed one has a definite or an indefinite length.\<close>

inductive ber :: "asn1_tree list \<Rightarrow> bytes \<Rightarrow> bool" where
  empty: "ber [] []"
| primitive: "\<not> constructed_tag tag \<Longrightarrow> ber_len (length c) l \<Longrightarrow> der_tag tag @ l @ c \<noteq> [0, 0] \<Longrightarrow> ber ts bs \<Longrightarrow>
    ber (Primitive tag c # ts) (der_tag tag @ l @ c @ bs)"
| definite: "constructed_tag tag \<Longrightarrow> ber us c \<Longrightarrow> ber_len (length c) l \<Longrightarrow> ber ts bs \<Longrightarrow>
    ber (Constructed tag us # ts) (der_tag tag @ l @ c @ bs)"
| indefinite: "constructed_tag tag \<Longrightarrow> ber us c \<Longrightarrow> ber ts bs \<Longrightarrow>
    ber (Constructed tag us # ts) (der_tag tag @ [0x80] @ c @ [0, 0] @ bs)"

text \<open>
  The universal string types by their numbers in X.680: OCTET STRING, UTF8String, NumericString to
  IA5String, GraphicString to UniversalString and BMPString. BIT STRING is not among them.
\<close>

definition string_tags :: "u32 set" where
  "string_tags = {4, 12, 18, 19, 20, 21, 22, 25, 26, 27, 28, 30}"

text \<open>The octets that the fragments of a string contribute, and the DER encoding of a tree.\<close>

fun octets :: "asn1_tree \<Rightarrow> bytes" where
  "octets (Primitive tag c) = c"
| "octets (Constructed tag ts) = concat (map octets ts)"

fun der :: "asn1_tree \<Rightarrow> bytes" where
  "der (Primitive tag c) = der_elem tag c"
| "der (Constructed tag ts) =
     (if primitive_tag tag \<in> string_tags then der_elem (primitive_tag tag) (concat (map octets ts))
      else der_elem tag (concat (map der ts)))"

text \<open>A string has fragments of its own type only, and the nesting is bounded.\<close>

fun fragment :: "u32 \<Rightarrow> asn1_tree \<Rightarrow> bool" where
  "fragment st (Primitive tag c) \<longleftrightarrow> tag = st"
| "fragment st (Constructed tag ts) \<longleftrightarrow> primitive_tag tag = st \<and> list_all (fragment st) ts"

fun strings_ok :: "asn1_tree \<Rightarrow> bool" where
  "strings_ok (Primitive tag c) \<longleftrightarrow> True"
| "strings_ok (Constructed tag ts) \<longleftrightarrow>
     (if primitive_tag tag \<in> string_tags then list_all (fragment (primitive_tag tag)) ts else list_all strings_ok ts)"

fun nested :: "nat \<Rightarrow> asn1_tree \<Rightarrow> bool" where
  "nested d (Primitive tag c) \<longleftrightarrow> True"
| "nested d (Constructed tag ts) \<longleftrightarrow> 0 < d \<and> list_all (nested (d - 1)) ts"

lemma is_string_type_iff: "is_string_type tag \<longleftrightarrow> primitive_tag tag \<in> string_tags"
  by (simp add: is_string_type_def string_tags_def)

lemma string_tag_nonzero: "tag \<in> string_tags \<Longrightarrow> tag \<noteq> 0"
  by (auto simp: string_tags_def)

lemma primitive_tag_id: "\<not> constructed_tag tag \<Longrightarrow> primitive_tag tag = tag"
proof (rule bit_word_eqI)
  fix n assume "\<not> constructed_tag tag"
  then have "\<not> bit (tag AND CBS_ASN1_CONSTRUCTED) n" by simp
  then show "n < LENGTH(32) \<Longrightarrow> bit (primitive_tag tag) n = bit tag n" by (auto simp: bit_simps)
qed

subsection \<open>The element reader\<close>

lemma der_tag_nonempty [simp]: "der_tag tag \<noteq> []"
  by (simp add: der_tag_def Let_def)

lemma ber_len_nonempty: "ber_len n l \<Longrightarrow> l \<noteq> []"
  by (auto elim: ber_len.cases)

lemma constructed_not_zero: "constructed_tag tag \<Longrightarrow> der_tag tag @ x \<noteq> 0 # y"
proof
  assume "constructed_tag tag" "der_tag tag @ x = 0 # y"
  moreover have "parse_asn1_tag (0 # y) = (Some 0, y)" by (simp add: parse_asn1_tag_def)
  ultimately show False using parse_asn1_tag_der [of tag x] by simp
qed

text \<open>What the reader of BER elements accepts.\<close>

lemma ber_element_cases:
  assumes "CBS_get_any_ber_asn1_element inp = (Some e, rest)"
  obtains (definite) l c where "inp = der_tag (elt_tag e) @ l @ c @ rest" "ber_len (length c) l"
      "elt_out e = der_tag (elt_tag e) @ l @ c" "elt_header_len e = length (der_tag (elt_tag e) @ l)"
    | (indefinite) "constructed_tag (elt_tag e)" "inp = der_tag (elt_tag e) @ [0x80] @ rest"
      "elt_out e = der_tag (elt_tag e) @ [0x80]" "elt_header_len e = length (der_tag (elt_tag e) @ [0x80])"
proof -
  note a = assms [unfolded CBS_get_any_ber_asn1_element_def]
  obtain tag header where t: "parse_asn1_tag inp = (Some tag, header)"
    using a by (auto simp: cbs_get_any_asn1_element_def split: prod.splits option.splits)
  then obtain lb h where header: "header = lb # h"
    using a by (cases header) (auto simp: cbs_get_any_asn1_element_def)
  have inp: "inp = der_tag tag @ lb # h" using t header by (simp add: parse_asn1_tag_iff)
  define hl where "hl = length (der_tag tag) + 1"
  have cl: "length inp - length h = hl" by (simp add: inp hl_def)
  have hl: "hl \<le> 7" using length_der_tag [of tag] by (simp add: hl_def)
  have u8: "CBS_get_u8 header = (Some lb, h)" by (simp add: header get_u8_iff)
  show thesis
  proof (cases "lb AND 0x80 = 0")
    case True
    with a have g: "get_element inp (unat lb + hl) tag hl False = (Some e, rest)"
      by (simp add: cbs_get_any_asn1_element_def t u8 CBS_len_def cl)
    have lb: "unat lb < 128" using True by (simp add: and_80_u8)
    have len: "unat lb \<le> length h" using g by (simp add: get_element_iff inp hl_def)
    have "ber_len (length (take (unat lb) h)) [lb]" using lb len ber_len.short [of "unat lb"] by simp
    with g show thesis using len by (intro definite [of "[lb]" "take (unat lb) h"]) (simp_all add: get_element_iff inp hl_def)
  next
    case False
    define nb where "nb = unat (lb AND 0x7f)"
    have nb: "nb = unat lb mod 128" by (simp add: nb_def mask_simps word_nat)
    have lo: "128 \<le> unat lb" using False by (simp add: and_80_u8)
    have "unat lb - 128 < 128" using unat_u8_less [of lb] by linarith
    then have "(unat lb - 128) mod 128 = unat lb - 128" by (rule mod_less)
    then have lb: "unat lb = 128 + nb" using lo by (simp add: nb le_mod_geq)
    show thesis
    proof (cases "constructed_tag tag \<and> nb = 0")
      case True
      with a False have g: "get_element inp hl tag hl True = (Some e, rest)"
        by (simp add: cbs_get_any_asn1_element_def t u8 CBS_len_def cl nb_def)
      have "lb = 0x80" using lb True by (simp add: word_unat_eq_iff)
      with g True show thesis by (intro indefinite) (simp_all add: get_element_iff inp hl_def)
    next
      case ni: False
      from a False ni obtain v h' b where v: "0 < nb" "nb \<le> 4" "cbs_get_u nb h = (Some v, h')"
        "get_element inp (szadd (unat v) (hl + nb)) tag (hl + nb) b = (Some e, rest)"
        unfolding cbs_get_any_asn1_element_def
        by (auto simp: t u8 CBS_len_def cl nb_def [symmetric] Let_def split: option.splits prod.splits if_splits)
      define ds c where "ds = take nb h" and "c = take (unat v) (drop nb h)"
      have ds: "nb \<le> length h" "unat v = be_nat ds" "length ds = nb"
        using v(2,3) cbs_get_u_iff [of nb h v h'] by (simp_all add: ds_def)
      have vb: "unat v < 256 ^ nb" using be_nat_bound [of ds] ds by simp
      also have "(256 :: nat) ^ nb \<le> 256 ^ 4" using v(2) by (intro power_increasing) simp_all
      finally have "szadd (unat v) (hl + nb) = unat v + (hl + nb)"
        using hl v(2) by (intro szadd_exact) (simp add: SIZE_MOD_def)
      with v(4) have g: "get_element inp (unat v + (hl + nb)) tag (hl + nb) b = (Some e, rest)" by simp
      then have c: "length c = unat v" by (auto simp: get_element_iff inp hl_def c_def)
      have h: "h = ds @ c @ drop (unat v) (drop nb h)" by (simp only: ds_def c_def append_take_drop_id)
      have g': "get_element ((der_tag tag @ lb # ds @ c) @ drop (unat v) (drop nb h)) (unat v + (hl + nb)) tag (hl + nb) b = (Some e, rest)"
        using g unfolding inp by (subst (asm) h) simp
      have e: "elt_out e = der_tag tag @ lb # ds @ c" "elt_tag e = tag" "elt_header_len e = hl + nb" "rest = drop (unat v) (drop nb h)"
        using get_element_append [of "unat v + (hl + nb)" "der_tag tag @ lb # ds @ c" "drop (unat v) (drop nb h)" tag "hl + nb" b] g' ds(3) c
        by (auto simp: hl_def)
      have l: "lb # ds = of_nat (128 + nb) # be_bytes nb (unat v)"
        using be_bytes_be_nat [of ds] ds(2,3) by (simp add: lb [symmetric] del: of_nat_add)
      have len: "ber_len (length c) (lb # ds)" unfolding l c by (rule ber_len.long [OF v(1,2) vb])
      show thesis
        using h ds(3) e by (intro definite [OF _ len]) (simp_all add: inp hl_def)
    qed
  qed
qed


text \<open>And what it returns for an encoding, so that \<open>is_indefinite\<close> tells the two forms apart.\<close>

lemma ber_element_indefinite:
  assumes "constructed_tag tag"
  shows "CBS_get_any_ber_asn1_element (der_tag tag @ [0x80] @ rest) =
    (Some \<lparr>elt_out = der_tag tag @ [0x80], elt_tag = tag, elt_header_len = length (der_tag tag) + 1, elt_ber_found = True\<rparr>, rest)"
  using assms get_element_append [of "Suc (length (der_tag tag))" "der_tag tag @ [0x80]" rest]
  by (simp add: CBS_get_any_ber_asn1_element_def cbs_get_any_asn1_element_def CBS_len_def)

lemma ber_element_definite:
  assumes "ber_len (length c) l"
  obtains b where "CBS_get_any_ber_asn1_element (der_tag tag @ l @ c @ rest) =
    (Some \<lparr>elt_out = der_tag tag @ l @ c, elt_tag = tag, elt_header_len = length (der_tag tag @ l), elt_ber_found = b\<rparr>, rest)"
  using assms
proof cases
  case short
  define lb :: u8 where "lb = of_nat (length c)"
  have lb: "unat lb = length c" "lb AND 0x80 = 0" using short by (simp_all add: lb_def and_80_u8)
  show thesis using lb short
    by (intro that [of False]) (simp add: CBS_get_any_ber_asn1_element_def cbs_get_any_asn1_element_def CBS_len_def
        Let_def get_element_iff lb_def [symmetric])
next
  case (long k)
  define lb :: u8 where "lb = of_nat (128 + k)"
  have lb: "unat lb = 128 + k" using long by (simp add: lb_def del: of_nat_add)
  have lb': "lb AND 0x80 \<noteq> 0" "unat (lb AND 0x7f) = k"
    using lb long by (simp_all add: and_80_u8 mask_simps word_nat)
  define n where "n = length c"
  have get: "cbs_get_u k (be_bytes k n @ c @ rest) = (Some (of_nat n), c @ rest)"
    using long by (subst cbs_get_u_append) (simp_all add: be_nat_be_bytes n_def)
  have "(256 :: nat) ^ k \<le> 256 ^ 4" using long by (intro power_increasing) simp_all
  then have n: "n < 2 ^ 32" using long by (simp add: n_def)
  have un: "unat (of_nat n :: u64) = n" using n by (simp add: unat_of_nat)
  have hl: "szadd n (Suc (length (der_tag tag) + k)) = Suc (length (der_tag tag) + k + n)"
    using n long length_der_tag [of tag] by (subst szadd_exact) (simp_all add: SIZE_MOD_def)
  have ge: "get_element (der_tag tag @ lb # be_bytes k n @ c @ rest) (Suc (length (der_tag tag) + k + n)) t h f =
      (Some \<lparr>elt_out = der_tag tag @ lb # be_bytes k n @ c, elt_tag = t, elt_header_len = h, elt_ber_found = f\<rparr>, rest)" for t h f
    using get_element_append [OF refl, of "der_tag tag @ lb # be_bytes k n @ c"] by (simp add: n_def ac_simps)
  show thesis
    using lb' get long
    by (intro that) (simp add: CBS_get_any_ber_asn1_element_def cbs_get_any_asn1_element_def
        CBS_len_def Let_def n_def [symmetric] lb_def [symmetric] un hl ge del: of_nat_add)
qed

lemma definite_not_indefinite:
  assumes "ber_len (length c) l" "elt_out e = der_tag tag @ l @ c" "elt_header_len e = length (der_tag tag @ l)"
  shows "\<not> is_indefinite e"
proof (cases "c = []")
  case True
  have "last (be_bytes k 0) = 0" if "0 < k" for k using that by (cases k) simp_all
  then have "last l = 0" "l \<noteq> []" using assms(1) True by (auto elim!: ber_len.cases)
  then have "elt_out e ! (elt_header_len e - 1) = 0"
    using assms(2,3) True last_conv_nth [of "der_tag tag @ l"] by simp
  then show ?thesis by (simp add: is_indefinite_def)
qed (use assms in \<open>simp add: is_indefinite_def CBS_len_def\<close>)


subsection \<open>The converter on trees\<close>

text \<open>What a call of \<open>cbs_convert_ber\<close> accepts and writes for its elements, inside and outside a string.\<close>

definition run_ok :: "u32 \<Rightarrow> asn1_tree list \<Rightarrow> bool" where
  "run_ok st ts \<longleftrightarrow> (if st = 0 then list_all strings_ok ts else list_all (fragment st) ts)"

definition run_out :: "u32 \<Rightarrow> asn1_tree list \<Rightarrow> bytes" where
  "run_out st ts = concat (map (if st = 0 then der else octets) ts)"

lemma run_Nil [simp]: "run_ok st []" "run_out st [] = []"
  by (simp_all add: run_ok_def run_out_def)

lemma run_Cons:
  "run_ok st (t # ts) \<longleftrightarrow> run_ok st [t] \<and> run_ok st ts" "run_out st (t # ts) = run_out st [t] @ run_out st ts"
  by (simp_all add: run_ok_def run_out_def)

lemma child_string_tag_cases:
  assumes "constructed_tag tag"
  shows "child_string_tag st tag = (if st \<noteq> 0 then st else if primitive_tag tag \<in> string_tags then primitive_tag tag else 0)"
  using assms by (simp add: child_string_tag_def ber_out_tag_def is_string_type_iff)

lemma run_constructed:
  assumes "constructed_tag tag"
  shows "run_ok st [Constructed tag us] \<longleftrightarrow> (st = 0 \<or> primitive_tag tag = st) \<and> run_ok (child_string_tag st tag) us"
    and "run_out st [Constructed tag us] =
      (if st = 0 then der_elem (ber_out_tag tag) (run_out (child_string_tag st tag) us) else run_out (child_string_tag st tag) us)"
  using assms string_tag_nonzero [of "primitive_tag tag"]
  by (auto simp: run_ok_def run_out_def child_string_tag_cases ber_out_tag_def is_string_type_iff)

lemma run_primitive:
  assumes "\<not> constructed_tag tag"
  shows "run_ok st [Primitive tag c] \<longleftrightarrow> st = 0 \<or> primitive_tag tag = st"
    and "run_out st [Primitive tag c] = (if st = 0 then der_elem (ber_out_tag tag) c else c)"
  using assms primitive_tag_id [OF assms] by (auto simp: run_ok_def run_out_def ber_out_tag_def)

text \<open>The rounds of the loop, as rules: \<open>reads st eoc depth inp inp' ts\<close>.\<close>

inductive reads :: "u32 \<Rightarrow> bool \<Rightarrow> nat \<Rightarrow> cbs \<Rightarrow> cbs \<Rightarrow> asn1_tree list \<Rightarrow> bool" where
  end_of_input: "depth \<le> kMaxDepth \<Longrightarrow> reads st False depth [] [] []"
| end_of_contents: "depth \<le> kMaxDepth \<Longrightarrow> reads st True depth ([0, 0] @ j) j []"
| primitive: "\<not> constructed_tag tag \<Longrightarrow> ber_len (length c) l \<Longrightarrow> der_tag tag @ l @ c \<noteq> [0, 0] \<Longrightarrow>
    run_ok st [Primitive tag c] \<Longrightarrow> reads st eoc depth i j ts \<Longrightarrow>
    reads st eoc depth (der_tag tag @ l @ c @ i) j (Primitive tag c # ts)"
| definite: "constructed_tag tag \<Longrightarrow> ber_len (length c) l \<Longrightarrow> run_ok st [Constructed tag us] \<Longrightarrow>
    reads (child_string_tag st tag) False (depth + 1) c [] us \<Longrightarrow> reads st eoc depth i j ts \<Longrightarrow>
    reads st eoc depth (der_tag tag @ l @ c @ i) j (Constructed tag us # ts)"
| indefinite: "constructed_tag tag \<Longrightarrow> run_ok st [Constructed tag us] \<Longrightarrow>
    reads (child_string_tag st tag) True (depth + 1) r i us \<Longrightarrow> reads st eoc depth i j ts \<Longrightarrow>
    reads st eoc depth (der_tag tag @ [0x80] @ r) j (Constructed tag us # ts)"

lemma reads_ber:
  "reads st eoc depth inp j ts \<Longrightarrow> depth \<le> kMaxDepth \<and> list_all (nested (kMaxDepth - depth)) ts \<and> run_ok st ts \<and>
   (\<exists>bs. ber ts bs \<and> inp = bs @ (if eoc then [0, 0] @ j else []) \<and> (\<not> eoc \<longrightarrow> j = []))"
proof (induction rule: reads.induct)
  case (primitive tag c l st eoc depth i j ts)
  then show ?case by (auto simp: run_Cons [of st _ ts] intro!: exI ber.primitive)
next
  case (definite tag c l st us depth eoc i j ts)
  then show ?case by (auto simp: run_Cons [of st _ ts] intro!: exI ber.definite)
next
  case (indefinite tag st us depth r i eoc j ts)
  then obtain bs cs where "ber us cs" "r = cs @ [0, 0] @ i" "ber ts bs" "i = bs @ (if eoc then [0, 0] @ j else [])" by auto
  with indefinite ber.indefinite [of tag us cs ts bs] show ?case by (auto simp: run_Cons [of st _ ts])
qed (auto intro: ber.empty)

lemma ber_reads:
  "ber ts bs \<Longrightarrow> depth \<le> kMaxDepth \<Longrightarrow> list_all (nested (kMaxDepth - depth)) ts \<Longrightarrow> run_ok st ts \<Longrightarrow>
   reads st False depth bs [] ts \<and> reads st True depth (bs @ [0, 0] @ j) j ts"
proof (induction arbitrary: depth st j rule: ber.induct)
  case empty
  then show ?case by (auto intro: reads.end_of_input reads.end_of_contents [where j = j, simplified])
next
  case (primitive tag c l ts bs)
  then show ?case
    using reads.primitive [of tag c l st _ depth] by (auto simp: run_Cons [of st _ ts])
next
  case (definite tag us c l ts bs)
  then have "reads (child_string_tag st tag) False (depth + 1) c [] us"
    by (auto simp: run_Cons [of st _ ts] run_constructed)
  with definite show ?case
    using reads.definite [of tag c l st us depth] by (auto simp: run_Cons [of st _ ts])
next
  case (indefinite tag us c ts bs)
  then have c: "reads (child_string_tag st tag) True (depth + 1) (c @ [0, 0] @ i) i us" for i
    by (auto simp: run_Cons [of st _ ts] run_constructed)
  have ok: "run_ok st [Constructed tag us]" and "reads st False depth bs [] ts" "reads st True depth (bs @ [0, 0] @ j) j ts"
    using indefinite by (simp_all add: run_Cons [of st _ ts])
  from reads.indefinite [OF indefinite(1) ok c this(2)] reads.indefinite [OF indefinite(1) ok c this(3)] show ?case by simp
qed


lemma reads_top: "reads 0 False 0 inp [] ts \<longleftrightarrow> ber ts inp \<and> list_all (nested kMaxDepth) ts \<and> list_all strings_ok ts"
proof
  assume "reads 0 False 0 inp [] ts"
  from reads_ber [OF this] show "ber ts inp \<and> list_all (nested kMaxDepth) ts \<and> list_all strings_ok ts"
    by (auto simp: run_ok_def)
next
  assume "ber ts inp \<and> list_all (nested kMaxDepth) ts \<and> list_all strings_ok ts"
  then show "reads 0 False 0 inp [] ts" using ber_reads [of ts inp 0 0] by (simp add: run_ok_def)
qed

subsection \<open>The output of the converter\<close>

lemma convert_depth: "cbs_convert_ber env fuel k st eoc depth inp out = Some (True, inp', out') \<Longrightarrow> depth \<le> kMaxDepth"
  by (cases fuel) (auto simp: convert_ber_step split: if_splits)

text \<open>The frames of the builder while the contents of an element are written.\<close>

definition opened :: "u32 \<Rightarrow> u32 \<Rightarrow> frame list \<Rightarrow> frame list" where
  "opened st tag fs = (if st \<noteq> 0 then fs else app_last (der_tag (ber_out_tag tag)) fs @ [(Asn1Prefix, [])])"

definition closed :: "u32 \<Rightarrow> u32 \<Rightarrow> bytes \<Rightarrow> bytes" where
  "closed st tag d = (if st \<noteq> 0 then d else der_elem (ber_out_tag tag) d)"

lemma length_opened: "length fs = Suc k \<Longrightarrow> length (opened st tag fs) = Suc (if st \<noteq> 0 then k else k + 1)"
  by (simp add: opened_def)

lemma open_contents_sound:
  assumes "open_contents env k st tag out = (True, out')" "cbb_abs out fs" "length fs = Suc k"
  shows "cbb_abs out' (opened st tag fs)" "st = 0 \<or> primitive_tag tag = st"
proof -
  show "cbb_abs out' (opened st tag fs)"
  proof (cases "st = 0")
    case True
    then have "CBB_add_asn1 env (ber_out_tag tag) k out = (True, out')" using assms(1) by (simp add: open_contents_def)
    from implements_sound [OF CBB_add_asn1_implements TrueI assms(2) this]
    show ?thesis using True assms(3) by (auto simp: opened_def a_append_top a_open_def a_flush_top)
  qed (use assms in \<open>auto simp: open_contents_def opened_def\<close>)
  show "st = 0 \<or> primitive_tag tag = st" using assms(1) by (auto simp: open_contents_def split: if_splits)
qed

lemma a_flush_opened:
  assumes "length fs = Suc k"
  shows "a_flush k (app_last d (opened st tag fs)) =
    (if st \<noteq> 0 \<or> length d \<le> 0xfffffffe then Some (app_last (closed st tag d) fs) else None)"
proof (cases "st = 0")
  case True
  have "a_flush k (app_last (der_tag t) fs @ [(Asn1Prefix, d)]) =
      map_option (\<lambda>r. app_last r (app_last (der_tag t) fs)) (enc_frame Asn1Prefix d)" for t
    using assms by (simp add: a_flush_def split: option.split)
  then show ?thesis using True by (auto simp: opened_def closed_def der_elem_def der_header_def)
qed (use assms in \<open>simp add: opened_def closed_def a_flush_top\<close>)

lemma flush_contents_sound:
  assumes "CBB_flush env k out = (True, out')" "length fs = Suc k" "cbb_abs out (app_last d (opened st tag fs))"
  shows "cbb_abs out' (app_last (closed st tag d) fs)"
  using implements_sound [OF CBB_flush_implements TrueI assms(3,1)] a_flush_opened [OF assms(2), of d st tag]
  by (metis option.inject option.distinct(1))

lemma run_out_closed:
  "\<not> constructed_tag tag \<Longrightarrow> run_out st [Primitive tag c] = closed st tag c"
  "constructed_tag tag \<Longrightarrow> run_out st [Constructed tag us] = closed st tag (run_out (child_string_tag st tag) us)"
  by (simp_all add: run_primitive run_constructed closed_def)


lemma reads_length: "reads st eoc depth inp j ts \<Longrightarrow> length j \<le> length inp"
  by (auto dest!: reads_ber)

text \<open>One element: where its contents were converted, it stands for a tree.\<close>

lemma convert_contents_sound:
  assumes IH: "\<And>k st eoc depth inp out inp' out' fs. cbs_convert_ber env fuel k st eoc depth inp out = Some (True, inp', out') \<Longrightarrow>
      cbb_abs out fs \<Longrightarrow> length fs = Suc k \<Longrightarrow> length inp < SIZE_MOD \<Longrightarrow>
      \<exists>ts. reads st eoc depth inp inp' ts \<and> cbb_abs out' (app_last (run_out st ts) fs)"
    and e: "CBS_get_any_ber_asn1_element inp = (Some e, inp1)" "\<not> is_eoc (elt_header_len e) (elt_out e)"
    and c: "convert_contents env fuel k st depth e inp1 out = Some (True, i, out')"
    and g: "cbb_abs out gs" "length gs = Suc (if st \<noteq> 0 then k else k + 1)"
    and l: "length inp < SIZE_MOD" and st: "st = 0 \<or> primitive_tag (elt_tag e) = st"
  shows "\<exists>t d. (\<forall>eoc j ts. reads st eoc depth i j ts \<longrightarrow> reads st eoc depth inp j (t # ts)) \<and>
     cbb_abs out' (app_last d gs) \<and> run_out st [t] = closed st (elt_tag e) d \<and> length i \<le> length inp1"
  using e(1)
proof (cases rule: ber_element_cases)
  case indefinite
  let ?t = "child_string_tag st (elt_tag e)"
  have "is_indefinite e" using indefinite by (simp add: is_indefinite_def CBS_len_def nth_append)
  with c have "cbs_convert_ber env fuel (if st \<noteq> 0 then k else k + 1) ?t True (depth + 1) inp1 out = Some (True, i, out')"
    by (simp add: convert_contents_def)
  from IH [OF this g] l indefinite(2) obtain us where us: "reads ?t True (depth + 1) inp1 i us" "cbb_abs out' (app_last (run_out ?t us) gs)"
    by auto
  have ok: "run_ok st [Constructed (elt_tag e) us]"
    using st reads_ber [OF us(1)] by (simp add: run_constructed [OF indefinite(1)])
  have "\<forall>eoc j ts. reads st eoc depth i j ts \<longrightarrow> reads st eoc depth inp j (Constructed (elt_tag e) us # ts)"
    unfolding indefinite(2) using reads.indefinite [OF indefinite(1) ok us(1)] by blast
  with us(2) run_out_closed(2) [OF indefinite(1)] reads_length [OF us(1)] show ?thesis by blast
next
  case (definite l' v)
  have ni: "\<not> is_indefinite e" using definite_not_indefinite [OF definite(2-4)] .
  have dr: "drop (elt_header_len e) (elt_out e) = v" "\<not> CBS_len (elt_out e) < elt_header_len e"
    by (simp_all add: definite(3,4) CBS_len_def)
  have lv: "length v < SIZE_MOD" using l definite(1) by simp
  show ?thesis
  proof (cases "constructed_tag (elt_tag e)")
    case True
    let ?t = "child_string_tag st (elt_tag e)"
    from c ni dr True obtain j where
      j: "cbs_convert_ber env fuel (if st \<noteq> 0 then k else k + 1) ?t False (depth + 1) v out = Some (True, j, out')" "i = inp1"
      by (auto simp: convert_contents_def Let_def)
    from IH [OF j(1) g lv] obtain us where us: "reads ?t False (depth + 1) v j us" "cbb_abs out' (app_last (run_out ?t us) gs)" by blast
    note b = reads_ber [OF us(1)]
    have ok: "run_ok st [Constructed (elt_tag e) us]" using st b by (simp add: run_constructed [OF True])
    have us': "reads ?t False (depth + 1) v [] us" using us(1) b by simp
    have "\<forall>eoc j ts. reads st eoc depth i j ts \<longrightarrow> reads st eoc depth inp j (Constructed (elt_tag e) us # ts)"
      unfolding definite(1) j(2) using reads.definite [OF True definite(2) ok us'] by blast
    with us(2) run_out_closed(2) [OF True] j(2) show ?thesis by blast
  next
    case False
    with c ni dr have j: "CBB_add_bytes env v (if st \<noteq> 0 then k else k + 1) out = (True, out')" "i = inp1"
      by (auto simp: convert_contents_def Let_def split: prod.splits)
    have "cbb_abs out' (app_last v gs)"
      using implements_sound [OF CBB_add_bytes_implements [OF lv] TrueI g(1) j(1)] g(2) by (auto simp: a_append_top)
    moreover have "run_ok st [Primitive (elt_tag e) v]" using st by (simp add: run_primitive [OF False])
    moreover have "der_tag (elt_tag e) @ l' @ v \<noteq> [0, 0]"
    proof
      assume a: "der_tag (elt_tag e) @ l' @ v = [0, 0]"
      have "0 < length (der_tag (elt_tag e))" "0 < length l'" using ber_len_nonempty [OF definite(2)] by simp_all
      moreover have "length (der_tag (elt_tag e)) + length l' + length v = 2" using arg_cong [OF a, of length] by simp
      ultimately have "elt_header_len e = 2" unfolding definite(4) length_append by linarith
      with e(2) a show False by (simp add: is_eoc_def definite(3) CBS_len_def)
    qed
    ultimately show ?thesis
      using reads.primitive [OF False definite(2)] run_out_closed(1) [OF False] j(2) unfolding definite(1) by blast
  qed
qed

lemma convert_ber_sound:
  "cbs_convert_ber env fuel k st eoc depth inp out = Some (True, inp', out') \<Longrightarrow>
   cbb_abs out fs \<Longrightarrow> length fs = Suc k \<Longrightarrow> length inp < SIZE_MOD \<Longrightarrow>
   \<exists>ts. reads st eoc depth inp inp' ts \<and> cbb_abs out' (app_last (run_out st ts) fs)"
proof (induction fuel arbitrary: k st eoc depth inp out inp' out' fs)
  case (Suc fuel)
  note dep = convert_depth [OF Suc(2)]
  have same: "cbb_abs out (app_last [] fs)" using Suc(3) cbb_abs_nonempty [OF Suc(3)] by simp
  show ?case
  proof (cases "inp = []")
    case True
    with Suc(2) same dep show ?thesis
      by (auto simp: convert_ber_step CBS_len_def split: if_splits intro!: exI [of _ "[]"] reads.end_of_input)
  next
    case False
    with Suc(2) obtain e inp1 where e: "CBS_get_any_ber_asn1_element inp = (Some e, inp1)"
      by (auto simp: convert_ber_step CBS_len_def split: if_splits prod.splits option.splits)
    show ?thesis
    proof (cases "is_eoc (elt_header_len e) (elt_out e)")
      case True
      then have "inp = [0, 0] @ inp1" using ber_element_split(1) [OF e [unfolded CBS_get_any_ber_asn1_element_def]]
        by (simp add: is_eoc_def)
      with True Suc(2) False e same reads.end_of_contents [OF dep, of st inp1] show ?thesis
        by (auto simp: convert_ber_step CBS_len_def split: if_splits intro!: exI [of _ "[]"])
    next
      case ne: False
      obtain out1 i o2 o3 where o: "open_contents env k st (elt_tag e) out = (True, out1)"
        "convert_contents env fuel k st depth e inp1 out1 = Some (True, i, o2)" "CBB_flush env k o2 = (True, o3)"
        "cbs_convert_ber env fuel k st eoc depth i o3 = Some (True, inp', out')"
        using Suc(2) False ne e
        by (auto simp: convert_ber_step CBS_len_def split: if_splits prod.splits option.splits bool.splits)
      note g = open_contents_sound [OF o(1) Suc(3,4)]
      have "\<exists>t d. (\<forall>eoc j ts. reads st eoc depth i j ts \<longrightarrow> reads st eoc depth inp j (t # ts)) \<and>
        cbb_abs o2 (app_last d (opened st (elt_tag e) fs)) \<and> run_out st [t] = closed st (elt_tag e) d \<and> length i \<le> length inp1"
        by (rule convert_contents_sound [OF _ e ne o(2) g(1) length_opened [OF Suc(4)] Suc(5) g(2)]) (rule Suc(1))
      then obtain t d where t: "\<And>eoc j ts. reads st eoc depth i j ts \<Longrightarrow> reads st eoc depth inp j (t # ts)"
        "cbb_abs o2 (app_last d (opened st (elt_tag e) fs))" "run_out st [t] = closed st (elt_tag e) d" "length i \<le> length inp1"
        by blast
      have f: "cbb_abs o3 (app_last (run_out st [t]) fs)"
        using flush_contents_sound [OF o(3) Suc(4) t(2)] t(3) by simp
      have "length i < SIZE_MOD" using t(4) ber_element_shorter [OF e] Suc(5) by linarith
      with Suc(1) [OF o(4) f] Suc(4) obtain ts where
        "reads st eoc depth i inp' ts" "cbb_abs out' (app_last (run_out st ts) (app_last (run_out st [t]) fs))" by auto
      with t(1) show ?thesis using run_Cons(2) [of st t ts] by (intro exI [of _ "t # ts"]) simp
    qed
  qed
qed simp


subsection \<open>Success of the converter\<close>

lemma header_pos: "1 \<le> length (der_tag tag)" "ber_len n l \<Longrightarrow> 1 \<le> length l"
  using der_tag_nonempty [of tag] ber_len_nonempty [of n l] by (simp_all add: Suc_le_eq del: der_tag_nonempty)

lemma length_der_len: "length (der_len n) \<le> 5"
  using len_bytes_range(2) [of n] by (simp add: der_len_def del: len_bytes_range)

lemma length_out_tag: "length (der_tag (ber_out_tag tag)) \<le> length (der_tag tag)"
proof (cases "constructed_tag tag \<and> is_string_type tag")
  case True
  then have "primitive_tag tag \<in> string_tags" by (simp add: is_string_type_iff)
  then have "length (der_tag (primitive_tag tag)) = 1" by (auto simp: string_tags_def der_tag_def Let_def)
  then show ?thesis using True header_pos(1) [of tag] by (simp add: ber_out_tag_def)
qed (auto simp: ber_out_tag_def)

lemma length_closed: "length (closed st tag d) \<le> length (der_tag tag) + 5 + length d"
  using length_out_tag [of tag] length_der_len [of "length d"] by (simp add: closed_def der_elem_def der_header_def)

lemma reads_out_length: "reads st eoc depth inp j ts \<Longrightarrow> length (run_out st ts) + 3 * length j \<le> 3 * length inp"
proof (induction rule: reads.induct)
  case (primitive tag c l st eoc depth i j ts)
  then show ?case using header_pos(1) [of tag] header_pos(2) [OF primitive(2)] length_closed [of st tag c]
    by (simp add: run_Cons(2) [of st _ ts] run_out_closed(1))
next
  case (definite tag c l st us depth eoc i j ts)
  then show ?case
    using header_pos(1) [of tag] header_pos(2) [OF definite(2)] length_closed [of st tag "run_out (child_string_tag st tag) us"]
    by (simp add: run_Cons(2) [of st _ ts] run_out_closed(2))
next
  case (indefinite tag st us depth r i eoc j ts)
  then show ?case using header_pos(1) [of tag] length_closed [of st tag "run_out (child_string_tag st tag) us"]
    by (simp add: run_Cons(2) [of st _ ts] run_out_closed(2))
qed simp_all

lemma open_contents_live:
  assumes "st = 0 \<or> primitive_tag tag = st" "cbb_abs out fs" "resizable out" "length fs = Suc k" "\<And>m. env_realloc env m"
    "length (frames_buf (opened st tag fs)) < SIZE_MOD"
  obtains out' where "open_contents env k st tag out = (True, out')" "cbb_abs out' (opened st tag fs)" "resizable out'"
proof (cases "st = 0")
  case True
  have a: "Option.bind (a_append k (der_tag (ber_out_tag tag)) fs) (a_open k Asn1Prefix) = Some (opened st tag fs)"
    using True assms(4) by (simp add: a_append_top a_open_def a_flush_top opened_def)
  show thesis
    using implements_live [OF CBB_add_asn1_implements TrueI assms(2) a assms(3,5,6)] that True
    by (metis open_contents_def)
qed (use assms that in \<open>auto simp: open_contents_def opened_def\<close>)

lemma length_opened_buf:
  "fs \<noteq> [] \<Longrightarrow> length (frames_buf (opened st tag fs)) \<le> length (frames_buf fs) + length (der_tag tag) + 1"
  using length_out_tag [of tag] by (auto simp: opened_def frames_buf_app_last)

text \<open>A round of the loop, from its parts.\<close>

lemma convert_step_live:
  assumes "depth \<le> kMaxDepth" "inp \<noteq> []" "CBS_get_any_ber_asn1_element inp = (Some e, inp1)" "\<not> is_eoc (elt_header_len e) (elt_out e)"
    "elt_tag e = tag" "st = 0 \<or> primitive_tag tag = st"
    "cbb_abs out fs" "resizable out" "length fs = Suc k" "\<And>m. env_realloc env m"
    and b: "length (frames_buf fs) + 3 * length inp < 2 ^ 32" "length (der_tag tag) + 5 + length d + 3 * length i \<le> 3 * length inp"
    and c: "\<And>out1. cbb_abs out1 (opened st tag fs) \<Longrightarrow> resizable out1 \<Longrightarrow>
      \<exists>o2. convert_contents env fuel k st depth e inp1 out1 = Some (True, i, o2) \<and>
        cbb_abs o2 (app_last d (opened st tag fs)) \<and> resizable o2"
    and r: "\<And>o3. cbb_abs o3 (app_last (closed st tag d) fs) \<Longrightarrow> resizable o3 \<Longrightarrow>
      length (app_last (closed st tag d) fs) = Suc k \<Longrightarrow> length (frames_buf (app_last (closed st tag d) fs)) + 3 * length i < 2 ^ 32 \<Longrightarrow>
      \<exists>out'. cbs_convert_ber env fuel k st eoc depth i o3 = Some (True, j, out') \<and>
        cbb_abs out' (app_last x (app_last (closed st tag d) fs)) \<and> resizable out'"
  shows "\<exists>out'. cbs_convert_ber env (Suc fuel) k st eoc depth inp out = Some (True, j, out') \<and>
    cbb_abs out' (app_last (closed st tag d @ x) fs) \<and> resizable out'"
proof -
  have fs: "fs \<noteq> []" using cbb_abs_nonempty [OF assms(7)] .
  have "length (frames_buf (opened st tag fs)) < SIZE_MOD"
    using length_opened_buf [OF fs, of st tag] b by (simp add: SIZE_MOD_def)
  then obtain out1 where o1: "open_contents env k st tag out = (True, out1)" "cbb_abs out1 (opened st tag fs)" "resizable out1"
    by (rule open_contents_live [OF assms(6-10)])
  obtain o2 where o2: "convert_contents env fuel k st depth e inp1 out1 = Some (True, i, o2)"
    "cbb_abs o2 (app_last d (opened st tag fs))" "resizable o2"
    using c [OF o1(2,3)] by blast
  have a: "a_flush k (app_last d (opened st tag fs)) = Some (app_last (closed st tag d) fs)"
    using a_flush_opened [OF assms(9), of d st tag] b by simp
  have l: "length (frames_buf (app_last (closed st tag d) fs)) + 3 * length i < 2 ^ 32"
    using b length_closed [of st tag d] fs by (simp add: frames_buf_app_last)
  then have "length (frames_buf (app_last (closed st tag d) fs)) < SIZE_MOD" by (simp add: SIZE_MOD_def)
  then obtain o3 where o3: "CBB_flush env k o2 = (True, o3)" "cbb_abs o3 (app_last (closed st tag d) fs)" "resizable o3"
    using implements_live [OF CBB_flush_implements TrueI o2(2) a o2(3) assms(10)] by blast
  show ?thesis using r [OF o3(2,3) _ l] assms(1-5,9) o1(1) o2(1) o3(1)
    by (simp add: convert_ber_step CBS_len_def)
qed

lemma convert_ber_complete:
  assumes al: "\<And>m. env_realloc env m"
  shows "reads st eoc depth inp j ts \<Longrightarrow> length inp < fuel \<Longrightarrow> cbb_abs out fs \<Longrightarrow> resizable out \<Longrightarrow> length fs = Suc k \<Longrightarrow>
    length (frames_buf fs) + 3 * length inp < 2 ^ 32 \<Longrightarrow>
    \<exists>out'. cbs_convert_ber env fuel k st eoc depth inp out = Some (True, j, out') \<and>
      cbb_abs out' (app_last (run_out st ts) fs) \<and> resizable out'"
proof (induction arbitrary: fuel k out fs rule: reads.induct)
  case (end_of_input depth st)
  then show ?case using cbb_abs_nonempty [OF end_of_input(3)] by (cases fuel) (simp_all add: convert_ber_step CBS_len_def)
next
  case (end_of_contents depth st j)
  have "CBS_get_any_ber_asn1_element ([0, 0] @ j) =
      (Some \<lparr>elt_out = [0, 0], elt_tag = 0, elt_header_len = 2, elt_ber_found = False\<rparr>, j)"
    by (simp add: element_eval)
  then show ?case using end_of_contents cbb_abs_nonempty [OF end_of_contents(3)]
    by (cases fuel) (simp_all add: convert_ber_step CBS_len_def is_eoc_def)
next
  case (primitive tag c l st eoc depth i j ts)
  obtain f where fuel: "fuel = Suc f" using primitive.prems(1) by (cases fuel) simp_all
  obtain b where e: "CBS_get_any_ber_asn1_element (der_tag tag @ l @ c @ i) =
    (Some \<lparr>elt_out = der_tag tag @ l @ c, elt_tag = tag, elt_header_len = length (der_tag tag @ l), elt_ber_found = b\<rparr>, i)"
    by (rule ber_element_definite [OF primitive(2)])
  have fs: "fs \<noteq> []" using cbb_abs_nonempty [OF primitive.prems(2)] .
  have ni: "\<not> is_indefinite \<lparr>elt_out = der_tag tag @ l @ c, elt_tag = tag, elt_header_len = length (der_tag tag @ l), elt_ber_found = b\<rparr>"
    using definite_not_indefinite [OF primitive(2)] by simp
  note pos = header_pos(1) [of tag] header_pos(2) [OF primitive(2)]
  have dep: "depth \<le> kMaxDepth" using reads_ber [OF primitive(5)] by simp
  have st: "st = 0 \<or> primitive_tag tag = st" using primitive(4) by (simp add: run_primitive(1) [OF primitive(1)])
  show ?case unfolding fuel run_Cons(2) [of st _ ts] run_out_closed(1) [OF primitive(1)]
  proof (rule convert_step_live [where i = i, OF dep _ e _ _ st primitive.prems(2,3,4) al primitive.prems(5)], goal_cases)
    case (5 out1)
    have "length c < SIZE_MOD" using primitive.prems(5) by (simp add: SIZE_MOD_def)
    moreover have "length (frames_buf (app_last c (opened st tag fs))) < SIZE_MOD"
      using length_opened_buf [OF fs, of st tag] primitive.prems(5) cbb_abs_nonempty [OF 5(1)] by (simp add: frames_buf_app_last SIZE_MOD_def)
    ultimately obtain o2 where "CBB_add_bytes env c (if st \<noteq> 0 then k else k + 1) out1 = (True, o2)"
      "cbb_abs o2 (app_last c (opened st tag fs))" "resizable o2"
      using implements_live [OF CBB_add_bytes_implements TrueI 5(1) a_append_top 5(2) al] length_opened [OF primitive.prems(4), of st tag]
      by blast
    with ni primitive(1) show ?case by (simp add: convert_contents_def CBS_len_def)
  next
    case (6 o3)
    then show ?case using primitive.prems(1) fuel pos by (intro primitive.IH) simp_all
  qed (use primitive pos in \<open>auto simp: is_eoc_def\<close>)
next
  case (definite tag c l st us depth eoc i j ts)
  obtain f where fuel: "fuel = Suc f" using definite.prems(1) by (cases fuel) simp_all
  have fs: "fs \<noteq> []" using cbb_abs_nonempty [OF definite.prems(2)] .
  obtain b where e: "CBS_get_any_ber_asn1_element (der_tag tag @ l @ c @ i) =
    (Some \<lparr>elt_out = der_tag tag @ l @ c, elt_tag = tag, elt_header_len = length (der_tag tag @ l), elt_ber_found = b\<rparr>, i)"
    by (rule ber_element_definite [OF definite(2)])
  have ni: "\<not> is_indefinite \<lparr>elt_out = der_tag tag @ l @ c, elt_tag = tag, elt_header_len = length (der_tag tag @ l), elt_ber_found = b\<rparr>"
    using definite_not_indefinite [OF definite(2)] by simp
  note pos = header_pos(1) [of tag] header_pos(2) [OF definite(2)] reads_out_length [OF definite(4)]
  have dep: "depth \<le> kMaxDepth" using reads_ber [OF definite(5)] by simp
  have st: "st = 0 \<or> primitive_tag tag = st" using definite(3) by (simp add: run_constructed(1) [OF definite(1)])
  show ?case unfolding fuel run_Cons(2) [of st _ ts] run_out_closed(2) [OF definite(1)]
  proof (rule convert_step_live [where i = i, OF dep _ e _ _ st definite.prems(2,3,4) al definite.prems(5)], goal_cases)
    case (5 out1)
    have "length (frames_buf (opened st tag fs)) + 3 * length c < 2 ^ 32"
      using length_opened_buf [OF fs, of st tag] definite.prems(5) pos by simp
    moreover have "length c < f" using definite.prems(1) fuel pos by simp
    ultimately obtain o2 where "cbs_convert_ber env f (if st \<noteq> 0 then k else k + 1) (child_string_tag st tag) False (depth + 1) c out1 = Some (True, [], o2)"
      "cbb_abs o2 (app_last (run_out (child_string_tag st tag) us) (opened st tag fs))" "resizable o2"
      using definite.IH(1) [OF _ 5 length_opened [OF definite.prems(4)]] by blast
    with ni definite(1) show ?case by (simp add: convert_contents_def CBS_len_def)
  next
    case (6 o3)
    then show ?case using definite.prems(1) fuel pos by (intro definite.IH(2)) simp_all
  qed (use definite pos constructed_not_zero [OF definite(1)] in \<open>simp_all add: is_eoc_def\<close>)
next
  case (indefinite tag st us depth r i eoc j ts)
  obtain f where fuel: "fuel = Suc f" using indefinite.prems(1) by (cases fuel) simp_all
  have fs: "fs \<noteq> []" using cbb_abs_nonempty [OF indefinite.prems(2)] .
  note e = ber_element_indefinite [OF indefinite(1), of r]
  note pos = header_pos(1) [of tag] reads_out_length [OF indefinite(3)] reads_length [OF indefinite(3)]
  have dep: "depth \<le> kMaxDepth" using reads_ber [OF indefinite(4)] by simp
  have st: "st = 0 \<or> primitive_tag tag = st" using indefinite(2) by (simp add: run_constructed(1) [OF indefinite(1)])
  show ?case unfolding fuel run_Cons(2) [of st _ ts] run_out_closed(2) [OF indefinite(1)]
  proof (rule convert_step_live [where i = i, OF dep _ e _ _ st indefinite.prems(2,3,4) al indefinite.prems(5)], goal_cases)
    case (5 out1)
    have "length (frames_buf (opened st tag fs)) + 3 * length r < 2 ^ 32"
      using length_opened_buf [OF fs, of st tag] indefinite.prems(5) pos by simp
    moreover have "length r < f" using indefinite.prems(1) fuel pos by simp
    ultimately obtain o2 where "cbs_convert_ber env f (if st \<noteq> 0 then k else k + 1) (child_string_tag st tag) True (depth + 1) r out1 = Some (True, i, o2)"
      "cbb_abs o2 (app_last (run_out (child_string_tag st tag) us) (opened st tag fs))" "resizable o2"
      using indefinite.IH(1) [OF _ 5 length_opened [OF indefinite.prems(4)]] by blast
    then show ?case by (simp add: convert_contents_def is_indefinite_def CBS_len_def nth_append)
  next
    case (6 o3)
    then show ?case using indefinite.prems(1) fuel pos by (intro indefinite.IH(2)) simp_all
  qed (use indefinite pos in \<open>auto simp: is_eoc_def\<close>)
qed


subsection \<open>The whole conversion\<close>

text \<open>
  What a successful call returns. Where the walk of \<open>cbs_find_ber\<close> reports BER, the input is the BER
  encoding of some trees, with strings of one type each and at most 2048 levels, and the result is
  their DER encoding; otherwise it is the first element of the input, which has a DER header.
\<close>

definition der_result :: "cbs \<Rightarrow> bytes \<Rightarrow> bool \<Rightarrow> cbs \<Rightarrow> bool" where
  "der_result inp out stored rest \<longleftrightarrow> cbs_find_ber 0 inp = Some stored \<and>
     (if stored
      then rest = [] \<and> (\<exists>ts. ber ts inp \<and> list_all (nested 2048) ts \<and> list_all strings_ok ts \<and> out = concat (map der ts))
      else inp = out @ rest \<and> der_child out)"

lemma run_out_top: "run_out 0 ts = concat (map der ts)"
  by (simp add: run_out_def)

lemma ber_to_der_sound:
  assumes "CBS_asn1_ber_to_der env inp = (Some (out, stored), rest)" "length inp < SIZE_MOD"
  shows "der_result inp out stored rest"
proof (cases stored)
  case True
  with assms(1) obtain cbb cbb' where c: "cbs_find_ber 0 inp = Some True" "CBB_init env (CBS_len inp) = (True, cbb)"
    "cbs_convert_ber env (Suc (length inp)) 0 0 False 0 inp cbb = Some (True, rest, cbb')"
    "fst (CBB_finish env True 0 cbb') = Some out"
    by (auto simp: CBS_asn1_ber_to_der_def split: option.splits prod.splits if_splits bool.splits)
  obtain ts where ts: "reads 0 False 0 inp rest ts" "cbb_abs cbb' (app_last (run_out 0 ts) [(LenPrefix 0, [])])"
    using convert_ber_sound [OF c(3) CBB_init_abs(1) [OF c(2)] _ assms(2)] by auto
  have "rest = []" using reads_ber [OF ts(1)] by simp
  moreover have "out = concat (map der ts)"
    using CBB_finish_abs [of cbb' "run_out 0 ts" env] ts(2) c(4) by (simp add: app_last_def run_out_top)
  ultimately show ?thesis using True c(1) ts(1) reads_top [of inp ts] by (auto simp: der_result_def kMaxDepth_def)
next
  case False
  with assms(1) obtain e where e: "cbs_find_ber 0 inp = Some False" "CBS_get_any_asn1_element inp = (Some e, rest)" "out = elt_out e"
    by (auto simp: CBS_asn1_ber_to_der_def split: option.splits prod.splits if_splits bool.splits)
  then have "get_child inp = (Some out, rest)" by (simp add: get_child_def)
  with e(1) False show ?thesis by (simp add: get_child_iff der_result_def)
qed

lemma ber_to_der_complete:
  assumes "der_result inp out stored rest" "alloc_ok env" "length inp \<le> 2 ^ 30"
  shows "CBS_asn1_ber_to_der env inp = (Some (out, stored), rest)"
proof (cases stored)
  case True
  with assms(1) obtain ts where f: "cbs_find_ber 0 inp = Some True" "rest = []" "out = concat (map der ts)"
    and ts: "reads 0 False 0 inp [] ts"
    by (auto simp: der_result_def reads_top kMaxDepth_def)
  have al: "env_malloc env n" "env_realloc env n" for n using assms(2) by (simp_all add: alloc_ok_def)
  obtain cbb where c: "CBB_init env (CBS_len inp) = (True, cbb)" by (simp add: CBB_init_def cbb_init_def al)
  have "length (frames_buf [(LenPrefix 0, [])]) + 3 * length inp < 2 ^ 32" using assms(3) by simp
  then obtain cbb' where "cbs_convert_ber env (Suc (length inp)) 0 0 False 0 inp cbb = Some (True, [], cbb')"
    "cbb_abs cbb' (app_last (run_out 0 ts) [(LenPrefix 0, [])])"
    using convert_ber_complete [OF al(2) ts _ CBB_init_abs [OF c], of "Suc (length inp)" 0] by auto
  with CBB_finish_abs [of cbb' "run_out 0 ts" env] show ?thesis
    using True f c by (auto simp: CBS_asn1_ber_to_der_def app_last_def run_out_top split: prod.split)
next
  case False
  with assms(1) have "cbs_find_ber 0 inp = Some False" "get_child inp = (Some out, rest)"
    by (auto simp: der_result_def get_child_iff)
  with False show ?thesis by (auto simp: CBS_asn1_ber_to_der_def get_child_def split: prod.splits option.splits)
qed

end
