(* ===== verification/Pb_Common.thy ===== *)
theory Pb_Common
  imports C_Prelude
begin

text \<open>
  The parts of nanopb that the encoder and the decoder share: the byte-addressed memory that holds
  the message structures, the constants and the field descriptor of \<open>pb.h\<close>, and the field iterator
  of \<open>pb_common.c\<close>. The library is built with \<open>PB_FIELD_32BIT\<close>, \<open>PB_NO_PACKED_STRUCTS\<close> and
  \<open>PB_ENABLE_MALLOC\<close>, for a 64-bit little-endian target.
\<close>

subsection \<open>Memory\<close>

type_synonym addr = u64
type_synonym mem = "addr \<Rightarrow> u8"

text \<open>The bytes of an object, from its address upwards.\<close>

definition mem_bytes :: "mem \<Rightarrow> addr \<Rightarrow> nat \<Rightarrow> bytes" where
  "mem_bytes m p n = map (\<lambda>i. m (p + of_nat i)) [0..<n]"

text \<open>The little-endian value of a run of bytes.\<close>

fun le_nat :: "bytes \<Rightarrow> nat" where
  "le_nat [] = 0"
| "le_nat (b # bs) = unat b + 256 * le_nat bs"

fun le_bytes :: "nat \<Rightarrow> nat \<Rightarrow> bytes" where
  "le_bytes 0 v = []"
| "le_bytes (Suc n) v = of_nat (v mod 256) # le_bytes n (v div 256)"

text \<open>Loads of the integer types of the sources; a \<open>pb_size_t\<close> has four bytes and a pointer eight.\<close>

definition ld8 :: "mem \<Rightarrow> addr \<Rightarrow> u8" where
  "ld8 m p = m p"

definition ld16 :: "mem \<Rightarrow> addr \<Rightarrow> u16" where
  "ld16 m p = of_nat (le_nat (mem_bytes m p 2))"

definition ld32 :: "mem \<Rightarrow> addr \<Rightarrow> u32" where
  "ld32 m p = of_nat (le_nat (mem_bytes m p 4))"

definition ld64 :: "mem \<Rightarrow> addr \<Rightarrow> u64" where
  "ld64 m p = of_nat (le_nat (mem_bytes m p 8))"

text \<open>A store of a run of bytes.\<close>

fun st_bytes :: "addr \<Rightarrow> bytes \<Rightarrow> mem \<Rightarrow> mem" where
  "st_bytes p [] m = m"
| "st_bytes p (b # bs) m = st_bytes (p + 1) bs (m(p := b))"

definition st32 :: "addr \<Rightarrow> u32 \<Rightarrow> mem \<Rightarrow> mem" where
  "st32 p v = st_bytes p (le_bytes 4 (unat v))"

definition st64 :: "addr \<Rightarrow> u64 \<Rightarrow> mem \<Rightarrow> mem" where
  "st64 p v = st_bytes p (le_bytes 8 (unat v))"

subsection \<open>Constants of pb.h\<close>

definition PB_LTYPE_BOOL :: u8 where "PB_LTYPE_BOOL = 0x00"
definition PB_LTYPE_VARINT :: u8 where "PB_LTYPE_VARINT = 0x01"
definition PB_LTYPE_UVARINT :: u8 where "PB_LTYPE_UVARINT = 0x02"
definition PB_LTYPE_SVARINT :: u8 where "PB_LTYPE_SVARINT = 0x03"
definition PB_LTYPE_FIXED32 :: u8 where "PB_LTYPE_FIXED32 = 0x04"
definition PB_LTYPE_FIXED64 :: u8 where "PB_LTYPE_FIXED64 = 0x05"
definition PB_LTYPE_LAST_PACKABLE :: u8 where "PB_LTYPE_LAST_PACKABLE = 0x05"
definition PB_LTYPE_BYTES :: u8 where "PB_LTYPE_BYTES = 0x06"
definition PB_LTYPE_STRING :: u8 where "PB_LTYPE_STRING = 0x07"
definition PB_LTYPE_SUBMESSAGE :: u8 where "PB_LTYPE_SUBMESSAGE = 0x08"
definition PB_LTYPE_EXTENSION :: u8 where "PB_LTYPE_EXTENSION = 0x09"
definition PB_LTYPE_FIXED_LENGTH_BYTES :: u8 where "PB_LTYPE_FIXED_LENGTH_BYTES = 0x0A"

definition PB_HTYPE_REQUIRED :: u8 where "PB_HTYPE_REQUIRED = 0x00"
definition PB_HTYPE_OPTIONAL :: u8 where "PB_HTYPE_OPTIONAL = 0x10"
definition PB_HTYPE_REPEATED :: u8 where "PB_HTYPE_REPEATED = 0x20"
definition PB_HTYPE_ONEOF :: u8 where "PB_HTYPE_ONEOF = 0x30"

definition PB_ATYPE_STATIC :: u8 where "PB_ATYPE_STATIC = 0x00"
definition PB_ATYPE_POINTER :: u8 where "PB_ATYPE_POINTER = 0x80"
definition PB_ATYPE_CALLBACK :: u8 where "PB_ATYPE_CALLBACK = 0x40"

definition PB_ATYPE :: "u8 \<Rightarrow> u8" where "PB_ATYPE x = x AND 0xC0"
definition PB_HTYPE :: "u8 \<Rightarrow> u8" where "PB_HTYPE x = x AND 0x30"
definition PB_LTYPE :: "u8 \<Rightarrow> u8" where "PB_LTYPE x = x AND 0x0F"

definition PB_SIZE_MAX :: u32 where "PB_SIZE_MAX = - 1"

lemmas pb_consts =
  PB_LTYPE_BOOL_def PB_LTYPE_VARINT_def PB_LTYPE_UVARINT_def PB_LTYPE_SVARINT_def PB_LTYPE_FIXED32_def
  PB_LTYPE_FIXED64_def PB_LTYPE_LAST_PACKABLE_def PB_LTYPE_BYTES_def PB_LTYPE_STRING_def
  PB_LTYPE_SUBMESSAGE_def PB_LTYPE_EXTENSION_def PB_LTYPE_FIXED_LENGTH_BYTES_def
  PB_HTYPE_REQUIRED_def PB_HTYPE_OPTIONAL_def PB_HTYPE_REPEATED_def PB_HTYPE_ONEOF_def
  PB_ATYPE_STATIC_def PB_ATYPE_POINTER_def PB_ATYPE_CALLBACK_def

text \<open>The enumeration of wire types; a value read from the wire may be any of 0 to 7.\<close>

definition PB_WT_VARINT :: u32 where "PB_WT_VARINT = 0"
definition PB_WT_64BIT :: u32 where "PB_WT_64BIT = 1"
definition PB_WT_STRING :: u32 where "PB_WT_STRING = 2"
definition PB_WT_32BIT :: u32 where "PB_WT_32BIT = 5"

lemmas pb_wt = PB_WT_VARINT_def PB_WT_64BIT_def PB_WT_STRING_def PB_WT_32BIT_def

subsection \<open>Field descriptors\<close>

text \<open>
  \<open>pf_ptr\<close> is the address of the field array of a submessage, or of the default value of any other
  field.
\<close>

record pb_field =
  pf_tag :: u32
  pf_type :: u8
  pf_data_offset :: u32
  pf_size_offset :: u32
  pf_data_size :: u32
  pf_array_size :: u32
  pf_ptr :: addr

definition PB_LAST_FIELD :: pb_field where
  "PB_LAST_FIELD = \<lparr>pf_tag = 0, pf_type = 0, pf_data_offset = 0, pf_size_offset = 0, pf_data_size = 0,
     pf_array_size = 0, pf_ptr = 0\<rparr>"

text \<open>A field array is the list of its entries in front of the terminator.\<close>

definition field_at :: "pb_field list \<Rightarrow> nat \<Rightarrow> pb_field" where
  "field_at fs i = (if i < length fs then fs ! i else PB_LAST_FIELD)"

text \<open>\<open>pData + size_offset\<close>, where the offset is a signed 32-bit integer.\<close>

definition size_ptr :: "addr \<Rightarrow> pb_field \<Rightarrow> addr" where
  "size_ptr pData f = pData + scast (pf_size_offset f)"

subsection \<open>The field iterator\<close>

record pb_iter =
  it_start :: "pb_field list"
  it_pos :: nat
  it_required_field_index :: u32
  it_dest_struct :: addr
  it_pData :: addr
  it_pSize :: addr

definition it_field :: "pb_iter \<Rightarrow> pb_field" where
  "it_field it = field_at (it_start it) (it_pos it)"

definition pb_field_iter_begin :: "pb_field list \<Rightarrow> addr \<Rightarrow> bool \<times> pb_iter" where
  "pb_field_iter_begin fds dest_struct =
    (let f = field_at fds 0;
         pData = (if dest_struct = 0 then 0 else dest_struct + ucast (pf_data_offset f));
         pSize = (if dest_struct = 0 then 0 else size_ptr pData f)
     in (pf_tag f \<noteq> 0,
         \<lparr>it_start = fds, it_pos = 0, it_required_field_index = 0, it_dest_struct = dest_struct,
          it_pData = pData, it_pSize = pSize\<rparr>))"

text \<open>The number of bytes that a field takes in the structure, for the address of the next one.\<close>

definition field_extent :: "pb_field \<Rightarrow> u64" where
  "field_extent f =
    (if PB_ATYPE (pf_type f) = PB_ATYPE_STATIC \<and> PB_HTYPE (pf_type f) = PB_HTYPE_REPEATED
     then ucast (pf_data_size f) * ucast (pf_array_size f)
     else if PB_ATYPE (pf_type f) = PB_ATYPE_POINTER then 8
     else ucast (pf_data_size f))"

definition pb_field_iter_next :: "pb_iter \<Rightarrow> bool \<times> pb_iter" where
  "pb_field_iter_next it =
    (let prev_field = it_field it in
     if pf_tag prev_field = 0 then (False, it)
     else
       let it = it\<lparr>it_pos := it_pos it + 1\<rparr>; f = it_field it in
       if pf_tag f = 0 then (False, snd (pb_field_iter_begin (it_start it) (it_dest_struct it)))
       else if PB_HTYPE (pf_type prev_field) = PB_HTYPE_ONEOF \<and> PB_HTYPE (pf_type f) = PB_HTYPE_ONEOF \<and>
         pf_data_offset f = PB_SIZE_MAX then (True, it)
       else
         let it = (if PB_HTYPE (pf_type prev_field) = PB_HTYPE_REQUIRED
               then it\<lparr>it_required_field_index := it_required_field_index it + 1\<rparr> else it);
             pData = it_pData it + field_extent prev_field + ucast (pf_data_offset f)
         in (True, it\<lparr>it_pData := pData, it_pSize := size_ptr pData f\<rparr>))"

text \<open>
  The search goes round the array and stops where it started. The counter bounds the number of
  steps by the number of entries and the terminator; \<open>iter_find_at\<close> shows that it is never used up.
\<close>

fun iter_find_loop :: "(pb_field \<Rightarrow> bool) \<Rightarrow> nat \<Rightarrow> nat \<Rightarrow> pb_iter \<Rightarrow> bool \<times> pb_iter" where
  "iter_find_loop wanted start n it =
    (if wanted (it_field it) then (True, it)
     else let it' = snd (pb_field_iter_next it) in
       if it_pos it' = start \<or> n = 0 then (False, it') else iter_find_loop wanted start (n - 1) it')"

declare iter_find_loop.simps [simp del]

definition pb_field_iter_find :: "u32 \<Rightarrow> pb_iter \<Rightarrow> bool \<times> pb_iter" where
  "pb_field_iter_find tag it =
     iter_find_loop (\<lambda>f. pf_tag f = tag \<and> PB_LTYPE (pf_type f) \<noteq> PB_LTYPE_EXTENSION) (it_pos it)
       (length (it_start it)) it"

text \<open>
  The iterators that a loop \<open>do ... while (pb_field_iter_next(&iter))\<close> goes through, from the first
  one; a message type without fields has none.
\<close>

fun iter_walk :: "nat \<Rightarrow> pb_iter \<Rightarrow> pb_iter list" where
  "iter_walk n it = it #
    (if n = 0 then [] else let (more, it') = pb_field_iter_next it in if more then iter_walk (n - 1) it' else [])"

declare iter_walk.simps [simp del]

definition iter_all :: "pb_field list \<Rightarrow> addr \<Rightarrow> pb_iter list" where
  "iter_all fds dest_struct =
    (let (some, it) = pb_field_iter_begin fds dest_struct in if some then iter_walk (length fds) it else [])"

subsection \<open>Extensions\<close>

text \<open>
  A \<open>pb_extension_t\<close> holds the pointers \<open>type\<close>, \<open>dest\<close> and \<open>next\<close> at the offsets 0, 8 and 16,
  the flag \<open>found\<close> at 24, and
  a \<open>pb_extension_type_t\<close> the pointers \<open>decode\<close>, \<open>encode\<close> and \<open>arg\<close>.
\<close>

definition ext_type :: "mem \<Rightarrow> addr \<Rightarrow> addr" where "ext_type m ext = ld64 m ext"
definition ext_dest :: "mem \<Rightarrow> addr \<Rightarrow> addr" where "ext_dest m ext = ld64 m (ext + 8)"
definition ext_next :: "mem \<Rightarrow> addr \<Rightarrow> addr" where "ext_next m ext = ld64 m (ext + 16)"
definition ext_type_encode :: "mem \<Rightarrow> addr \<Rightarrow> addr" where "ext_type_encode m ext = ld64 m (ext_type m ext + 8)"
definition ext_type_decode :: "mem \<Rightarrow> addr \<Rightarrow> addr" where "ext_type_decode m ext = ld64 m (ext_type m ext)"
definition ext_type_arg :: "mem \<Rightarrow> addr \<Rightarrow> addr" where "ext_type_arg m ext = ld64 m (ext_type m ext + 16)"

end
