(* ===== verification/Pb_Wire.thy ===== *)
theory Pb_Wire
  imports Pb_Common
begin

text \<open>
  The input streams of nanopb and the readers of the wire format, the first half of \<open>pb_decode.c\<close>.
  A reader returns its value (\<open>None\<close> where the C function returns false) and the stream afterwards.
\<close>

subsection \<open>Input streams\<close>

text \<open>
  The callback is the \<open>buf_read\<close> of the library or a function of the user, which fills the buffer,
  fails, or fails at the end of the file, for which it sets \<open>bytes_left\<close> to 0. What \<open>state\<close> leads to
  is the run of bytes from the current position on.
\<close>

datatype io = IO_ok "nat \<Rightarrow> u8" | IO_error | IO_eof

datatype icallback = ICB_buf_read | ICB_user "nat \<Rightarrow> bytes \<Rightarrow> io \<times> bytes"

record istream =
  is_callback :: icallback
  is_state :: bytes
  is_bytes_left :: nat
  is_errmsg :: "string option"

definition set_error :: "string \<Rightarrow> istream \<Rightarrow> istream" where
  "set_error msg s = s\<lparr>is_errmsg := (case is_errmsg s of None \<Rightarrow> Some msg | Some e \<Rightarrow> Some e)\<rparr>"

definition is_error :: "string \<Rightarrow> istream \<Rightarrow> 'a option \<times> istream" where
  "is_error msg s = (None, set_error msg s)"

definition buf_read :: "nat \<Rightarrow> bytes \<Rightarrow> io \<times> bytes" where
  "buf_read count state = (IO_ok (\<lambda>i. state ! i), drop count state)"

fun call_icallback :: "icallback \<Rightarrow> nat \<Rightarrow> bytes \<Rightarrow> io \<times> bytes" where
  "call_icallback ICB_buf_read count state = buf_read count state"
| "call_icallback (ICB_user f) count state = f count state"

definition pb_istream_from_buffer :: "bytes \<Rightarrow> nat \<Rightarrow> istream" where
  "pb_istream_from_buffer buf bufsize =
     \<lparr>is_callback = ICB_buf_read, is_state = buf, is_bytes_left = bufsize, is_errmsg = None\<rparr>"

text \<open>The callback is called for \<open>count\<close> bytes that are within \<open>bytes_left\<close>.\<close>

definition read_callback :: "nat \<Rightarrow> (istream, bytes) cfun" where
  "read_callback count s =
    (let (r, state) = call_icallback (is_callback s) count (is_state s); s = s\<lparr>is_state := state\<rparr> in
     case r of
       IO_ok g \<Rightarrow> (Some (map g [0..<count]), s\<lparr>is_bytes_left := is_bytes_left s - count\<rparr>)
     | IO_error \<Rightarrow> is_error ''io error'' s
     | IO_eof \<Rightarrow> is_error ''io error'' (s\<lparr>is_bytes_left := 0\<rparr>))"

text \<open>\<open>pb_read\<close> with a buffer, and with a null pointer for the bytes to be skipped.\<close>

definition pb_read :: "nat \<Rightarrow> (istream, bytes) cfun" where
  "pb_read count s =
    (if count = 0 then (Some [], s)
     else if is_bytes_left s < count then is_error ''end-of-stream'' s
     else read_callback count s)"

fun skip_chunks :: "nat \<Rightarrow> (istream, bytes) cfun" where
  "skip_chunks count s =
    (if count > 16 then
       case pb_read 16 s of
         (None, s) \<Rightarrow> (None, s)
       | (Some _, s) \<Rightarrow> skip_chunks (count - 16) s
     else pb_read count s)"

definition pb_read_null :: "nat \<Rightarrow> (istream, bytes) cfun" where
  "pb_read_null count s =
    (if count = 0 then (Some [], s)
     else case is_callback s of ICB_user _ \<Rightarrow> skip_chunks count s | ICB_buf_read \<Rightarrow> pb_read count s)"

definition pb_readbyte :: "(istream, u8) cfun" where
  "pb_readbyte s =
    (if is_bytes_left s = 0 then is_error ''end-of-stream'' s
     else case read_callback 1 s of (None, s) \<Rightarrow> (None, s) | (Some bs, s) \<Rightarrow> (Some (hd bs), s))"

declare skip_chunks.simps [simp del]

text \<open>What a successful call leaves is less; it is what the loops below terminate by.\<close>

lemma read_callback_left: "read_callback n s = (Some bs, s') \<Longrightarrow> is_bytes_left s' = is_bytes_left s - n"
  by (auto simp: read_callback_def is_error_def Let_def split: prod.splits io.splits)

lemma readbyte_left: "pb_readbyte s = (Some b, s') \<Longrightarrow> is_bytes_left s = Suc (is_bytes_left s')"
  by (auto simp: pb_readbyte_def is_error_def dest: read_callback_left split: prod.splits option.splits if_splits)

lemma read1_left: "pb_read (Suc 0) s = (Some b, s') \<Longrightarrow> is_bytes_left s = Suc (is_bytes_left s')"
  by (auto simp: pb_read_def is_error_def dest: read_callback_left split: if_splits)

subsection \<open>Integers of variable length\<close>

text \<open>\<open>uint_fast8_t bitpos\<close> has eight bits on the target: \<open>bitpos + 7\<close> wraps.\<close>

definition varint32_step :: "u8 \<Rightarrow> u32 \<Rightarrow> u8 \<Rightarrow> u32 option" where
  "varint32_step bitpos result byte =
    (if bitpos \<ge> 32 then
       let sign_extension = (if bitpos < 63 then 0xFF else 0x01) in
       if byte AND 0x7F \<noteq> 0 \<and> (drop_bit 31 result = 0 \<or> byte \<noteq> sign_extension) then None else Some result
     else Some (result OR push_bit (unat bitpos) (ucast (byte AND 0x7F))))"

function varint32_loop :: "u8 \<Rightarrow> u32 \<Rightarrow> (istream, u32) cfun" where
  "varint32_loop bitpos result s =
    (case pb_readbyte s of
       (None, s) \<Rightarrow> (None, s)
     | (Some byte, s) \<Rightarrow>
         (case varint32_step bitpos result byte of
            None \<Rightarrow> is_error ''varint overflow'' s
          | Some result \<Rightarrow>
              if byte AND 0x80 \<noteq> 0 then varint32_loop (bitpos + 7) result s
              else if bitpos + 7 = 35 \<and> byte AND 0x70 \<noteq> 0 then is_error ''varint overflow'' s
              else (Some result, s)))"
  by pat_completeness auto

termination
  by (relation "measure (\<lambda>(_, _, s). is_bytes_left s)") (auto dest: readbyte_left [OF sym])

text \<open>The second result is the flag that the function sets through \<open>eof\<close>.\<close>

definition pb_decode_varint32_eof :: "istream \<Rightarrow> (u32 option \<times> bool) \<times> istream" where
  "pb_decode_varint32_eof s =
    (case pb_readbyte s of
       (None, s) \<Rightarrow> ((None, is_bytes_left s = 0), s)
     | (Some byte, s) \<Rightarrow>
         if byte AND 0x80 = 0 then ((Some (ucast byte), False), s)
         else let (r, s) = varint32_loop 7 (ucast (byte AND 0x7F)) s in ((r, False), s))"

definition pb_decode_varint32 :: "(istream, u32) cfun" where
  "pb_decode_varint32 s = (let ((r, _), s) = pb_decode_varint32_eof s in (r, s))"

function varint_loop :: "u8 \<Rightarrow> u64 \<Rightarrow> (istream, u64) cfun" where
  "varint_loop bitpos result s =
    (if bitpos \<ge> 64 then is_error ''varint overflow'' s
     else case pb_readbyte s of
       (None, s) \<Rightarrow> (None, s)
     | (Some byte, s) \<Rightarrow>
         if byte AND 0x80 \<noteq> 0
         then varint_loop (bitpos + 7) (result OR push_bit (unat bitpos) (ucast (byte AND 0x7F))) s
         else (Some (result OR push_bit (unat bitpos) (ucast (byte AND 0x7F))), s))"
  by pat_completeness auto

termination
  by (relation "measure (\<lambda>(_, _, s). is_bytes_left s)") (auto dest: readbyte_left [OF sym])

definition pb_decode_varint :: "(istream, u64) cfun" where
  "pb_decode_varint = varint_loop 0 0"

function pb_skip_varint :: "(istream, unit) cfun" where
  "pb_skip_varint s =
    (case pb_read 1 s of
       (None, s) \<Rightarrow> (None, s)
     | (Some bs, s) \<Rightarrow> if hd bs AND 0x80 \<noteq> 0 then pb_skip_varint s else (Some (), s))"
  by pat_completeness auto

termination
  by (relation "measure is_bytes_left") (auto dest: read1_left [OF sym])

declare varint32_loop.simps [simp del] varint_loop.simps [simp del] pb_skip_varint.simps [simp del]

definition pb_decode_svarint :: "(istream, u64) cfun" where
  "pb_decode_svarint s =
    (case pb_decode_varint s of
       (None, s) \<Rightarrow> (None, s)
     | (Some v, s) \<Rightarrow> (Some (if v AND 1 \<noteq> 0 then NOT (drop_bit 1 v) else drop_bit 1 v), s))"

definition pb_decode_bool :: "(istream, bool) cfun" where
  "pb_decode_bool s =
    (case pb_decode_varint32 s of (None, s) \<Rightarrow> (None, s) | (Some v, s) \<Rightarrow> (Some (v \<noteq> 0), s))"

definition pb_decode_fixed32 :: "(istream, u32) cfun" where
  "pb_decode_fixed32 s =
    (case pb_read 4 s of
       (None, s) \<Rightarrow> (None, s)
     | (Some bs, s) \<Rightarrow>
         (Some (ucast (bs ! 0) OR push_bit 8 (ucast (bs ! 1)) OR push_bit 16 (ucast (bs ! 2)) OR
            push_bit 24 (ucast (bs ! 3))), s))"

definition pb_decode_fixed64 :: "(istream, u64) cfun" where
  "pb_decode_fixed64 s =
    (case pb_read 8 s of
       (None, s) \<Rightarrow> (None, s)
     | (Some bs, s) \<Rightarrow>
         (Some (ucast (bs ! 0) OR push_bit 8 (ucast (bs ! 1)) OR push_bit 16 (ucast (bs ! 2)) OR
            push_bit 24 (ucast (bs ! 3)) OR push_bit 32 (ucast (bs ! 4)) OR push_bit 40 (ucast (bs ! 5)) OR
            push_bit 48 (ucast (bs ! 6)) OR push_bit 56 (ucast (bs ! 7))), s))"

subsection \<open>Tags and fields of unknown content\<close>

definition pb_skip_string :: "(istream, unit) cfun" where
  "pb_skip_string s =
    (case pb_decode_varint32 s of
       (None, s) \<Rightarrow> (None, s)
     | (Some n, s) \<Rightarrow> (case pb_read_null (unat n) s of (r, s) \<Rightarrow> (map_option (\<lambda>_. ()) r, s)))"

text \<open>The result is the wire type and the field number, and the flag \<open>eof\<close>.\<close>

definition pb_decode_tag :: "istream \<Rightarrow> ((u32 \<times> u32) option \<times> bool) \<times> istream" where
  "pb_decode_tag s =
    (case pb_decode_varint32_eof s of
       ((None, eof), s) \<Rightarrow> ((None, eof), s)
     | ((Some temp, _), s) \<Rightarrow>
         if temp = 0 then ((None, True), s) else ((Some (temp AND 7, drop_bit 3 temp), False), s))"

definition pb_skip_field :: "u32 \<Rightarrow> (istream, unit) cfun" where
  "pb_skip_field wire_type s =
    (let unit = (\<lambda>(r, s). (map_option (\<lambda>_. ()) r, s)) in
     if wire_type = PB_WT_VARINT then pb_skip_varint s
     else if wire_type = PB_WT_64BIT then unit (pb_read_null 8 s)
     else if wire_type = PB_WT_STRING then pb_skip_string s
     else if wire_type = PB_WT_32BIT then unit (pb_read_null 4 s)
     else is_error ''invalid wire_type'' s)"

fun raw_varint :: "nat \<Rightarrow> (istream, bytes) cfun" where
  "raw_varint room s =
    (if room = 0 then (None, s)
     else case pb_read 1 s of
       (None, s) \<Rightarrow> (None, s)
     | (Some bs, s) \<Rightarrow>
         if hd bs AND 0x80 \<noteq> 0 then (case raw_varint (room - 1) s of (r, s) \<Rightarrow> (map_option ((#) (hd bs)) r, s))
         else (Some [hd bs], s))"

declare raw_varint.simps [simp del]

definition read_raw_value :: "u32 \<Rightarrow> nat \<Rightarrow> (istream, bytes) cfun" where
  "read_raw_value wire_type max_size s =
    (if wire_type = PB_WT_VARINT then raw_varint max_size s
     else if wire_type = PB_WT_64BIT then pb_read 8 s
     else if wire_type = PB_WT_32BIT then pb_read 4 s
     else is_error ''invalid wire_type'' s)"

subsection \<open>Substreams\<close>

definition pb_make_string_substream :: "(istream, istream) cfun" where
  "pb_make_string_substream s =
    (case pb_decode_varint32 s of
       (None, s) \<Rightarrow> (None, s)
     | (Some n, s) \<Rightarrow>
         if is_bytes_left s < unat n then is_error ''parent stream too short'' s
         else (Some (s\<lparr>is_bytes_left := unat n\<rparr>), s\<lparr>is_bytes_left := is_bytes_left s - unat n\<rparr>))"

definition pb_close_string_substream :: "istream \<Rightarrow> istream \<Rightarrow> bool \<times> istream" where
  "pb_close_string_substream s sub =
    (let (r, sub) = (if is_bytes_left sub \<noteq> 0 then pb_read_null (is_bytes_left sub) sub else (Some [], sub))
     in if r = None then (False, s)
        else (True, s\<lparr>is_state := is_state sub, is_errmsg := is_errmsg sub\<rparr>))"

end
