(* ===== verification/Pb_Decode.thy ===== *)
theory Pb_Decode
  imports Pb_Wire
begin

text \<open>
  The decoder of nanopb, the second half of \<open>pb_decode.c\<close>: the field decoders, which store into the
  message structure in memory, the allocation and release of dynamic fields, the default values, and
  the decoding of whole messages.
\<close>

subsection \<open>Memory with an allocator\<close>

text \<open>The live allocations are their addresses and sizes.\<close>

record heap =
  h_mem :: mem
  h_live :: "(addr \<times> nat) list"

text \<open>
  What the decoder finds behind pointers to constants and functions, the address that \<open>realloc\<close>
  returns (0 where it fails), and the address of the local variable \<open>fixed_count_size\<close> in the frame
  of a call of \<open>pb_decode_noinit\<close>, which the iterator points to.
\<close>

record dec_env =
  de_fields :: "addr \<Rightarrow> pb_field list"
  de_realloc :: "addr \<Rightarrow> nat \<Rightarrow> (addr \<times> nat) list \<Rightarrow> addr"
  de_frame :: "nat \<Rightarrow> addr"
  de_decode :: "addr \<Rightarrow> pb_field \<Rightarrow> addr \<Rightarrow> istream \<Rightarrow> heap \<Rightarrow> bool \<times> istream \<times> heap"
  de_ext_decode :: "addr \<Rightarrow> addr \<Rightarrow> u32 \<Rightarrow> u32 \<Rightarrow> istream \<Rightarrow> heap \<Rightarrow> bool \<times> istream \<times> heap"

definition poke :: "addr \<Rightarrow> bytes \<Rightarrow> heap \<Rightarrow> heap" where
  "poke p bs h = h\<lparr>h_mem := st_bytes p bs (h_mem h)\<rparr>"

definition poke32 :: "addr \<Rightarrow> u32 \<Rightarrow> heap \<Rightarrow> heap" where
  "poke32 p v = poke p (le_bytes 4 (unat v))"

definition poke64 :: "addr \<Rightarrow> u64 \<Rightarrow> heap \<Rightarrow> heap" where
  "poke64 p v = poke p (le_bytes 8 (unat v))"

definition memset0 :: "addr \<Rightarrow> nat \<Rightarrow> heap \<Rightarrow> heap" where
  "memset0 p n = poke p (replicate n 0)"

definition block_size :: "addr \<Rightarrow> heap \<Rightarrow> nat" where
  "block_size p h = (case map_of (h_live h) p of None \<Rightarrow> 0 | Some n \<Rightarrow> n)"

definition pb_free :: "addr \<Rightarrow> heap \<Rightarrow> heap" where
  "pb_free p h = h\<lparr>h_live := filter (\<lambda>b. fst b \<noteq> p) (h_live h)\<rparr>"

definition pb_realloc :: "dec_env \<Rightarrow> addr \<Rightarrow> nat \<Rightarrow> heap \<Rightarrow> addr \<times> heap" where
  "pb_realloc env p n h =
    (let q = de_realloc env p n (h_live h) in
     if q = 0 then (0, h)
     else let h' = poke q (mem_bytes (h_mem h) p (min n (block_size p h))) (pb_free p h)
       in (q, h'\<lparr>h_live := (q, n) # h_live h'\<rparr>))"

definition ret :: "bool \<times> istream \<Rightarrow> heap \<Rightarrow> (bool \<times> istream \<times> heap) option" where
  "ret r h = Some (fst r, snd r, h)"

definition dec_error :: "string \<Rightarrow> istream \<Rightarrow> heap \<Rightarrow> (bool \<times> istream \<times> heap) option" where
  "dec_error msg s h = Some (False, set_error msg s, h)"

type_synonym dec_result = "(bool \<times> istream \<times> heap) option"

text \<open>The data go to \<open>p\<close>.\<close>

definition pb_read_to :: "addr \<Rightarrow> nat \<Rightarrow> istream \<Rightarrow> heap \<Rightarrow> bool \<times> istream \<times> heap" where
  "pb_read_to p n s h =
    (case pb_read n s of (None, s) \<Rightarrow> (False, s, h) | (Some bs, s) \<Rightarrow> (True, s, poke p bs h))"

subsection \<open>Allocation\<close>

definition allocate_field :: "dec_env \<Rightarrow> addr \<Rightarrow> u64 \<Rightarrow> u64 \<Rightarrow> istream \<Rightarrow> heap \<Rightarrow> bool \<times> istream \<times> heap" where
  "allocate_field env pData data_size array_size s h =
    (let p = ld64 (h_mem h) pData; check_limit = push_bit 32 1 :: u64 in
     if data_size = 0 \<or> array_size = 0 then (False, set_error ''invalid size'' s, h)
     else if (data_size \<ge> check_limit \<or> array_size \<ge> check_limit) \<and> (- 1 div array_size < data_size)
     then (False, set_error ''size too large'' s, h)
     else let (q, h) = pb_realloc env p (unat (array_size * data_size)) h in
       if q = 0 then (False, set_error ''realloc failed'' s, h) else (True, s, poke64 pData q h))"

subsection \<open>Field decoders\<close>

type_synonym decoder = "pb_field \<Rightarrow> addr \<Rightarrow> istream \<Rightarrow> heap \<Rightarrow> bool \<times> istream \<times> heap"

definition pb_dec_bool :: decoder where
  "pb_dec_bool f dest s h =
    (case pb_decode_varint32 s of
       (None, s) \<Rightarrow> (False, s, h)
     | (Some value, s) \<Rightarrow> (True, s, poke dest [if value \<noteq> 0 then 1 else 0] h))"

text \<open>The value as a variable of \<open>data_size\<close> bytes holds it, signed and unsigned.\<close>

definition clamp_signed :: "u32 \<Rightarrow> u64 \<Rightarrow> u64 option" where
  "clamp_signed data_size v =
    (if data_size = 8 then Some v
     else if data_size = 4 then Some (scast (ucast v :: u32))
     else if data_size = 2 then Some (scast (ucast v :: u16))
     else if data_size = 1 then Some (scast (ucast v :: u8))
     else None)"

definition clamp_unsigned :: "u32 \<Rightarrow> u64 \<Rightarrow> u64 option" where
  "clamp_unsigned data_size v =
    (if data_size = 8 then Some v
     else if data_size = 4 then Some (ucast (ucast v :: u32))
     else if data_size = 2 then Some (ucast (ucast v :: u16))
     else if data_size = 1 then Some (ucast (ucast v :: u8))
     else None)"

text \<open>The store comes before the comparison of the clamped value with the one that was read.\<close>

definition store_clamped :: "u64 option \<Rightarrow> u32 \<Rightarrow> u64 \<Rightarrow> addr \<Rightarrow> istream \<Rightarrow> heap \<Rightarrow> bool \<times> istream \<times> heap" where
  "store_clamped clamped data_size v dest s h =
    (case clamped of
       None \<Rightarrow> (False, set_error ''invalid data_size'' s, h)
     | Some c \<Rightarrow>
         let h = poke dest (le_bytes (unat data_size) (unat v)) h in
         if c \<noteq> v then (False, set_error ''integer too large'' s, h) else (True, s, h))"

definition pb_dec_varint :: decoder where
  "pb_dec_varint f dest s h =
    (case pb_decode_varint s of
       (None, s) \<Rightarrow> (False, s, h)
     | (Some value, s) \<Rightarrow>
         let svalue = (if pf_data_size f = 8 then value else scast (ucast value :: u32))
         in store_clamped (clamp_signed (pf_data_size f) svalue) (pf_data_size f) svalue dest s h)"

definition pb_dec_uvarint :: decoder where
  "pb_dec_uvarint f dest s h =
    (case pb_decode_varint s of
       (None, s) \<Rightarrow> (False, s, h)
     | (Some value, s) \<Rightarrow> store_clamped (clamp_unsigned (pf_data_size f) value) (pf_data_size f) value dest s h)"

definition pb_dec_svarint :: decoder where
  "pb_dec_svarint f dest s h =
    (case pb_decode_svarint s of
       (None, s) \<Rightarrow> (False, s, h)
     | (Some value, s) \<Rightarrow> store_clamped (clamp_signed (pf_data_size f) value) (pf_data_size f) value dest s h)"

definition pb_dec_fixed32 :: decoder where
  "pb_dec_fixed32 f dest s h =
    (case pb_decode_fixed32 s of (None, s) \<Rightarrow> (False, s, h) | (Some v, s) \<Rightarrow> (True, s, poke32 dest v h))"

definition pb_dec_fixed64 :: decoder where
  "pb_dec_fixed64 f dest s h =
    (case pb_decode_fixed64 s of (None, s) \<Rightarrow> (False, s, h) | (Some v, s) \<Rightarrow> (True, s, poke64 dest v h))"

definition pb_dec_bytes :: "dec_env \<Rightarrow> decoder" where
  "pb_dec_bytes env f dest s h =
    (case pb_decode_varint32 s of
       (None, s) \<Rightarrow> (False, s, h)
     | (Some n, s) \<Rightarrow>
         let alloc_size = ucast n + 4 :: u64 in
         if n > PB_SIZE_MAX then (False, set_error ''bytes overflow'' s, h)
         else if ucast n > alloc_size then (False, set_error ''size too large'' s, h)
         else if PB_ATYPE (pf_type f) = PB_ATYPE_POINTER then
           if is_bytes_left s < unat n then (False, set_error ''end-of-stream'' s, h)
           else
             let (ok, s, h) = allocate_field env dest alloc_size 1 s h in
             if \<not> ok then (False, s, h)
             else let bdest = ld64 (h_mem h) dest in pb_read_to (bdest + 4) (unat n) s (poke32 bdest n h)
         else if alloc_size > ucast (pf_data_size f) then (False, set_error ''bytes overflow'' s, h)
         else pb_read_to (dest + 4) (unat n) s (poke32 dest n h))"

text \<open>\<open>size + 1\<close> is a 32-bit addition; the terminator is written whether the read succeeds or not.\<close>

definition read_string_to :: "addr \<Rightarrow> u32 \<Rightarrow> istream \<Rightarrow> heap \<Rightarrow> bool \<times> istream \<times> heap" where
  "read_string_to dest n s h =
    (let (status, s, h) = pb_read_to dest (unat n) s h in (status, s, poke (dest + ucast n) [0] h))"

definition pb_dec_string :: "dec_env \<Rightarrow> decoder" where
  "pb_dec_string env f dest s h =
    (case pb_decode_varint32 s of
       (None, s) \<Rightarrow> (False, s, h)
     | (Some n, s) \<Rightarrow>
         let alloc_size = ucast (n + 1) :: u64 in
         if alloc_size < ucast n then (False, set_error ''size too large'' s, h)
         else if PB_ATYPE (pf_type f) = PB_ATYPE_POINTER then
           if is_bytes_left s < unat n then (False, set_error ''end-of-stream'' s, h)
           else
             let (ok, s, h) = allocate_field env dest alloc_size 1 s h in
             if \<not> ok then (False, s, h) else read_string_to (ld64 (h_mem h) dest) n s h
         else if alloc_size > ucast (pf_data_size f) then (False, set_error ''string overflow'' s, h)
         else read_string_to dest n s h)"

definition pb_dec_fixed_length_bytes :: decoder where
  "pb_dec_fixed_length_bytes f dest s h =
    (case pb_decode_varint32 s of
       (None, s) \<Rightarrow> (False, s, h)
     | (Some n, s) \<Rightarrow>
         if n > PB_SIZE_MAX then (False, set_error ''bytes overflow'' s, h)
         else if n = 0 then (True, s, memset0 dest (unat (pf_data_size f)) h)
         else if n \<noteq> pf_data_size f then (False, set_error ''incorrect fixed length bytes size'' s, h)
         else pb_read_to dest (unat (pf_data_size f)) s h)"

subsection \<open>Default values\<close>

definition iter_from_extension :: "dec_env \<Rightarrow> addr \<Rightarrow> heap \<Rightarrow> pb_iter" where
  "iter_from_extension env ext h =
    (let m = h_mem h; fds = de_fields env (ext_type_arg m ext);
         it = (snd (pb_field_iter_begin fds (ext_dest m ext)))\<lparr>it_pData := ext_dest m ext, it_pSize := ext + 24\<rparr>
     in if PB_ATYPE (pf_type (field_at fds 0)) = PB_ATYPE_POINTER then it\<lparr>it_pData := ext + 8\<rparr> else it)"

text \<open>A loop over a list of extensions; the next one is looked up after the body has run.\<close>

fun ext_loop :: "nat \<Rightarrow> (addr \<Rightarrow> heap \<Rightarrow> heap option) \<Rightarrow> addr \<Rightarrow> heap \<Rightarrow> heap option" where
  "ext_loop 0 body ext h = None"
| "ext_loop (Suc k) body ext h =
    (if ext = 0 then Some h
     else case body ext h of None \<Rightarrow> None | Some h \<Rightarrow> ext_loop k body (ext_next (h_mem h) ext) h)"

fun heap_all :: "(pb_iter \<Rightarrow> heap \<Rightarrow> heap option) \<Rightarrow> pb_iter list \<Rightarrow> heap \<Rightarrow> heap option" where
  "heap_all body [] h = Some h"
| "heap_all body (it # its) h = (case body it h of None \<Rightarrow> None | Some h \<Rightarrow> heap_all body its h)"

text \<open>
  The two functions call each other through submessages and extensions; \<open>None\<close> is a call that needs
  more fuel.
\<close>

definition set_static_default :: "(addr \<Rightarrow> addr \<Rightarrow> heap \<Rightarrow> heap option) \<Rightarrow> pb_iter \<Rightarrow> heap \<Rightarrow> heap option" where
  "set_static_default set_message it h =
    (let f = it_field it; ty = pf_type f in
     if PB_HTYPE ty = PB_HTYPE_REPEATED \<or> PB_HTYPE ty = PB_HTYPE_ONEOF then Some (poke32 (it_pSize it) 0 h)
     else
       let h = (if PB_HTYPE ty = PB_HTYPE_OPTIONAL \<and> it_pSize it \<noteq> it_pData it
             then poke (it_pSize it) [0] h else h)
       in if PB_LTYPE ty = PB_LTYPE_SUBMESSAGE then set_message (pf_ptr f) (it_pData it) h
          else if pf_ptr f \<noteq> 0
          then Some (poke (it_pData it) (mem_bytes (h_mem h) (pf_ptr f) (unat (pf_data_size f))) h)
          else Some (memset0 (it_pData it) (unat (pf_data_size f)) h))"

fun pb_field_set_to_default :: "nat \<Rightarrow> dec_env \<Rightarrow> pb_iter \<Rightarrow> heap \<Rightarrow> heap option"
  and pb_message_set_to_defaults :: "nat \<Rightarrow> dec_env \<Rightarrow> addr \<Rightarrow> addr \<Rightarrow> heap \<Rightarrow> heap option" where
  "pb_field_set_to_default 0 env it h = None"
| "pb_field_set_to_default (Suc n) env it h =
    (let f = it_field it; ty = pf_type f in
     if PB_LTYPE ty = PB_LTYPE_EXTENSION then
       ext_loop n (\<lambda>ext h. let h = poke (ext + 24) [0] h in
           pb_field_set_to_default n env (iter_from_extension env ext h) h)
         (ld64 (h_mem h) (it_pData it)) h
     else if PB_ATYPE ty = PB_ATYPE_STATIC
     then set_static_default (pb_message_set_to_defaults n env) it h
     else if PB_ATYPE ty = PB_ATYPE_POINTER then
       let h = poke64 (it_pData it) 0 h in
       if PB_HTYPE ty = PB_HTYPE_REPEATED \<or> PB_HTYPE ty = PB_HTYPE_ONEOF
       then Some (poke32 (it_pSize it) 0 h) else Some h
     else Some h)"
| "pb_message_set_to_defaults 0 env fds dest h = None"
| "pb_message_set_to_defaults (Suc n) env fds dest h =
     heap_all (pb_field_set_to_default n env) (iter_all (de_fields env fds) dest) h"

subsection \<open>Release\<close>

fun release_items :: "(addr \<Rightarrow> heap \<Rightarrow> heap option) \<Rightarrow> nat \<Rightarrow> addr \<Rightarrow> u64 \<Rightarrow> heap \<Rightarrow> heap option" where
  "release_items rel 0 p step h = Some h"
| "release_items rel (Suc k) p step h =
    (case rel p h of None \<Rightarrow> None | Some h \<Rightarrow> release_items rel k (p + step) step h)"

text \<open>The strings of a dynamic array of strings.\<close>

fun free_entries :: "nat \<Rightarrow> addr \<Rightarrow> heap \<Rightarrow> heap" where
  "free_entries 0 p h = h"
| "free_entries (Suc k) p h = free_entries k (p + 8) (poke64 p 0 (pb_free (ld64 (h_mem h) p) h))"

definition release_count :: "pb_iter \<Rightarrow> heap \<Rightarrow> u32" where
  "release_count it h =
    (let f = it_field it; ty = pf_type f in
     if PB_HTYPE ty \<noteq> PB_HTYPE_REPEATED then 1
     else let count = (if PB_ATYPE ty = PB_ATYPE_STATIC \<and> it_pSize it = it_pData it then pf_array_size f
           else ld32 (h_mem h) (it_pSize it))
       in if PB_ATYPE ty = PB_ATYPE_STATIC \<and> count > pf_array_size f then pf_array_size f else count)"

definition release_pointer :: "pb_iter \<Rightarrow> heap \<Rightarrow> heap" where
  "release_pointer it h =
    (let ty = pf_type (it_field it) in
     if PB_ATYPE ty \<noteq> PB_ATYPE_POINTER then h
     else
       let h = (if PB_HTYPE ty = PB_HTYPE_REPEATED \<and> PB_LTYPE ty \<in> {PB_LTYPE_STRING, PB_LTYPE_BYTES}
             then free_entries (unat (ld32 (h_mem h) (it_pSize it))) (ld64 (h_mem h) (it_pData it)) h else h);
           h = (if PB_HTYPE ty = PB_HTYPE_REPEATED then poke32 (it_pSize it) 0 h else h)
       in poke64 (it_pData it) 0 (pb_free (ld64 (h_mem h) (it_pData it)) h))"

fun pb_release_single_field :: "nat \<Rightarrow> dec_env \<Rightarrow> pb_iter \<Rightarrow> heap \<Rightarrow> heap option"
  and pb_release :: "nat \<Rightarrow> dec_env \<Rightarrow> addr \<Rightarrow> addr \<Rightarrow> heap \<Rightarrow> heap option" where
  "pb_release_single_field 0 env it h = None"
| "pb_release_single_field (Suc n) env it h =
    (let f = it_field it; ty = pf_type f in
     if PB_HTYPE ty = PB_HTYPE_ONEOF \<and> ld32 (h_mem h) (it_pSize it) \<noteq> pf_tag f then Some h
     else
       map_option (release_pointer it)
        (if PB_LTYPE ty = PB_LTYPE_EXTENSION then
           ext_loop n (\<lambda>ext h. pb_release_single_field n env (iter_from_extension env ext h) h)
             (ld64 (h_mem h) (it_pData it)) h
         else if PB_LTYPE ty = PB_LTYPE_SUBMESSAGE \<and> PB_ATYPE ty \<noteq> PB_ATYPE_CALLBACK then
           let pItem = (if PB_ATYPE ty = PB_ATYPE_POINTER then ld64 (h_mem h) (it_pData it) else it_pData it)
           in if pItem = 0 then Some h
              else release_items (pb_release n env (pf_ptr f)) (unat (release_count it h)) pItem
                (ucast (pf_data_size f)) h
         else Some h))"
| "pb_release 0 env fds dest h = None"
| "pb_release (Suc n) env fds dest h =
    (if dest = 0 then Some h
     else heap_all (pb_release_single_field n env) (iter_all (de_fields env fds) dest) h)"

text \<open>The second result is the iterator, which the search has moved.\<close>

definition pb_release_union_field :: "nat \<Rightarrow> dec_env \<Rightarrow> pb_iter \<Rightarrow> istream \<Rightarrow> heap \<Rightarrow> (bool \<times> pb_iter \<times> istream \<times> heap) option" where
  "pb_release_union_field n env it s h =
    (let old_tag = ld32 (h_mem h) (it_pSize it); new_tag = pf_tag (it_field it) in
     if old_tag = 0 \<or> old_tag = new_tag then Some (True, it, s, h)
     else
       let (found, it) = pb_field_iter_find old_tag it in
       if \<not> found then Some (False, it, set_error ''invalid union tag'' s, h)
       else case pb_release_single_field n env it h of
         None \<Rightarrow> None
       | Some h \<Rightarrow>
           let (found, it) = pb_field_iter_find new_tag it in
           if \<not> found then Some (False, it, set_error ''iterator error'' s, h)
           else Some (True, it, s,
             if PB_ATYPE (pf_type (it_field it)) = PB_ATYPE_POINTER then poke64 (it_pData it) 0 h else h))"

subsection \<open>Fields\<close>

type_synonym msg_decoder = "addr \<Rightarrow> addr \<Rightarrow> istream \<Rightarrow> heap \<Rightarrow> dec_result"

definition pb_decode_with :: "nat \<Rightarrow> dec_env \<Rightarrow> msg_decoder \<Rightarrow> msg_decoder" where
  "pb_decode_with n env noinit fds dest s h =
    (case pb_message_set_to_defaults n env fds dest h of
       None \<Rightarrow> None
     | Some h \<Rightarrow> (case noinit fds dest s h of
           None \<Rightarrow> None
         | Some (status, s, h) \<Rightarrow>
             if status then Some (True, s, h)
             else map_option (\<lambda>h. (False, s, h)) (pb_release n env fds dest h)))"

text \<open>A decoder that runs on a substream, and the end of the substream.\<close>

definition close_with :: "istream \<Rightarrow> bool \<Rightarrow> istream \<Rightarrow> heap \<Rightarrow> bool \<times> istream \<times> heap" where
  "close_with s status sub h =
    (let (ok, s) = pb_close_string_substream s sub in if ok then (status, s, h) else (False, s, h))"

definition on_substream :: "(istream \<Rightarrow> heap \<Rightarrow> dec_result) \<Rightarrow> istream \<Rightarrow> heap \<Rightarrow> dec_result" where
  "on_substream dec s h =
    (case pb_make_string_substream s of
       (None, s) \<Rightarrow> Some (False, s, h)
     | (Some sub, s) \<Rightarrow> map_option (\<lambda>(status, sub, h). close_with s status sub h) (dec sub h))"

definition pb_dec_submessage :: "nat \<Rightarrow> dec_env \<Rightarrow> msg_decoder \<Rightarrow> pb_field \<Rightarrow> addr \<Rightarrow> istream \<Rightarrow> heap \<Rightarrow> dec_result" where
  "pb_dec_submessage n env noinit f dest s h =
    (if pf_ptr f = 0 then
       (case pb_make_string_substream s of
          (None, s) \<Rightarrow> Some (False, s, h)
        | (Some _, s) \<Rightarrow> dec_error ''invalid field descriptor'' s h)
     else on_substream (if PB_HTYPE (pf_type f) = PB_HTYPE_REPEATED then pb_decode_with n env noinit (pf_ptr f) dest
         else noinit (pf_ptr f) dest) s h)"

text \<open>The table of field decoders.\<close>

definition PB_DECODERS :: "nat \<Rightarrow> dec_env \<Rightarrow> msg_decoder \<Rightarrow> u8 \<Rightarrow> pb_field \<Rightarrow> addr \<Rightarrow> istream \<Rightarrow> heap \<Rightarrow> dec_result" where
  "PB_DECODERS n env noinit ltype f dest s h =
    (if ltype = PB_LTYPE_BOOL then Some (pb_dec_bool f dest s h)
     else if ltype = PB_LTYPE_VARINT then Some (pb_dec_varint f dest s h)
     else if ltype = PB_LTYPE_UVARINT then Some (pb_dec_uvarint f dest s h)
     else if ltype = PB_LTYPE_SVARINT then Some (pb_dec_svarint f dest s h)
     else if ltype = PB_LTYPE_FIXED32 then Some (pb_dec_fixed32 f dest s h)
     else if ltype = PB_LTYPE_FIXED64 then Some (pb_dec_fixed64 f dest s h)
     else if ltype = PB_LTYPE_BYTES then Some (pb_dec_bytes env f dest s h)
     else if ltype = PB_LTYPE_STRING then Some (pb_dec_string env f dest s h)
     else if ltype = PB_LTYPE_SUBMESSAGE then pb_dec_submessage n env noinit f dest s h
     else if ltype = PB_LTYPE_FIXED_LENGTH_BYTES then Some (pb_dec_fixed_length_bytes f dest s h)
     else None)"

text \<open>The address of an entry of an array: the multiplication has 32 bits.\<close>

definition item_addr :: "addr \<Rightarrow> pb_field \<Rightarrow> u32 \<Rightarrow> addr" where
  "item_addr base f i = base + ucast (pf_data_size f * i)"

text \<open>
  The loop over a packed array in a static field. Every entry takes at least one byte of the
  substream, so that one more step than there are bytes is enough.
\<close>

fun static_packed :: "nat \<Rightarrow> (addr \<Rightarrow> istream \<Rightarrow> heap \<Rightarrow> dec_result) \<Rightarrow> pb_iter \<Rightarrow> istream \<Rightarrow> heap \<Rightarrow> dec_result" where
  "static_packed 0 func it sub h = None"
| "static_packed (Suc k) func it sub h =
    (let count = ld32 (h_mem h) (it_pSize it) in
     if is_bytes_left sub > 0 \<and> count < pf_array_size (it_field it) then
       case func (item_addr (it_pData it) (it_field it) count) sub h of
         None \<Rightarrow> None
       | Some (ok, sub, h) \<Rightarrow>
           if \<not> ok then Some (False, sub, h)
           else static_packed k func it sub (poke32 (it_pSize it) (ld32 (h_mem h) (it_pSize it) + 1) h)
     else Some (True, sub, h))"

definition decode_static_field :: "nat \<Rightarrow> dec_env \<Rightarrow> msg_decoder \<Rightarrow> u32 \<Rightarrow> pb_iter \<Rightarrow> istream \<Rightarrow> heap \<Rightarrow> dec_result" where
  "decode_static_field n env noinit wire_type it s h =
    (let f = it_field it; ty = pf_type f; func = PB_DECODERS n env noinit (PB_LTYPE ty) f in
     if PB_HTYPE ty = PB_HTYPE_REQUIRED then func (it_pData it) s h
     else if PB_HTYPE ty = PB_HTYPE_OPTIONAL then
       func (it_pData it) s (if it_pSize it \<noteq> it_pData it then poke (it_pSize it) [1] h else h)
     else if PB_HTYPE ty = PB_HTYPE_REPEATED then
       if wire_type = PB_WT_STRING \<and> PB_LTYPE ty \<le> PB_LTYPE_LAST_PACKABLE then
         (case pb_make_string_substream s of
            (None, s) \<Rightarrow> Some (False, s, h)
          | (Some sub, s) \<Rightarrow>
              (case static_packed (Suc (is_bytes_left sub)) func it sub h of
                 None \<Rightarrow> None
               | Some (status, sub, h) \<Rightarrow>
                   if is_bytes_left sub \<noteq> 0 then dec_error ''array overflow'' s h
                   else Some (close_with s status sub h)))
       else
         let count = ld32 (h_mem h) (it_pSize it); h = poke32 (it_pSize it) (count + 1) h in
         if count \<ge> pf_array_size f then dec_error ''array overflow'' s h
         else func (item_addr (it_pData it) f count) s h
     else if PB_HTYPE ty = PB_HTYPE_ONEOF then
       (case (if PB_LTYPE ty = PB_LTYPE_SUBMESSAGE \<and> ld32 (h_mem h) (it_pSize it) \<noteq> pf_tag f
           then pb_message_set_to_defaults n env (pf_ptr f) (it_pData it) (memset0 (it_pData it) (unat (pf_data_size f)) h)
           else Some h) of
          None \<Rightarrow> None
        | Some h \<Rightarrow> func (it_pData it) s (poke32 (it_pSize it) (pf_tag f) h))
     else dec_error ''invalid field type'' s h)"

definition initialize_pointer_field :: "nat \<Rightarrow> dec_env \<Rightarrow> addr \<Rightarrow> pb_field \<Rightarrow> heap \<Rightarrow> heap option" where
  "initialize_pointer_field n env pItem f h =
    (if PB_LTYPE (pf_type f) \<in> {PB_LTYPE_STRING, PB_LTYPE_BYTES} then Some (poke64 pItem 0 h)
     else if PB_LTYPE (pf_type f) = PB_LTYPE_SUBMESSAGE
     then pb_message_set_to_defaults n env (pf_ptr f) pItem (memset0 pItem (unat (pf_data_size f)) h)
     else Some h)"

text \<open>
  The room for the entries of a packed array: the guess of the number of entries that are left, which
  is used unless the count would get near \<open>PB_SIZE_MAX\<close>.
\<close>

definition grown_size :: "nat \<Rightarrow> u32 \<Rightarrow> u64 \<Rightarrow> u64" where
  "grown_size left data_size allocated_size =
    (let remain = (of_nat (left - 1)) div ucast data_size + 1 in
     if remain < ucast PB_SIZE_MAX - allocated_size then allocated_size + remain else allocated_size + 1)"

text \<open>The first result tells whether the count has reached its maximum; a zero \<open>data_size\<close> divides by zero.\<close>

fun pointer_packed ::
  "nat \<Rightarrow> nat \<Rightarrow> dec_env \<Rightarrow> (addr \<Rightarrow> istream \<Rightarrow> heap \<Rightarrow> dec_result) \<Rightarrow> pb_iter \<Rightarrow> u64 \<Rightarrow> istream \<Rightarrow> heap \<Rightarrow>
   (bool \<times> bool \<times> istream \<times> heap) option" where
  "pointer_packed 0 n env func it allocated sub h = None"
| "pointer_packed (Suc k) n env func it allocated sub h =
    (let f = it_field it; count = ld32 (h_mem h) (it_pSize it) in
     if is_bytes_left sub = 0 then Some (False, True, sub, h)
     else if count = PB_SIZE_MAX then Some (True, False, sub, h)
     else if pf_data_size f = 0 then None
     else
       let grow = ucast count + 1 > allocated;
           allocated = (if grow then grown_size (is_bytes_left sub) (pf_data_size f) allocated else allocated);
           (ok, sub, h) = (if grow then allocate_field env (it_pData it) (ucast (pf_data_size f)) allocated sub h
             else (True, sub, h));
           pItem = item_addr (ld64 (h_mem h) (it_pData it)) f (ld32 (h_mem h) (it_pSize it))
       in if \<not> ok \<or> pItem = 0 then Some (False, False, sub, h)
          else case initialize_pointer_field n env pItem f h of
            None \<Rightarrow> None
          | Some h \<Rightarrow> (case func pItem sub h of
                None \<Rightarrow> None
              | Some (ok, sub, h) \<Rightarrow>
                  if \<not> ok then Some (False, False, sub, h)
                  else pointer_packed k n env func it allocated sub
                    (poke32 (it_pSize it) (ld32 (h_mem h) (it_pSize it) + 1) h)))"

definition decode_pointer_single :: "nat \<Rightarrow> dec_env \<Rightarrow> msg_decoder \<Rightarrow> pb_iter \<Rightarrow> istream \<Rightarrow> heap \<Rightarrow> dec_result" where
  "decode_pointer_single n env noinit it s h =
    (let f = it_field it; ty = pf_type f; func = PB_DECODERS n env noinit (PB_LTYPE ty) f in
     case (if PB_LTYPE ty = PB_LTYPE_SUBMESSAGE \<and> ld64 (h_mem h) (it_pData it) \<noteq> 0
         then pb_release_single_field n env it h else Some h) of
       None \<Rightarrow> None
     | Some h \<Rightarrow>
         let h = (if PB_HTYPE ty = PB_HTYPE_ONEOF then poke32 (it_pSize it) (pf_tag f) h else h) in
         if PB_LTYPE ty \<in> {PB_LTYPE_STRING, PB_LTYPE_BYTES} then func (it_pData it) s h
         else
           let (ok, s, h) = allocate_field env (it_pData it) (ucast (pf_data_size f)) 1 s h in
           if \<not> ok then Some (False, s, h)
           else case initialize_pointer_field n env (ld64 (h_mem h) (it_pData it)) f h of
             None \<Rightarrow> None
           | Some h \<Rightarrow> func (ld64 (h_mem h) (it_pData it)) s h)"

definition decode_pointer_field :: "nat \<Rightarrow> dec_env \<Rightarrow> msg_decoder \<Rightarrow> u32 \<Rightarrow> pb_iter \<Rightarrow> istream \<Rightarrow> heap \<Rightarrow> dec_result" where
  "decode_pointer_field n env noinit wire_type it s h =
    (let f = it_field it; ty = pf_type f; func = PB_DECODERS n env noinit (PB_LTYPE ty) f in
     if PB_HTYPE ty \<in> {PB_HTYPE_REQUIRED, PB_HTYPE_OPTIONAL, PB_HTYPE_ONEOF} then decode_pointer_single n env noinit it s h
     else if PB_HTYPE ty = PB_HTYPE_REPEATED then
       if wire_type = PB_WT_STRING \<and> PB_LTYPE ty \<le> PB_LTYPE_LAST_PACKABLE then
         (case pb_make_string_substream s of
            (None, s) \<Rightarrow> Some (False, s, h)
          | (Some sub, s) \<Rightarrow>
              (case pointer_packed (Suc (is_bytes_left sub)) n env func it (ucast (ld32 (h_mem h) (it_pSize it))) sub h of
                 None \<Rightarrow> None
               | Some (too_many, status, sub, h) \<Rightarrow>
                   let s = (if too_many then s\<lparr>is_errmsg := Some ''too many array entries''\<rparr> else s)
                   in Some (close_with s status sub h)))
       else
         let count = ld32 (h_mem h) (it_pSize it) in
         if count = PB_SIZE_MAX then dec_error ''too many array entries'' s h
         else
           let (ok, s, h) = allocate_field env (it_pData it) (ucast (pf_data_size f)) (ucast (count + 1)) s h in
           if \<not> ok then Some (False, s, h)
           else
             let pItem = item_addr (ld64 (h_mem h) (it_pData it)) f (ld32 (h_mem h) (it_pSize it));
                 h = poke32 (it_pSize it) (ld32 (h_mem h) (it_pSize it) + 1) h
             in case initialize_pointer_field n env pItem f h of None \<Rightarrow> None | Some h \<Rightarrow> func pItem s h
     else dec_error ''invalid field type'' s h)"

text \<open>The callback of the user is called until the substream is empty.\<close>

fun callback_loop :: "nat \<Rightarrow> (istream \<Rightarrow> heap \<Rightarrow> bool \<times> istream \<times> heap) \<Rightarrow> istream \<Rightarrow> heap \<Rightarrow> dec_result" where
  "callback_loop 0 cb sub h = None"
| "callback_loop (Suc k) cb sub h =
    (let (ok, sub, h) = cb sub h in
     if \<not> ok then Some (False, sub, h)
     else if is_bytes_left sub \<noteq> 0 then callback_loop k cb sub h else Some (True, sub, h))"

definition decode_callback_field :: "nat \<Rightarrow> dec_env \<Rightarrow> u32 \<Rightarrow> pb_iter \<Rightarrow> istream \<Rightarrow> heap \<Rightarrow> dec_result" where
  "decode_callback_field n env wire_type it s h =
    (let pCallback = it_pData it; fn = ld64 (h_mem h) pCallback; cb = de_decode env fn (it_field it) (pCallback + 8) in
     if pCallback = 0 \<or> fn = 0 then (case pb_skip_field wire_type s of (r, s) \<Rightarrow> Some (r \<noteq> None, s, h))
     else if wire_type = PB_WT_STRING then
       (case pb_make_string_substream s of
          (None, s) \<Rightarrow> Some (False, s, h)
        | (Some sub, s) \<Rightarrow>
            (case callback_loop n cb sub h of
               None \<Rightarrow> None
             | Some (ok, sub, h) \<Rightarrow>
                 if \<not> ok then dec_error ''callback failed'' s h else Some (close_with s True sub h)))
     else
       (case read_raw_value wire_type 10 s of
          (None, s) \<Rightarrow> Some (False, s, h)
        | (Some buffer, s) \<Rightarrow>
            let (ok, _, h) = cb (pb_istream_from_buffer buffer (length buffer)) h in Some (ok, s, h)))"

definition decode_field :: "nat \<Rightarrow> dec_env \<Rightarrow> msg_decoder \<Rightarrow> u32 \<Rightarrow> pb_iter \<Rightarrow> istream \<Rightarrow> heap \<Rightarrow> (bool \<times> pb_iter \<times> istream \<times> heap) option" where
  "decode_field n env noinit wire_type it s h =
    (case (if PB_HTYPE (pf_type (it_field it)) = PB_HTYPE_ONEOF then pb_release_union_field n env it s h
         else Some (True, it, s, h)) of
       None \<Rightarrow> None
     | Some (ok, it, s, h) \<Rightarrow>
         if \<not> ok then Some (False, it, s, h)
         else map_option (\<lambda>(r, s, h). (r, it, s, h))
          (let atype = PB_ATYPE (pf_type (it_field it)) in
           if atype = PB_ATYPE_STATIC then decode_static_field n env noinit wire_type it s h
           else if atype = PB_ATYPE_POINTER then decode_pointer_field n env noinit wire_type it s h
           else if atype = PB_ATYPE_CALLBACK then decode_callback_field n env wire_type it s h
           else dec_error ''invalid field type'' s h))"

subsection \<open>Extensions\<close>

definition default_extension_decoder :: "nat \<Rightarrow> dec_env \<Rightarrow> msg_decoder \<Rightarrow> addr \<Rightarrow> u32 \<Rightarrow> u32 \<Rightarrow> istream \<Rightarrow> heap \<Rightarrow> dec_result" where
  "default_extension_decoder n env noinit ext tag wire_type s h =
    (if pf_tag (field_at (de_fields env (ext_type_arg (h_mem h) ext)) 0) \<noteq> tag then Some (True, s, h)
     else let it = iter_from_extension env ext h in
       map_option (\<lambda>(r, _, s, h). (r, s, h)) (decode_field n env noinit wire_type it s (poke (ext + 24) [1] h)))"

fun extension_loop :: "nat \<Rightarrow> nat \<Rightarrow> dec_env \<Rightarrow> msg_decoder \<Rightarrow> nat \<Rightarrow> addr \<Rightarrow> u32 \<Rightarrow> u32 \<Rightarrow> istream \<Rightarrow> heap \<Rightarrow> dec_result" where
  "extension_loop 0 n env noinit pos ext tag wire_type s h = None"
| "extension_loop (Suc k) n env noinit pos ext tag wire_type s h =
    (if ext = 0 \<or> pos \<noteq> is_bytes_left s then Some (True, s, h)
     else case (let fn = ext_type_decode (h_mem h) ext in
         if fn \<noteq> 0 then Some (de_ext_decode env fn ext tag wire_type s h)
         else default_extension_decoder n env noinit ext tag wire_type s h) of
       None \<Rightarrow> None
     | Some (status, s, h) \<Rightarrow>
         if \<not> status then Some (False, s, h)
         else extension_loop k n env noinit pos (ext_next (h_mem h) ext) tag wire_type s h)"

definition decode_extension :: "nat \<Rightarrow> dec_env \<Rightarrow> msg_decoder \<Rightarrow> u32 \<Rightarrow> u32 \<Rightarrow> pb_iter \<Rightarrow> istream \<Rightarrow> heap \<Rightarrow> dec_result" where
  "decode_extension n env noinit tag wire_type it s h =
     extension_loop n n env noinit (is_bytes_left s) (ld64 (h_mem h) (it_pData it)) tag wire_type s h"

definition find_extension_field :: "pb_iter \<Rightarrow> bool \<times> pb_iter" where
  "find_extension_field it =
     iter_find_loop (\<lambda>f. PB_LTYPE (pf_type f) = PB_LTYPE_EXTENSION) (it_pos it) (length (it_start it)) it"

subsection \<open>Messages\<close>

text \<open>The local variables of \<open>pb_decode_noinit\<close> besides \<open>fixed_count_size\<close>, which is in memory.\<close>

record dec_locals =
  dl_fields_seen :: "u32 list"
  dl_extension_range_start :: u32
  dl_fixed_count_field :: "nat option"
  dl_iter :: pb_iter

definition PB_MAX_REQUIRED_FIELDS :: u32 where
  "PB_MAX_REQUIRED_FIELDS = 64"

definition mark_seen :: "u32 \<Rightarrow> u32 list \<Rightarrow> u32 list" where
  "mark_seen idx seen = seen[unat (drop_bit 5 idx) := seen ! unat (drop_bit 5 idx) OR push_bit (unat (idx AND 31)) 1]"

text \<open>The end of the loop body for a field that the message type has.\<close>

definition fixed_count_incomplete :: "dec_env \<Rightarrow> nat \<Rightarrow> dec_locals \<Rightarrow> heap \<Rightarrow> bool" where
  "fixed_count_incomplete env n l h =
    (case dl_fixed_count_field l of
       None \<Rightarrow> False
     | Some i \<Rightarrow> ld32 (h_mem h) (de_frame env n) \<noteq> pf_array_size (field_at (it_start (dl_iter l)) i))"

definition decode_known_field :: "nat \<Rightarrow> dec_env \<Rightarrow> msg_decoder \<Rightarrow> u32 \<Rightarrow> dec_locals \<Rightarrow> istream \<Rightarrow> heap \<Rightarrow> (bool \<times> dec_locals \<times> istream \<times> heap) option" where
  "decode_known_field n env noinit wire_type l s h =
    (let it = dl_iter l; f = it_field it;
         fixed = PB_HTYPE (pf_type f) = PB_HTYPE_REPEATED \<and> it_pSize it = it_pData it;
         new = fixed \<and> dl_fixed_count_field l \<noteq> Some (it_pos it)
     in if new \<and> fixed_count_incomplete env n l h
        then Some (False, l, set_error ''wrong size for fixed count field'' s, h)
        else
          let h = (if new then poke32 (de_frame env n) 0 h else h);
              l = (if new then l\<lparr>dl_fixed_count_field := Some (it_pos it)\<rparr> else l);
              it = (if fixed then it\<lparr>it_pSize := de_frame env n\<rparr> else it);
              idx = it_required_field_index it;
              l = (if PB_HTYPE (pf_type f) = PB_HTYPE_REQUIRED \<and> idx < PB_MAX_REQUIRED_FIELDS
                then l\<lparr>dl_fields_seen := mark_seen idx (dl_fields_seen l)\<rparr> else l)
          in map_option (\<lambda>(ok, it, s, h). (ok, l\<lparr>dl_iter := it\<rparr>, s, h)) (decode_field n env noinit wire_type it s h))"

text \<open>A field that the message type does not have: an extension, or skipped.\<close>

definition skip_unknown :: "u32 \<Rightarrow> dec_locals \<Rightarrow> istream \<Rightarrow> heap \<Rightarrow> (bool \<times> dec_locals \<times> istream \<times> heap) option" where
  "skip_unknown wire_type l s h = (case pb_skip_field wire_type s of (r, s) \<Rightarrow> Some (r \<noteq> None, l, s, h))"

definition decode_unknown_field :: "nat \<Rightarrow> dec_env \<Rightarrow> msg_decoder \<Rightarrow> u32 \<Rightarrow> u32 \<Rightarrow> dec_locals \<Rightarrow> istream \<Rightarrow> heap \<Rightarrow> (bool \<times> dec_locals \<times> istream \<times> heap) option" where
  "decode_unknown_field n env noinit tag wire_type l s h =
    (if tag < dl_extension_range_start l then skip_unknown wire_type l s h
     else
       let (found, it) = find_extension_field (dl_iter l);
           start = (if found then pf_tag (it_field it) else - 1);
           l = l\<lparr>dl_iter := it, dl_extension_range_start := start\<rparr>
       in if tag < start then skip_unknown wire_type l s h
          else case decode_extension n env noinit tag wire_type it s h of
            None \<Rightarrow> None
          | Some (ok, s', h) \<Rightarrow>
              if \<not> ok then Some (False, l, s', h)
              else if is_bytes_left s \<noteq> is_bytes_left s' then Some (True, l, s', h)
              else skip_unknown wire_type l s' h)"

text \<open>The loop over the fields of the stream; every round takes at least one byte.\<close>

fun decode_loop :: "nat \<Rightarrow> nat \<Rightarrow> dec_env \<Rightarrow> msg_decoder \<Rightarrow> dec_locals \<Rightarrow> istream \<Rightarrow> heap \<Rightarrow> (bool \<times> dec_locals \<times> istream \<times> heap) option" where
  "decode_loop 0 n env noinit l s h = None"
| "decode_loop (Suc k) n env noinit l s h =
    (if is_bytes_left s = 0 then Some (True, l, s, h)
     else case pb_decode_tag s of
       ((None, eof), s) \<Rightarrow> Some (eof, l, s, h)
     | ((Some (wire_type, tag), _), s) \<Rightarrow>
         let (found, it) = pb_field_iter_find tag (dl_iter l); l = l\<lparr>dl_iter := it\<rparr> in
         (case (if found then decode_known_field n env noinit wire_type l s h
             else decode_unknown_field n env noinit tag wire_type l s h) of
            None \<Rightarrow> None
          | Some (ok, l, s, h) \<Rightarrow> if \<not> ok then Some (False, l, s, h) else decode_loop k n env noinit l s h))"

text \<open>The number of required fields: the iterator goes on to the last field.\<close>

fun last_iter :: "nat \<Rightarrow> pb_iter \<Rightarrow> pb_iter" where
  "last_iter k it =
    (let (more, it') = pb_field_iter_next it in if more \<and> k \<noteq> 0 then last_iter (k - 1) it' else it)"

declare last_iter.simps [simp del]

definition req_field_count :: "pb_iter \<Rightarrow> u32" where
  "req_field_count it =
    (let end = last_iter (length (it_start it)) it; first = snd (pb_field_iter_next end);
         count = (if PB_HTYPE (pf_type (it_field end)) = PB_HTYPE_REQUIRED \<and> pf_tag (it_field first) \<noteq> 0
           then it_required_field_index end + 1 else it_required_field_index end)
     in if count > PB_MAX_REQUIRED_FIELDS then PB_MAX_REQUIRED_FIELDS else count)"

definition required_present :: "u32 \<Rightarrow> u32 list \<Rightarrow> bool" where
  "required_present count seen =
    (list_all (\<lambda>i. seen ! i = - 1) [0..<unat (drop_bit 5 count)] \<and>
     (count AND 31 \<noteq> 0 \<longrightarrow> seen ! unat (drop_bit 5 count) = drop_bit (unat (32 - (count AND 31))) (- 1)))"

definition noinit_body :: "nat \<Rightarrow> dec_env \<Rightarrow> msg_decoder \<Rightarrow> msg_decoder" where
  "noinit_body n env noinit fds dest s h =
    (let l = \<lparr>dl_fields_seen = [0, 0], dl_extension_range_start = 0, dl_fixed_count_field = None,
           dl_iter = snd (pb_field_iter_begin (de_fields env fds) dest)\<rparr>
     in case decode_loop (Suc (is_bytes_left s)) n env noinit l s (poke32 (de_frame env n) 0 h) of
       None \<Rightarrow> None
     | Some (ok, l, s, h) \<Rightarrow>
         if \<not> ok then Some (False, s, h)
         else if fixed_count_incomplete env n l h then dec_error ''wrong size for fixed count field'' s h
         else if req_field_count (dl_iter l) > 0 \<and> \<not> required_present (req_field_count (dl_iter l)) (dl_fields_seen l)
         then dec_error ''missing required field'' s h
         else Some (True, s, h))"

fun pb_decode_noinit :: "nat \<Rightarrow> dec_env \<Rightarrow> msg_decoder" where
  "pb_decode_noinit 0 env fds dest s h = None"
| "pb_decode_noinit (Suc n) env fds dest s h = noinit_body n env (pb_decode_noinit n env) fds dest s h"

definition pb_decode :: "nat \<Rightarrow> dec_env \<Rightarrow> msg_decoder" where
  "pb_decode n env = pb_decode_with n env (pb_decode_noinit n env)"

definition pb_decode_delimited_noinit :: "nat \<Rightarrow> dec_env \<Rightarrow> msg_decoder" where
  "pb_decode_delimited_noinit n env fds dest = on_substream (pb_decode_noinit n env fds dest)"

definition pb_decode_delimited :: "nat \<Rightarrow> dec_env \<Rightarrow> msg_decoder" where
  "pb_decode_delimited n env fds dest = on_substream (pb_decode n env fds dest)"

definition pb_decode_nullterminated :: "nat \<Rightarrow> dec_env \<Rightarrow> msg_decoder" where
  "pb_decode_nullterminated n env = pb_decode n env"

end
