(* ===== verification/Pb_Encode.thy ===== *)
theory Pb_Encode
  imports Pb_Common
begin

text \<open>
  The encoder of nanopb, \<open>pb_encode.c\<close>: output streams, the writers of the wire format, the field
  encoders and the encoding of whole messages. The functions return the result of the C function
  and the stream afterwards, on every branch.
\<close>

subsection \<open>Output streams\<close>

text \<open>
  The callback of a stream is null for a sizing stream, the \<open>buf_write\<close> of the library, or a
  function of the user. What \<open>state\<close> leads to is the run of bytes that have been stored.
\<close>

datatype ocallback = OCB_null | OCB_buf_write | OCB_user "bytes \<Rightarrow> bytes \<Rightarrow> bool \<times> bytes"

record ostream =
  os_callback :: ocallback
  os_state :: bytes
  os_max_size :: u64
  os_bytes_written :: u64
  os_errmsg :: "string option"

text \<open>\<open>PB_RETURN_ERROR\<close>: the first message stays.\<close>

definition os_error :: "string \<Rightarrow> ostream \<Rightarrow> bool \<times> ostream" where
  "os_error msg s = (False, s\<lparr>os_errmsg := (case os_errmsg s of None \<Rightarrow> Some msg | Some e \<Rightarrow> Some e)\<rparr>)"

definition PB_OSTREAM_SIZING :: ostream where
  "PB_OSTREAM_SIZING = \<lparr>os_callback = OCB_null, os_state = [], os_max_size = 0, os_bytes_written = 0,
     os_errmsg = None\<rparr>"

definition buf_write :: "bytes \<Rightarrow> bytes \<Rightarrow> bool \<times> bytes" where
  "buf_write state buf = (True, state @ buf)"

definition pb_ostream_from_buffer :: "u64 \<Rightarrow> ostream" where
  "pb_ostream_from_buffer bufsize = \<lparr>os_callback = OCB_buf_write, os_state = [], os_max_size = bufsize,
     os_bytes_written = 0, os_errmsg = None\<rparr>"

text \<open>The call through the function pointer; a null pointer is never called.\<close>

fun call_ocallback :: "ocallback \<Rightarrow> bytes \<Rightarrow> bytes \<Rightarrow> bool \<times> bytes" where
  "call_ocallback OCB_null state buf = (True, state)"
| "call_ocallback OCB_buf_write state buf = buf_write state buf"
| "call_ocallback (OCB_user f) state buf = f state buf"

definition is_sizing :: "ostream \<Rightarrow> bool" where
  "is_sizing s = (case os_callback s of OCB_null \<Rightarrow> True | _ \<Rightarrow> False)"

definition pb_write :: "bytes \<Rightarrow> u64 \<Rightarrow> ostream \<Rightarrow> bool \<times> ostream" where
  "pb_write buf count s =
    (if count > 0 \<and> \<not> is_sizing s then
       if os_bytes_written s + count < os_bytes_written s \<or> os_bytes_written s + count > os_max_size s
       then os_error ''stream full'' s
       else
         let (ok, state) = call_ocallback (os_callback s) (os_state s) (take (unat count) buf);
             s = s\<lparr>os_state := state\<rparr>
         in if ok then (True, s\<lparr>os_bytes_written := os_bytes_written s + count\<rparr>) else os_error ''io error'' s
     else (True, s\<lparr>os_bytes_written := os_bytes_written s + count\<rparr>))"

subsection \<open>The wire format\<close>

text \<open>The loop over \<open>value\<close> that fills \<open>buffer\<close>, and the correction of the last byte.\<close>

function varint_groups :: "u64 \<Rightarrow> bytes" where
  "varint_groups value = (if value = 0 then [] else
     (ucast (value AND 0x7F) OR 0x80) # varint_groups (drop_bit 7 value))"
  by pat_completeness auto

termination
  by (relation "measure unat") (auto simp: word_nat unat_gt_0)

definition varint_buffer :: "u64 \<Rightarrow> bytes" where
  "varint_buffer value = (let buffer = varint_groups value in
     butlast buffer @ [last buffer AND 0x7F])"

definition pb_encode_varint :: "u64 \<Rightarrow> ostream \<Rightarrow> bool \<times> ostream" where
  "pb_encode_varint value s =
    (if value \<le> 0x7F then pb_write [ucast value] 1 s
     else let buffer = varint_buffer value in pb_write buffer (of_nat (length buffer)) s)"

definition zigzag :: "u64 \<Rightarrow> u64" where
  "zigzag value = (if value <s 0 then NOT (push_bit 1 value) else push_bit 1 value)"

definition pb_encode_svarint :: "u64 \<Rightarrow> ostream \<Rightarrow> bool \<times> ostream" where
  "pb_encode_svarint value s = pb_encode_varint (zigzag value) s"

definition pb_encode_fixed32 :: "u32 \<Rightarrow> ostream \<Rightarrow> bool \<times> ostream" where
  "pb_encode_fixed32 val s =
     pb_write [ucast (val AND 0xFF), ucast (drop_bit 8 val AND 0xFF), ucast (drop_bit 16 val AND 0xFF),
       ucast (drop_bit 24 val AND 0xFF)] 4 s"

definition pb_encode_fixed64 :: "u64 \<Rightarrow> ostream \<Rightarrow> bool \<times> ostream" where
  "pb_encode_fixed64 val s =
     pb_write [ucast (val AND 0xFF), ucast (drop_bit 8 val AND 0xFF), ucast (drop_bit 16 val AND 0xFF),
       ucast (drop_bit 24 val AND 0xFF), ucast (drop_bit 32 val AND 0xFF), ucast (drop_bit 40 val AND 0xFF),
       ucast (drop_bit 48 val AND 0xFF), ucast (drop_bit 56 val AND 0xFF)] 8 s"

definition pb_encode_tag :: "u32 \<Rightarrow> u32 \<Rightarrow> ostream \<Rightarrow> bool \<times> ostream" where
  "pb_encode_tag wiretype field_number s =
     pb_encode_varint (push_bit 3 (ucast field_number) OR ucast wiretype) s"

definition wire_type_of :: "u8 \<Rightarrow> u32 option" where
  "wire_type_of ltype =
    (if ltype \<in> {PB_LTYPE_BOOL, PB_LTYPE_VARINT, PB_LTYPE_UVARINT, PB_LTYPE_SVARINT} then Some PB_WT_VARINT
     else if ltype = PB_LTYPE_FIXED32 then Some PB_WT_32BIT
     else if ltype = PB_LTYPE_FIXED64 then Some PB_WT_64BIT
     else if ltype \<in> {PB_LTYPE_BYTES, PB_LTYPE_STRING, PB_LTYPE_SUBMESSAGE, PB_LTYPE_FIXED_LENGTH_BYTES}
     then Some PB_WT_STRING
     else None)"

definition pb_encode_tag_for_field :: "pb_field \<Rightarrow> ostream \<Rightarrow> bool \<times> ostream" where
  "pb_encode_tag_for_field f s =
    (case wire_type_of (PB_LTYPE (pf_type f)) of
       None \<Rightarrow> os_error ''invalid field type'' s
     | Some wiretype \<Rightarrow> pb_encode_tag wiretype (pf_tag f) s)"

text \<open>\<open>if (!f(stream)) return false; return g(stream);\<close>\<close>

definition os_seq :: "bool \<times> ostream \<Rightarrow> (ostream \<Rightarrow> bool \<times> ostream) \<Rightarrow> bool \<times> ostream" where
  "os_seq r g = (if fst r then g (snd r) else r)"

definition pb_encode_string :: "bytes \<Rightarrow> u64 \<Rightarrow> ostream \<Rightarrow> bool \<times> ostream" where
  "pb_encode_string buffer sz s = os_seq (pb_encode_varint sz s) (pb_write buffer sz)"

subsection \<open>Field encoders\<close>

definition safe_read_bool :: "mem \<Rightarrow> addr \<Rightarrow> bool" where
  "safe_read_bool m p = (ld8 m p \<noteq> 0)"

definition pb_enc_bool :: "mem \<Rightarrow> pb_field \<Rightarrow> addr \<Rightarrow> ostream \<Rightarrow> bool \<times> ostream" where
  "pb_enc_bool m f src s = pb_encode_varint (if safe_read_bool m src then 1 else 0) s"

text \<open>A signed load of the width that \<open>data_size\<close> selects, and an unsigned one.\<close>

definition ld_signed :: "mem \<Rightarrow> u32 \<Rightarrow> addr \<Rightarrow> u64 option" where
  "ld_signed m data_size src =
    (if data_size = 1 then Some (scast (ld8 m src))
     else if data_size = 2 then Some (scast (ld16 m src))
     else if data_size = 4 then Some (scast (ld32 m src))
     else if data_size = 8 then Some (ld64 m src)
     else None)"

definition ld_unsigned :: "mem \<Rightarrow> u32 \<Rightarrow> addr \<Rightarrow> u64 option" where
  "ld_unsigned m data_size src =
    (if data_size = 1 then Some (ucast (ld8 m src))
     else if data_size = 2 then Some (ucast (ld16 m src))
     else if data_size = 4 then Some (ucast (ld32 m src))
     else if data_size = 8 then Some (ld64 m src)
     else None)"

definition pb_enc_varint :: "mem \<Rightarrow> pb_field \<Rightarrow> addr \<Rightarrow> ostream \<Rightarrow> bool \<times> ostream" where
  "pb_enc_varint m f src s =
    (case ld_signed m (pf_data_size f) src of
       None \<Rightarrow> os_error ''invalid data_size'' s
     | Some value \<Rightarrow> pb_encode_varint value s)"

definition pb_enc_uvarint :: "mem \<Rightarrow> pb_field \<Rightarrow> addr \<Rightarrow> ostream \<Rightarrow> bool \<times> ostream" where
  "pb_enc_uvarint m f src s =
    (case ld_unsigned m (pf_data_size f) src of
       None \<Rightarrow> os_error ''invalid data_size'' s
     | Some value \<Rightarrow> pb_encode_varint value s)"

definition pb_enc_svarint :: "mem \<Rightarrow> pb_field \<Rightarrow> addr \<Rightarrow> ostream \<Rightarrow> bool \<times> ostream" where
  "pb_enc_svarint m f src s =
    (case ld_signed m (pf_data_size f) src of
       None \<Rightarrow> os_error ''invalid data_size'' s
     | Some value \<Rightarrow> pb_encode_svarint value s)"

definition pb_enc_fixed32 :: "mem \<Rightarrow> pb_field \<Rightarrow> addr \<Rightarrow> ostream \<Rightarrow> bool \<times> ostream" where
  "pb_enc_fixed32 m f src s = pb_encode_fixed32 (ld32 m src) s"

definition pb_enc_fixed64 :: "mem \<Rightarrow> pb_field \<Rightarrow> addr \<Rightarrow> ostream \<Rightarrow> bool \<times> ostream" where
  "pb_enc_fixed64 m f src s = pb_encode_fixed64 (ld64 m src) s"

text \<open>The \<open>bytes\<close> of a \<open>pb_bytes_array_t\<close> start at offset 4.\<close>

definition pb_enc_bytes :: "mem \<Rightarrow> pb_field \<Rightarrow> addr \<Rightarrow> ostream \<Rightarrow> bool \<times> ostream" where
  "pb_enc_bytes m f src s =
    (if src = 0 then pb_encode_string [] 0 s
     else if PB_ATYPE (pf_type f) = PB_ATYPE_STATIC \<and> (ucast (ld32 m src) :: u64) > ucast (pf_data_size f) - 4
     then os_error ''bytes size exceeded'' s
     else pb_encode_string (mem_bytes m (src + 4) (unat (ld32 m src))) (ucast (ld32 m src)) s)"

fun string_length :: "mem \<Rightarrow> addr \<Rightarrow> nat \<Rightarrow> nat" where
  "string_length m p max_size =
    (if max_size = 0 \<or> m p = 0 then 0 else Suc (string_length m (p + 1) (max_size - 1)))"

definition pb_enc_string :: "mem \<Rightarrow> pb_field \<Rightarrow> addr \<Rightarrow> ostream \<Rightarrow> bool \<times> ostream" where
  "pb_enc_string m f src s =
    (let max_size = (if PB_ATYPE (pf_type f) = PB_ATYPE_POINTER then - 1 else ucast (pf_data_size f)) :: u64;
         sz = (if src = 0 then 0 else string_length m src (unat max_size))
     in pb_encode_string (mem_bytes m src sz) (of_nat sz) s)"

definition pb_enc_fixed_length_bytes :: "mem \<Rightarrow> pb_field \<Rightarrow> addr \<Rightarrow> ostream \<Rightarrow> bool \<times> ostream" where
  "pb_enc_fixed_length_bytes m f src s =
     pb_encode_string (mem_bytes m src (unat (pf_data_size f))) (ucast (pf_data_size f)) s"

declare varint_groups.simps [simp del] string_length.simps [simp del]

subsection \<open>Whole messages\<close>

text \<open>
  What the encoder finds behind pointers to constants and functions: the field arrays, and the
  callbacks that the user has installed for fields and for extensions.
\<close>

record pb_env =
  env_fields :: "addr \<Rightarrow> pb_field list"
  env_encode :: "addr \<Rightarrow> mem \<Rightarrow> pb_field \<Rightarrow> addr \<Rightarrow> ostream \<Rightarrow> bool \<times> ostream"
  env_ext_encode :: "addr \<Rightarrow> mem \<Rightarrow> addr \<Rightarrow> ostream \<Rightarrow> bool \<times> ostream"

text \<open>
  The functions below call each other through submessages, whose nesting the data decides. They have
  fuel for it; \<open>None\<close> is a call that does not return, for want of fuel or because it goes through a
  null entry of \<open>PB_ENCODERS\<close>.
\<close>

type_synonym enc_result = "(bool \<times> ostream) option"

definition os_then :: "enc_result \<Rightarrow> (ostream \<Rightarrow> enc_result) \<Rightarrow> enc_result" where
  "os_then r g = (case r of None \<Rightarrow> None | Some (ok, s) \<Rightarrow> if ok then g s else Some (False, s))"

fun all_default :: "(pb_iter \<Rightarrow> bool option) \<Rightarrow> pb_iter list \<Rightarrow> bool option" where
  "all_default chk [] = Some True"
| "all_default chk (it # its) =
    (case chk it of None \<Rightarrow> None | Some d \<Rightarrow> if d then all_default chk its else Some False)"

fun pb_check_proto3_default_value :: "nat \<Rightarrow> pb_env \<Rightarrow> mem \<Rightarrow> pb_field \<Rightarrow> addr \<Rightarrow> bool option" where
  "pb_check_proto3_default_value 0 env m f pData = None"
| "pb_check_proto3_default_value (Suc n) env m f pData =
    (let ty = pf_type f; pSize = size_ptr pData f in
     if PB_HTYPE ty = PB_HTYPE_REQUIRED then Some False
     else if PB_HTYPE ty = PB_HTYPE_REPEATED \<and> pf_size_offset f \<noteq> 0 then Some (ld32 m pSize = 0)
     else if PB_HTYPE ty = PB_HTYPE_REPEATED \<and> PB_ATYPE ty = PB_ATYPE_STATIC then Some False
     else if PB_HTYPE ty = PB_HTYPE_ONEOF then Some (ld32 m pSize = 0)
     else if PB_HTYPE ty = PB_HTYPE_OPTIONAL \<and> pf_size_offset f \<noteq> 0 then Some (\<not> safe_read_bool m pSize)
     else if PB_ATYPE ty = PB_ATYPE_STATIC \<and> PB_LTYPE ty = PB_LTYPE_BYTES then Some (ld32 m pData = 0)
     else if PB_ATYPE ty = PB_ATYPE_STATIC \<and> PB_LTYPE ty = PB_LTYPE_STRING then Some (ld8 m pData = 0)
     else if PB_ATYPE ty = PB_ATYPE_STATIC \<and> PB_LTYPE ty = PB_LTYPE_FIXED_LENGTH_BYTES
     then Some (pf_data_size f = 0)
     else if PB_ATYPE ty = PB_ATYPE_STATIC \<and> PB_LTYPE ty = PB_LTYPE_SUBMESSAGE
     then all_default (\<lambda>it. pb_check_proto3_default_value n env m (it_field it) (it_pData it))
       (iter_all (env_fields env (pf_ptr f)) pData)
     else if PB_ATYPE ty = PB_ATYPE_POINTER \<and> PB_LTYPE ty > PB_LTYPE_LAST_PACKABLE
     then Some (ld64 m pData = 0)
     else Some (list_all (\<lambda>b. b = 0) (mem_bytes m pData (unat (pf_data_size f)))))"

type_synonym msg_encoder = "addr \<Rightarrow> addr \<Rightarrow> ostream \<Rightarrow> enc_result"

definition pb_encode_submessage :: "msg_encoder \<Rightarrow> msg_encoder" where
  "pb_encode_submessage enc fds src s =
    (case enc fds src PB_OSTREAM_SIZING of
       None \<Rightarrow> None
     | Some (ok, sub) \<Rightarrow>
         if \<not> ok then Some (False, s\<lparr>os_errmsg := os_errmsg sub\<rparr>)
         else let sz = os_bytes_written sub in
           os_then (Some (pb_encode_varint sz s)) (\<lambda>s.
             if is_sizing s then Some (pb_write [] sz s)
             else if os_bytes_written s + sz > os_max_size s then Some (os_error ''stream full'' s)
             else case enc fds src (sub\<lparr>os_callback := os_callback s, os_state := os_state s, os_max_size := sz,
                   os_bytes_written := 0, os_errmsg := None\<rparr>) of
               None \<Rightarrow> None
             | Some (status, sub) \<Rightarrow>
                 let s = s\<lparr>os_bytes_written := os_bytes_written s + os_bytes_written sub,
                     os_state := os_state sub, os_errmsg := os_errmsg sub\<rparr>
                 in if os_bytes_written sub \<noteq> sz then Some (os_error ''submsg size changed'' s)
                    else Some (status, s)))"

definition pb_enc_submessage :: "msg_encoder \<Rightarrow> pb_field \<Rightarrow> addr \<Rightarrow> ostream \<Rightarrow> enc_result" where
  "pb_enc_submessage enc f src s =
    (if pf_ptr f = 0 then Some (os_error ''invalid field descriptor'' s)
     else pb_encode_submessage enc (pf_ptr f) src s)"

text \<open>The table of field encoders.\<close>

definition PB_ENCODERS :: "msg_encoder \<Rightarrow> mem \<Rightarrow> u8 \<Rightarrow> pb_field \<Rightarrow> addr \<Rightarrow> ostream \<Rightarrow> enc_result" where
  "PB_ENCODERS enc m ltype f p s =
    (if ltype = PB_LTYPE_BOOL then Some (pb_enc_bool m f p s)
     else if ltype = PB_LTYPE_VARINT then Some (pb_enc_varint m f p s)
     else if ltype = PB_LTYPE_UVARINT then Some (pb_enc_uvarint m f p s)
     else if ltype = PB_LTYPE_SVARINT then Some (pb_enc_svarint m f p s)
     else if ltype = PB_LTYPE_FIXED32 then Some (pb_enc_fixed32 m f p s)
     else if ltype = PB_LTYPE_FIXED64 then Some (pb_enc_fixed64 m f p s)
     else if ltype = PB_LTYPE_BYTES then Some (pb_enc_bytes m f p s)
     else if ltype = PB_LTYPE_STRING then Some (pb_enc_string m f p s)
     else if ltype = PB_LTYPE_SUBMESSAGE then pb_enc_submessage enc f p s
     else if ltype = PB_LTYPE_FIXED_LENGTH_BYTES then Some (pb_enc_fixed_length_bytes m f p s)
     else None)"

text \<open>A loop over \<open>count\<close> entries that are \<open>step\<close> bytes apart.\<close>

fun encode_items :: "(addr \<Rightarrow> ostream \<Rightarrow> enc_result) \<Rightarrow> u64 \<Rightarrow> nat \<Rightarrow> addr \<Rightarrow> ostream \<Rightarrow> enc_result" where
  "encode_items item step 0 p s = Some (True, s)"
| "encode_items item step (Suc n) p s = os_then (item p s) (encode_items item step n (p + step))"

definition unpacked_item :: "mem \<Rightarrow> pb_field \<Rightarrow> (pb_field \<Rightarrow> addr \<Rightarrow> ostream \<Rightarrow> enc_result) \<Rightarrow> addr \<Rightarrow> ostream \<Rightarrow> enc_result" where
  "unpacked_item m f func p s =
     os_then (Some (pb_encode_tag_for_field f s))
       (func f (if PB_ATYPE (pf_type f) = PB_ATYPE_POINTER \<and> PB_LTYPE (pf_type f) \<in> {PB_LTYPE_STRING, PB_LTYPE_BYTES}
          then ld64 m p else p))"

definition packed_size :: "pb_field \<Rightarrow> (pb_field \<Rightarrow> addr \<Rightarrow> ostream \<Rightarrow> enc_result) \<Rightarrow> u32 \<Rightarrow> addr \<Rightarrow> u64 option option" where
  "packed_size f func count pData =
    (if PB_LTYPE (pf_type f) = PB_LTYPE_FIXED32 then Some (Some (4 * ucast count))
     else if PB_LTYPE (pf_type f) = PB_LTYPE_FIXED64 then Some (Some (8 * ucast count))
     else case encode_items (func f) (ucast (pf_data_size f)) (unat count) pData PB_OSTREAM_SIZING of
       None \<Rightarrow> None
     | Some (ok, sizestream) \<Rightarrow> Some (if ok then Some (os_bytes_written sizestream) else None))"

definition encode_array :: "mem \<Rightarrow> pb_field \<Rightarrow> addr \<Rightarrow> u32 \<Rightarrow> (pb_field \<Rightarrow> addr \<Rightarrow> ostream \<Rightarrow> enc_result) \<Rightarrow> ostream \<Rightarrow> enc_result" where
  "encode_array m f pData count func s =
    (if count = 0 then Some (True, s)
     else if PB_ATYPE (pf_type f) \<noteq> PB_ATYPE_POINTER \<and> count > pf_array_size f
     then Some (os_error ''array max size exceeded'' s)
     else if PB_LTYPE (pf_type f) \<le> PB_LTYPE_LAST_PACKABLE then
       os_then (Some (pb_encode_tag PB_WT_STRING (pf_tag f) s)) (\<lambda>s.
         case packed_size f func count pData of
           None \<Rightarrow> None
         | Some None \<Rightarrow> Some (False, s)
         | Some (Some sz) \<Rightarrow>
             os_then (Some (pb_encode_varint sz s)) (\<lambda>s.
               if is_sizing s then Some (pb_write [] sz s)
               else encode_items (func f) (ucast (pf_data_size f)) (unat count) pData s))
     else encode_items (unpacked_item m f func) (ucast (pf_data_size f)) (unat count) pData s)"

text \<open>The value behind \<open>pSize\<close> where the structure has no member for it.\<close>

definition implicit_has :: "nat \<Rightarrow> pb_env \<Rightarrow> mem \<Rightarrow> pb_field \<Rightarrow> addr \<Rightarrow> bool option" where
  "implicit_has n env m f pData =
    (let default = (if pf_size_offset f = 0 \<and> PB_HTYPE (pf_type f) = PB_HTYPE_OPTIONAL
           then pb_check_proto3_default_value n env m f pData else Some False)
     in if PB_ATYPE (pf_type f) = PB_ATYPE_POINTER then map_option (\<lambda>_. ld64 m pData \<noteq> 0) default
        else map_option Not default)"

definition encode_basic_field :: "nat \<Rightarrow> pb_env \<Rightarrow> msg_encoder \<Rightarrow> mem \<Rightarrow> pb_field \<Rightarrow> addr \<Rightarrow> ostream \<Rightarrow> enc_result" where
  "encode_basic_field n env enc m f pData0 s =
    (let ty = pf_type f; func = PB_ENCODERS enc m (PB_LTYPE ty); pSize = size_ptr pData0 f;
         pData = (if PB_ATYPE ty = PB_ATYPE_POINTER then ld64 m pData0 else pData0)
     in case implicit_has n env m f pData0 of None \<Rightarrow> None | Some has \<Rightarrow>
       if PB_HTYPE ty = PB_HTYPE_REQUIRED then
         if pData = 0 then Some (os_error ''missing required field'' s)
         else os_then (Some (pb_encode_tag_for_field f s)) (func f pData)
       else if PB_HTYPE ty = PB_HTYPE_OPTIONAL then
         if (if pf_size_offset f \<noteq> 0 then safe_read_bool m pSize else has)
         then os_then (Some (pb_encode_tag_for_field f s)) (func f pData)
         else Some (True, s)
       else if PB_HTYPE ty = PB_HTYPE_REPEATED then
         encode_array m f pData (if pf_size_offset f \<noteq> 0 then ld32 m pSize else pf_array_size f) func s
       else if pf_size_offset f = 0 then None
       else if ld32 m pSize = pf_tag f
       then os_then (Some (pb_encode_tag_for_field f s)) (func f pData)
       else Some (True, s))"

text \<open>A \<open>pb_callback_t\<close> holds the function at offset 0 and its argument at offset 8.\<close>

definition encode_callback_field :: "pb_env \<Rightarrow> mem \<Rightarrow> pb_field \<Rightarrow> addr \<Rightarrow> ostream \<Rightarrow> bool \<times> ostream" where
  "encode_callback_field env m f pData s =
    (if ld64 m pData \<noteq> 0 then
       let (ok, s) = env_encode env (ld64 m pData) m f (pData + 8) s in
       if ok then (True, s) else os_error ''callback error'' s
     else (True, s))"

definition encode_field :: "nat \<Rightarrow> pb_env \<Rightarrow> msg_encoder \<Rightarrow> mem \<Rightarrow> pb_field \<Rightarrow> addr \<Rightarrow> ostream \<Rightarrow> enc_result" where
  "encode_field n env enc m f pData s =
    (if PB_ATYPE (pf_type f) \<in> {PB_ATYPE_STATIC, PB_ATYPE_POINTER} then encode_basic_field n env enc m f pData s
     else if PB_ATYPE (pf_type f) = PB_ATYPE_CALLBACK then Some (encode_callback_field env m f pData s)
     else Some (os_error ''invalid field type'' s))"

definition default_extension_encoder :: "nat \<Rightarrow> pb_env \<Rightarrow> msg_encoder \<Rightarrow> mem \<Rightarrow> addr \<Rightarrow> ostream \<Rightarrow> enc_result" where
  "default_extension_encoder n env enc m ext s =
    (let f = field_at (env_fields env (ext_type_arg m ext)) 0 in
     encode_field n env enc m f (if PB_ATYPE (pf_type f) = PB_ATYPE_POINTER then ext + 8 else ext_dest m ext) s)"

fun encode_extensions :: "nat \<Rightarrow> nat \<Rightarrow> pb_env \<Rightarrow> msg_encoder \<Rightarrow> mem \<Rightarrow> addr \<Rightarrow> ostream \<Rightarrow> enc_result" where
  "encode_extensions 0 n env enc m ext s = None"
| "encode_extensions (Suc k) n env enc m ext s =
    (if ext = 0 then Some (True, s)
     else os_then (if ext_type_encode m ext \<noteq> 0 then Some (env_ext_encode env (ext_type_encode m ext) m ext s)
         else default_extension_encoder n env enc m ext s)
       (encode_extensions k n env enc m (ext_next m ext)))"

definition encode_extension_field :: "nat \<Rightarrow> pb_env \<Rightarrow> msg_encoder \<Rightarrow> mem \<Rightarrow> addr \<Rightarrow> ostream \<Rightarrow> enc_result" where
  "encode_extension_field n env enc m pData s = encode_extensions n n env enc m (ld64 m pData) s"

fun encode_fields :: "(pb_iter \<Rightarrow> ostream \<Rightarrow> enc_result) \<Rightarrow> pb_iter list \<Rightarrow> ostream \<Rightarrow> enc_result" where
  "encode_fields enc1 [] s = Some (True, s)"
| "encode_fields enc1 (it # its) s = os_then (enc1 it s) (encode_fields enc1 its)"

fun pb_encode :: "nat \<Rightarrow> pb_env \<Rightarrow> mem \<Rightarrow> msg_encoder" where
  "pb_encode 0 env m fds src s = None"
| "pb_encode (Suc n) env m fds src s =
     encode_fields (\<lambda>it s.
         if PB_LTYPE (pf_type (it_field it)) = PB_LTYPE_EXTENSION
         then encode_extension_field n env (pb_encode n env m) m (it_pData it) s
         else encode_field n env (pb_encode n env m) m (it_field it) (it_pData it) s)
       (iter_all (env_fields env fds) src) s"

definition pb_encode_delimited :: "nat \<Rightarrow> pb_env \<Rightarrow> mem \<Rightarrow> msg_encoder" where
  "pb_encode_delimited n env m fds src s = pb_encode_submessage (pb_encode n env m) fds src s"

definition pb_encode_nullterminated :: "nat \<Rightarrow> pb_env \<Rightarrow> mem \<Rightarrow> msg_encoder" where
  "pb_encode_nullterminated n env m fds src s =
     os_then (pb_encode n env m fds src s) (\<lambda>s. Some (pb_write [0] 1 s))"

definition pb_get_encoded_size :: "nat \<Rightarrow> pb_env \<Rightarrow> mem \<Rightarrow> addr \<Rightarrow> addr \<Rightarrow> u64 option option" where
  "pb_get_encoded_size n env m fds src =
     map_option (\<lambda>(ok, s). if ok then Some (os_bytes_written s) else None) (pb_encode n env m fds src PB_OSTREAM_SIZING)"

end
