(* ===== verification/Pb_Sizing.thy ===== *)
theory Pb_Sizing
  imports Pb_Encode
begin

text \<open>
  The encoder runs twice over the same data: on a sizing stream, to learn the length of a submessage
  or of a packed array, and on the real stream. This theory relates the two: what an encoder does on
  a sizing stream determines what it stores in a buffer.
\<close>

named_theorems determined_rules \<open>the outputs of the writers and of their compositions\<close>

subsection \<open>The output of an encoder\<close>

text \<open>A stream over a buffer of less than \<open>2 ^ 63\<close> bytes that no call has failed on.\<close>

definition buffering :: "ostream \<Rightarrow> bool" where
  "buffering s \<longleftrightarrow> os_callback s = OCB_buf_write \<and> os_bytes_written s \<le> os_max_size s \<and>
     unat (os_max_size s) < 2 ^ 63 \<and> os_errmsg s = None"

definition count_bytes :: "nat \<Rightarrow> ostream \<Rightarrow> ostream" where
  "count_bytes n s = s\<lparr>os_bytes_written := os_bytes_written s + of_nat n\<rparr>"

definition store_bytes :: "bytes \<Rightarrow> ostream \<Rightarrow> ostream" where
  "store_bytes out s = (count_bytes (length out) s)\<lparr>os_state := os_state s @ out\<rparr>"

text \<open>The buffer has no room for all of \<open>out\<close>: a part of it has been stored, within the bounds.\<close>

definition ran_out :: "bytes \<Rightarrow> ostream \<Rightarrow> ostream \<Rightarrow> bool" where
  "ran_out out s s' \<longleftrightarrow> (\<exists>k e. k \<le> length out \<and> unat (os_bytes_written s) + k \<le> unat (os_max_size s) \<and>
     s' = (store_bytes (take k out) s)\<lparr>os_errmsg := e\<rparr>)"

definition emits :: "(ostream \<Rightarrow> enc_result) \<Rightarrow> bytes \<Rightarrow> bool" where
  "emits f out \<longleftrightarrow>
    (\<forall>s. is_sizing s \<longrightarrow> f s = Some (True, count_bytes (length out) s)) \<and>
    (length out < 2 ^ 63 \<longrightarrow> (\<forall>s. buffering s \<longrightarrow>
      (if unat (os_bytes_written s) + length out \<le> unat (os_max_size s) then f s = Some (True, store_bytes out s)
       else \<exists>s'. f s = Some (False, s') \<and> ran_out out s s')))"

definition rejects :: "(ostream \<Rightarrow> enc_result) \<Rightarrow> bool" where
  "rejects f \<longleftrightarrow> (\<forall>s. is_sizing s \<longrightarrow> (\<exists>s'. f s = Some (False, s')))"

definition stuck :: "(ostream \<Rightarrow> enc_result) \<Rightarrow> bool" where
  "stuck f \<longleftrightarrow> (\<forall>s. is_sizing s \<longrightarrow> f s = None)"

definition determined :: "(ostream \<Rightarrow> enc_result) \<Rightarrow> bool" where
  "determined f \<longleftrightarrow> stuck f \<or> rejects f \<or> (\<exists>out. emits f out)"

lemma count_bytes_simps [simp]:
  "os_callback (count_bytes n s) = os_callback s" "os_max_size (count_bytes n s) = os_max_size s"
  "os_state (count_bytes n s) = os_state s" "os_errmsg (count_bytes n s) = os_errmsg s"
  "os_bytes_written (count_bytes n s) = os_bytes_written s + of_nat n"
  "is_sizing (count_bytes n s) = is_sizing s"
  by (simp_all add: count_bytes_def is_sizing_def)

lemma store_bytes_simps [simp]:
  "os_callback (store_bytes b s) = os_callback s" "os_max_size (store_bytes b s) = os_max_size s"
  "os_state (store_bytes b s) = os_state s @ b" "os_errmsg (store_bytes b s) = os_errmsg s"
  "os_bytes_written (store_bytes b s) = os_bytes_written s + of_nat (length b)"
  "is_sizing (store_bytes b s) = is_sizing s"
  by (simp_all add: store_bytes_def is_sizing_def)

lemma sizing_stream [simp]: "is_sizing PB_OSTREAM_SIZING" "os_bytes_written PB_OSTREAM_SIZING = 0"
  by (simp_all add: is_sizing_def PB_OSTREAM_SIZING_def)

lemma buffering_not_sizing [simp]: "buffering s \<Longrightarrow> \<not> is_sizing s"
  by (simp add: buffering_def is_sizing_def)

lemma count_bytes_comp: "count_bytes b (count_bytes a s) = count_bytes (a + b) s"
  by (simp add: count_bytes_def algebra_simps)

lemma store_bytes_comp: "store_bytes b (store_bytes a s) = store_bytes (a @ b) s"
  by (simp add: store_bytes_def count_bytes_def algebra_simps)

lemma written_fits:
  assumes "buffering s" "unat (os_bytes_written s) + n \<le> unat (os_max_size s)"
  shows "unat (os_bytes_written s + of_nat n) = unat (os_bytes_written s) + n"
proof -
  have "n < 2 ^ 64" "unat (os_bytes_written s) + n < 2 ^ 64" using assms by (simp_all add: buffering_def)
  then show ?thesis by (simp add: unat_word_ariths unat_of_nat)
qed

lemma buffering_store:
  assumes "buffering s" "unat (os_bytes_written s) + length out \<le> unat (os_max_size s)"
  shows "buffering (store_bytes out s)"
  using assms written_fits [OF assms] by (simp add: buffering_def word_le_nat_alt)

subsection \<open>Composition\<close>

lemma emits_sizing: "emits f out \<Longrightarrow> is_sizing s \<Longrightarrow> f s = Some (True, count_bytes (length out) s)"
  by (simp add: emits_def)

lemma emits_fits:
  "emits f out \<Longrightarrow> buffering s \<Longrightarrow> unat (os_bytes_written s) + length out \<le> unat (os_max_size s) \<Longrightarrow>
   f s = Some (True, store_bytes out s)"
  by (simp add: emits_def buffering_def)

lemma emits_full:
  assumes "emits f out" "length out < 2 ^ 63" "buffering s"
    "\<not> unat (os_bytes_written s) + length out \<le> unat (os_max_size s)"
  obtains s' where "f s = Some (False, s')" "ran_out out s s'"
  using assms unfolding emits_def by (metis (no_types))

lemma ran_out_append: "ran_out a s s' \<Longrightarrow> ran_out (a @ b) s s'"
proof -
  assume "ran_out a s s'"
  then obtain k e where "k \<le> length a" "unat (os_bytes_written s) + k \<le> unat (os_max_size s)"
    "s' = (store_bytes (take k a) s)\<lparr>os_errmsg := e\<rparr>" unfolding ran_out_def by blast
  then show ?thesis unfolding ran_out_def by (intro exI [of _ k] exI [of _ e]) simp
qed

lemma ran_out_after:
  assumes "buffering s" "unat (os_bytes_written s) + length a \<le> unat (os_max_size s)"
    "ran_out b (store_bytes a s) s'"
  shows "ran_out (a @ b) s s'"
proof -
  obtain k e where k: "k \<le> length b" "unat (os_bytes_written s) + length a + k \<le> unat (os_max_size s)"
    "s' = (store_bytes (take k b) (store_bytes a s))\<lparr>os_errmsg := e\<rparr>"
    using assms(3) written_fits [OF assms(1,2)] by (auto simp: ran_out_def)
  then show ?thesis
    unfolding ran_out_def by (intro exI [of _ "length a + k"] exI [of _ e]) (simp add: store_bytes_comp)
qed

lemma emits_then [determined_rules]:
  assumes f: "emits f a" and g: "emits g b"
  shows "emits (\<lambda>s. os_then (f s) g) (a @ b)"
  unfolding emits_def
proof (intro conjI allI impI)
  fix s assume "is_sizing s"
  then show "os_then (f s) g = Some (True, count_bytes (length (a @ b)) s)"
    by (simp add: emits_sizing [OF f] emits_sizing [OF g] os_then_def count_bytes_comp)
next
  fix s assume l: "length (a @ b) < 2 ^ 63" and s: "buffering s"
  have lb: "length b < 2 ^ 63" "length a < 2 ^ 63" using l by simp_all
  show "if unat (os_bytes_written s) + length (a @ b) \<le> unat (os_max_size s)
    then os_then (f s) g = Some (True, store_bytes (a @ b) s)
    else \<exists>s'. os_then (f s) g = Some (False, s') \<and> ran_out (a @ b) s s'"
  proof (cases "unat (os_bytes_written s) + length a \<le> unat (os_max_size s)")
    case True
    note bs = buffering_store [OF s True] and w = written_fits [OF s True]
    have fs: "f s = Some (True, store_bytes a s)" by (rule emits_fits [OF f s True])
    show ?thesis
    proof (cases "unat (os_bytes_written s) + length (a @ b) \<le> unat (os_max_size s)")
      case fit: True
      then have "g (store_bytes a s) = Some (True, store_bytes b (store_bytes a s))"
        by (intro emits_fits [OF g bs]) (simp add: w)
      with fit fs show ?thesis by (simp add: os_then_def store_bytes_comp)
    next
      case False
      then have "\<not> unat (os_bytes_written (store_bytes a s)) + length b \<le> unat (os_max_size (store_bytes a s))"
        by (simp add: w)
      from emits_full [OF g lb(1) bs this] obtain s' where
        "g (store_bytes a s) = Some (False, s')" "ran_out b (store_bytes a s) s'" .
      with False fs ran_out_after [OF s True, of b s'] show ?thesis by (simp add: os_then_def)
    qed
  next
    case False
    from emits_full [OF f lb(2) s False] obtain s' where "f s = Some (False, s')" "ran_out a s s'" .
    with False ran_out_append [of a s s' b] show ?thesis by (simp add: os_then_def)
  qed
qed

lemma determined_emits: "emits f out \<Longrightarrow> determined f"
  by (auto simp: determined_def)

lemma rejects_sizing: "rejects f \<Longrightarrow> \<exists>s'. f PB_OSTREAM_SIZING = Some (False, s')"
  unfolding rejects_def using sizing_stream(1) by blast

lemma determined_sizing:
  assumes "determined f" "f PB_OSTREAM_SIZING = Some (True, s')"
  shows "\<exists>out. emits f out \<and> s' = count_bytes (length out) PB_OSTREAM_SIZING"
  using assms(1) unfolding determined_def
proof (elim disjE exE)
  assume "stuck f"
  then show ?thesis using assms(2) by (simp add: stuck_def)
next
  assume "rejects f"
  then show ?thesis using assms(2) rejects_sizing by fastforce
next
  fix out assume "emits f out"
  then show ?thesis using assms(2) emits_sizing [OF _ sizing_stream(1)] by fastforce
qed

lemma determined_then [determined_rules]:
  assumes "determined f" "determined g"
  shows "determined (\<lambda>s. os_then (f s) g)"
  using assms(1) unfolding determined_def [of f]
proof (elim disjE exE)
  assume "stuck f"
  then have "stuck (\<lambda>s. os_then (f s) g)" by (simp add: stuck_def os_then_def)
  then show ?thesis by (simp add: determined_def)
next
  assume "rejects f"
  then have "rejects (\<lambda>s. os_then (f s) g)" by (fastforce simp: rejects_def os_then_def)
  then show ?thesis by (simp add: determined_def)
next
  fix a assume f: "emits f a"
  from assms(2) show ?thesis unfolding determined_def [of g]
  proof (elim disjE exE)
    assume "stuck g"
    then have "stuck (\<lambda>s. os_then (f s) g)" by (simp add: stuck_def os_then_def emits_sizing [OF f])
    then show ?thesis by (simp add: determined_def)
  next
    assume "rejects g"
    then have "rejects (\<lambda>s. os_then (f s) g)" by (simp add: rejects_def os_then_def emits_sizing [OF f])
    then show ?thesis by (simp add: determined_def)
  next
    fix b assume "emits g b"
    from determined_emits [OF emits_then [OF f this]] show ?thesis .
  qed
qed

lemma emits_return [determined_rules]: "emits (\<lambda>s. Some (True, s)) []"
  by (simp add: emits_def count_bytes_def store_bytes_def buffering_def word_le_nat_alt)

lemma determined_error [determined_rules]: "determined (\<lambda>s. Some (os_error msg s))"
  by (simp add: determined_def rejects_def os_error_def)

lemma determined_None [determined_rules]: "determined (\<lambda>s. None)"
  by (simp add: determined_def stuck_def)

subsection \<open>Writers of the wire format\<close>

lemma ran_out_none: "buffering s \<Longrightarrow> ran_out out s (snd (os_error msg s))"
  unfolding ran_out_def
  by (intro exI [of _ 0] exI [of _ "os_errmsg (snd (os_error msg s))"])
    (simp add: os_error_def store_bytes_def count_bytes_def buffering_def word_le_nat_alt)

lemma emits_write [determined_rules]:
  assumes "length buf = unat count"
  shows "emits (\<lambda>s. Some (pb_write buf count s)) buf"
  unfolding emits_def
proof (intro conjI allI impI)
  fix s assume "is_sizing s"
  then show "Some (pb_write buf count s) = Some (True, count_bytes (length buf) s)"
    using assms by (simp add: pb_write_def count_bytes_def)
next
  fix s assume s: "buffering s" and l: "length buf < 2 ^ 63"
  have w: "unat (os_bytes_written s + count) = unat (os_bytes_written s) + unat count"
    using s l assms by (simp add: buffering_def unat_word_ariths word_le_nat_alt)
  have full: "os_bytes_written s + count < os_bytes_written s \<or> os_bytes_written s + count > os_max_size s \<longleftrightarrow>
      \<not> unat (os_bytes_written s) + length buf \<le> unat (os_max_size s)"
    using assms by (auto simp: word_less_nat_alt w)
  have cb: "os_callback s = OCB_buf_write" using s by (simp add: buffering_def)
  show "if unat (os_bytes_written s) + length buf \<le> unat (os_max_size s)
    then Some (pb_write buf count s) = Some (True, store_bytes buf s)
    else \<exists>s'. Some (pb_write buf count s) = Some (False, s') \<and> ran_out buf s s'"
  proof (cases "count > 0")
    case True
    have "ran_out buf s (snd (os_error ''stream full'' s))" using s by (rule ran_out_none)
    then show ?thesis using True s assms cb full
      by (auto simp: pb_write_def buf_write_def store_bytes_def count_bytes_def os_error_def)
  next
    case False
    then have "count = 0" by (simp add: word_gt_0)
    then show ?thesis using s assms
      by (simp add: pb_write_def store_bytes_def count_bytes_def buffering_def word_le_nat_alt)
  qed
qed

text \<open>What \<open>pb_encode_varint\<close> writes.\<close>

definition varint_bytes :: "u64 \<Rightarrow> bytes" where
  "varint_bytes v = (if v \<le> 0x7F then [ucast v] else varint_buffer v)"

lemma varint_groups_0 [simp]: "varint_groups 0 = []"
  by (simp add: varint_groups.simps)

lemma varint_groups_Nil_iff [simp]: "varint_groups v = [] \<longleftrightarrow> v = 0"
  by (subst varint_groups.simps) simp

lemma length_varint_groups: "unat v < 128 ^ n \<Longrightarrow> length (varint_groups v) \<le> n"
proof (induction n arbitrary: v)
  case 0
  then show ?case by (simp add: unat_eq_0)
next
  case (Suc n)
  have "unat (drop_bit 7 v) < 128 ^ n" using Suc.prems by (simp add: word_nat div_less_iff_less_mult mult.commute)
  from Suc.IH [OF this] show ?case by (subst varint_groups.simps) simp
qed

lemma length_varint_groups_10: "length (varint_groups v) \<le> 10"
  by (rule length_varint_groups, rule order.strict_trans [OF unat_u64_less]) simp

lemma length_varint_bytes: "length (varint_bytes v) \<le> 10" and varint_bytes_nonempty: "varint_bytes v \<noteq> []"
  using length_varint_groups_10 [of v] by (auto simp: varint_bytes_def varint_buffer_def Let_def)

lemma emits_varint [determined_rules]: "emits (\<lambda>s. Some (pb_encode_varint v s)) (varint_bytes v)"
proof (cases "v \<le> 0x7F")
  case True
  then show ?thesis using emits_write [of "[ucast v]" 1] by (simp add: pb_encode_varint_def varint_bytes_def)
next
  case False
  have "length (varint_buffer v) \<le> 10" using length_varint_bytes [of v] False by (simp add: varint_bytes_def)
  then have "length (varint_buffer v) = unat (of_nat (length (varint_buffer v)) :: u64)" by (simp add: unat_of_nat)
  from emits_write [OF this] False show ?thesis by (simp add: pb_encode_varint_def varint_bytes_def Let_def)
qed

lemma Some_os_seq: "Some (os_seq r g) = os_then (Some r) (\<lambda>s. Some (g s))"
  by (cases r) (simp add: os_seq_def os_then_def)

lemma emits_string [determined_rules]:
  "length buf = unat n \<Longrightarrow> emits (\<lambda>s. Some (pb_encode_string buf n s)) (varint_bytes n @ buf)"
  unfolding pb_encode_string_def Some_os_seq by (intro emits_then emits_varint emits_write)

lemma emits_fixed32: "\<exists>out. length out = 4 \<and> emits (\<lambda>s. Some (pb_encode_fixed32 v s)) out"
  unfolding pb_encode_fixed32_def by (rule exI, rule conjI [rotated], rule emits_write) simp_all

lemma emits_fixed64: "\<exists>out. length out = 8 \<and> emits (\<lambda>s. Some (pb_encode_fixed64 v s)) out"
  unfolding pb_encode_fixed64_def by (rule exI, rule conjI [rotated], rule emits_write) simp_all

lemma determined_tag [determined_rules]: "determined (\<lambda>s. Some (pb_encode_tag w n s))"
  unfolding pb_encode_tag_def by (rule determined_emits [OF emits_varint])

lemma determined_tag_for_field [determined_rules]: "determined (\<lambda>s. Some (pb_encode_tag_for_field f s))"
  unfolding pb_encode_tag_for_field_def
  by (cases "wire_type_of (PB_LTYPE (pf_type f))") (simp_all add: determined_rules)

subsection \<open>Field encoders\<close>

lemma length_mem_bytes [simp]: "length (mem_bytes m p n) = n"
  by (simp add: mem_bytes_def)

lemma string_length_le: "string_length m p n \<le> n"
proof (induction n arbitrary: p)
  case 0
  then show ?case by (subst string_length.simps) simp
next
  case (Suc n)
  then show ?case by (subst string_length.simps) simp
qed

lemma determined_if [determined_rules]:
  "determined f \<Longrightarrow> determined g \<Longrightarrow> determined (\<lambda>s. if b then f s else g s)"
  by (cases b) simp_all

lemma determined_case_Some:
  "determined f \<Longrightarrow> (\<And>v. determined (\<lambda>s. Some (g v s))) \<Longrightarrow>
   determined (\<lambda>s. Some (case opt of None \<Rightarrow> os_error msg s | Some v \<Rightarrow> g v s))"
  by (cases opt) (simp_all add: determined_error)

lemma determined_varint: "determined (\<lambda>s. Some (pb_encode_varint v s))"
  by (rule determined_emits [OF emits_varint])

lemma determined_string: "length buf = unat n \<Longrightarrow> determined (\<lambda>s. Some (pb_encode_string buf n s))"
  by (rule determined_emits [OF emits_string])

lemma determined_scalars:
  "determined (\<lambda>s. Some (pb_enc_bool m f p s))"
  "determined (\<lambda>s. Some (pb_enc_varint m f p s))"
  "determined (\<lambda>s. Some (pb_enc_uvarint m f p s))"
  "determined (\<lambda>s. Some (pb_enc_svarint m f p s))"
  "determined (\<lambda>s. Some (pb_enc_fixed32 m f p s))"
  "determined (\<lambda>s. Some (pb_enc_fixed64 m f p s))"
  unfolding pb_enc_bool_def pb_enc_varint_def pb_enc_uvarint_def pb_enc_svarint_def pb_encode_svarint_def
    pb_enc_fixed32_def pb_enc_fixed64_def
  using emits_fixed32 [of "ld32 m p"] emits_fixed64 [of "ld64 m p"]
  by (auto intro!: determined_case_Some determined_varint intro: determined_emits determined_None)

lemma determined_blobs:
  "determined (\<lambda>s. Some (pb_enc_bytes m f p s))"
  "determined (\<lambda>s. Some (pb_enc_string m f p s))"
  "determined (\<lambda>s. Some (pb_enc_fixed_length_bytes m f p s))"
proof -
  show "determined (\<lambda>s. Some (pb_enc_bytes m f p s))"
    unfolding pb_enc_bytes_def if_distrib [of Some]
    by (intro determined_if determined_string determined_error) simp_all
  show "determined (\<lambda>s. Some (pb_enc_fixed_length_bytes m f p s))"
    unfolding pb_enc_fixed_length_bytes_def by (intro determined_string) simp
  show "determined (\<lambda>s. Some (pb_enc_string m f p s))"
    unfolding pb_enc_string_def Let_def
  proof (intro determined_string)
    have "string_length m p (unat n) < 2 ^ 64" for n :: u64
      using order.strict_trans1 [OF string_length_le unat_u64_less] by simp
    then show "length (mem_bytes m p (if p = 0 then 0 else string_length m p (unat
         (if PB_ATYPE (pf_type f) = PB_ATYPE_POINTER then - 1 else ucast (pf_data_size f) :: u64)))) =
       unat (of_nat (if p = 0 then 0 else string_length m p (unat
         (if PB_ATYPE (pf_type f) = PB_ATYPE_POINTER then - 1 else ucast (pf_data_size f) :: u64))) :: u64)"
      by (simp add: unat_of_nat del: if_split)
  qed
qed

subsection \<open>Submessages and arrays\<close>

lemma emits_submessage:
  assumes enc: "emits (enc fds src) out"
  shows "emits (pb_encode_submessage enc fds src) (varint_bytes (of_nat (length out)) @ out)"
proof -
  let ?n = "of_nat (length out) :: u64"
  let ?body = "\<lambda>s. if is_sizing s then Some (pb_write [] ?n s)
      else if os_bytes_written s + ?n > os_max_size s then Some (os_error ''stream full'' s)
      else case enc fds src ((count_bytes (length out) PB_OSTREAM_SIZING)\<lparr>os_callback := os_callback s, os_state := os_state s,
          os_max_size := ?n, os_bytes_written := 0, os_errmsg := None\<rparr>) of
        None \<Rightarrow> None
      | Some (status, sub) \<Rightarrow>
          let s = s\<lparr>os_bytes_written := os_bytes_written s + os_bytes_written sub,
              os_state := os_state sub, os_errmsg := os_errmsg sub\<rparr>
          in if os_bytes_written sub \<noteq> ?n then Some (os_error ''submsg size changed'' s) else Some (status, s)"
  have "pb_encode_submessage enc fds src = (\<lambda>s. os_then (Some (pb_encode_varint ?n s)) ?body)"
    unfolding pb_encode_submessage_def emits_sizing [OF enc sizing_stream(1)] option.case prod.case Let_def
      count_bytes_simps sizing_stream add_0 by simp
  moreover have "emits ?body out"
    unfolding emits_def
  proof (intro conjI allI impI)
    fix s assume "is_sizing s"
    then show "?body s = Some (True, count_bytes (length out) s)" by (simp add: pb_write_def count_bytes_def)
  next
    fix s assume s: "buffering s" and l: "length out < 2 ^ 63"
    let ?sub = "(count_bytes (length out) PB_OSTREAM_SIZING)\<lparr>os_callback := os_callback s, os_state := os_state s,
          os_max_size := ?n, os_bytes_written := 0, os_errmsg := None\<rparr>"
    have n: "unat ?n = length out" using l by (simp add: unat_of_nat)
    then have w: "unat (os_bytes_written s + ?n) = unat (os_bytes_written s) + length out"
      using s l by (simp add: buffering_def unat_word_ariths word_le_nat_alt)
    have sub: "enc fds src ?sub = Some (True, store_bytes out ?sub)"
      by (rule emits_fits [OF enc]) (use s n l in \<open>simp_all add: buffering_def\<close>)
    have "ran_out out s (snd (os_error ''stream full'' s))" using s by (rule ran_out_none)
    then show "if unat (os_bytes_written s) + length out \<le> unat (os_max_size s)
      then ?body s = Some (True, store_bytes out s) else \<exists>s'. ?body s = Some (False, s') \<and> ran_out out s s'"
      using s sub by (auto simp: word_less_nat_alt w os_error_def Let_def buffering_def store_bytes_def count_bytes_def)
  qed
  ultimately show ?thesis using emits_then [OF emits_varint] by simp
qed

lemma determined_submessage [determined_rules]:
  assumes "determined (enc fds src)"
  shows "determined (pb_encode_submessage enc fds src)"
  using assms unfolding determined_def [of "enc fds src"]
proof (elim disjE exE)
  assume "stuck (enc fds src)"
  then have "stuck (pb_encode_submessage enc fds src)" by (simp add: stuck_def pb_encode_submessage_def)
  then show ?thesis by (simp add: determined_def)
next
  assume "rejects (enc fds src)"
  then obtain s' where "enc fds src PB_OSTREAM_SIZING = Some (False, s')" using rejects_sizing by blast
  then have "rejects (pb_encode_submessage enc fds src)" by (simp add: rejects_def pb_encode_submessage_def)
  then show ?thesis by (simp add: determined_def)
qed (rule determined_emits [OF emits_submessage])

lemma determined_items [determined_rules]:
  "(\<And>p. determined (item p)) \<Longrightarrow> determined (encode_items item step n p)"
proof (induction n arbitrary: p)
  case 0
  have "encode_items item step 0 p = (\<lambda>s. Some (True, s))" by (rule ext) simp
  then show ?case by (simp add: determined_emits [OF emits_return])
next
  case (Suc n)
  have "encode_items item step (Suc n) p = (\<lambda>s. os_then (item p s) (encode_items item step n (p + step)))"
    by (rule ext) simp
  with Suc determined_then show ?case by metis
qed

lemma emits_items:
  assumes "\<And>p. \<exists>out. length out = k \<and> emits (item p) out"
  shows "\<exists>out. length out = n * k \<and> emits (encode_items item step n p) out"
proof (induction n arbitrary: p)
  case 0
  have "encode_items item step 0 p = (\<lambda>s. Some (True, s))" by (rule ext) simp
  then show ?case by (simp add: emits_return)
next
  case (Suc n)
  obtain a b where ab: "length a = k" "emits (item p) a" "length b = n * k" "emits (encode_items item step n (p + step)) b"
    using assms Suc by metis
  have "encode_items item step (Suc n) p = (\<lambda>s. os_then (item p s) (encode_items item step n (p + step)))"
    by (rule ext) simp
  with emits_then [OF ab(2,4)] ab(1,3) show ?case by (intro exI [of _ "a @ b"]) simp
qed

text \<open>On a sizing stream it is enough to count.\<close>

lemma emits_counted:
  assumes "emits f out" "n = of_nat (length out)"
  shows "emits (\<lambda>s. if is_sizing s then Some (pb_write [] n s) else f s) out"
  using assms unfolding emits_def by (auto simp: pb_write_def count_bytes_def)

lemma packed_size_emits:
  assumes "\<And>p. determined (func f p)"
    and "PB_LTYPE (pf_type f) = PB_LTYPE_FIXED32 \<Longrightarrow> \<forall>p. \<exists>out. length out = 4 \<and> emits (func f p) out"
    and "PB_LTYPE (pf_type f) = PB_LTYPE_FIXED64 \<Longrightarrow> \<forall>p. \<exists>out. length out = 8 \<and> emits (func f p) out"
    and "packed_size f func count pData = Some (Some n)"
  shows "\<exists>out. n = of_nat (length out) \<and>
    emits (encode_items (func f) (ucast (pf_data_size f)) (unat count) pData) out"
proof -
  let ?items = "encode_items (func f) (ucast (pf_data_size f)) (unat count) pData"
  consider "PB_LTYPE (pf_type f) = PB_LTYPE_FIXED32" | "PB_LTYPE (pf_type f) = PB_LTYPE_FIXED64"
    | "PB_LTYPE (pf_type f) \<noteq> PB_LTYPE_FIXED32" "PB_LTYPE (pf_type f) \<noteq> PB_LTYPE_FIXED64" by blast
  then show ?thesis
  proof cases
    case 1
    then obtain out where "length out = unat count * 4" "emits ?items out"
      using emits_items [of 4 "func f"] assms(2) by metis
    moreover have "n = of_nat (unat count * 4)" using assms(4) 1 by (simp add: packed_size_def mult.commute)
    ultimately show ?thesis by metis
  next
    case 2
    then obtain out where "length out = unat count * 8" "emits ?items out"
      using emits_items [of 8 "func f"] assms(3) by metis
    moreover have "n = of_nat (unat count * 8)" using assms(4) 2 by (simp add: packed_size_def pb_consts mult.commute)
    ultimately show ?thesis by metis
  next
    case 3
    obtain s' where "?items PB_OSTREAM_SIZING = Some (True, s')" "n = os_bytes_written s'"
      using assms(4) 3 by (auto simp: packed_size_def split: option.splits if_splits)
    moreover have "determined ?items" by (rule determined_items [OF assms(1)])
    ultimately show ?thesis using determined_sizing [of ?items s'] by auto
  qed
qed

lemma determined_array:
  assumes "\<And>p. determined (func f p)"
    and "PB_LTYPE (pf_type f) = PB_LTYPE_FIXED32 \<Longrightarrow> \<forall>p. \<exists>out. length out = 4 \<and> emits (func f p) out"
    and "PB_LTYPE (pf_type f) = PB_LTYPE_FIXED64 \<Longrightarrow> \<forall>p. \<exists>out. length out = 8 \<and> emits (func f p) out"
  shows "determined (encode_array m f pData count func)"
proof -
  let ?items = "encode_items (func f) (ucast (pf_data_size f)) (unat count) pData"
  have "determined (\<lambda>s. case packed_size f func count pData of None \<Rightarrow> None | Some None \<Rightarrow> Some (False, s)
      | Some (Some n) \<Rightarrow> os_then (Some (pb_encode_varint n s)) (\<lambda>s. if is_sizing s then Some (pb_write [] n s) else ?items s))"
  proof (cases "packed_size f func count pData")
    case None
    then show ?thesis by (simp add: determined_None)
  next
    case (Some r)
    show ?thesis
    proof (cases r)
      case None
      with Some show ?thesis by (simp add: determined_def rejects_def)
    next
      case (Some n)
      with \<open>packed_size f func count pData = Some r\<close> obtain out where "n = of_nat (length out)" "emits ?items out"
        using packed_size_emits [of func f count pData n] assms by auto
      from emits_then [OF emits_varint emits_counted [OF this(2,1)]]
      show ?thesis using Some \<open>packed_size f func count pData = Some r\<close> by (auto intro: determined_emits)
    qed
  qed
  moreover have "determined (unpacked_item m f func p)" for p
    unfolding unpacked_item_def by (intro determined_then determined_tag_for_field assms(1))
  ultimately show ?thesis
    unfolding encode_array_def [abs_def]
    by (intro determined_if determined_then determined_tag determined_error determined_items
        determined_emits [OF emits_return])
qed

subsection \<open>Messages\<close>

text \<open>
  What the encoder needs of the callbacks of the user: what they write does not depend on the stream
  they write it to. This is the rule of the documentation that a callback that is called twice has to
  write the same data.
\<close>

definition callbacks_determined :: "pb_env \<Rightarrow> mem \<Rightarrow> bool" where
  "callbacks_determined env m \<longleftrightarrow>
    (\<forall>fn f arg. determined (\<lambda>s. Some (env_encode env fn m f arg s))) \<and>
    (\<forall>fn x. determined (\<lambda>s. Some (env_ext_encode env fn m x s)))"

lemma determined_encoder:
  assumes "\<And>fds src. determined (enc fds src)"
  shows "determined (PB_ENCODERS enc m ltype f p)"
  unfolding PB_ENCODERS_def [abs_def] pb_enc_submessage_def
  by (intro determined_if determined_scalars determined_blobs determined_submessage determined_None
      determined_error assms)

lemma determined_encoder_array:
  assumes "\<And>fds src. determined (enc fds src)"
  shows "determined (encode_array m f pData count (PB_ENCODERS enc m (PB_LTYPE (pf_type f))))"
proof (rule determined_array)
  show "determined (PB_ENCODERS enc m (PB_LTYPE (pf_type f)) f p)" for p
    by (rule determined_encoder [OF assms])
  show "\<forall>p. \<exists>out. length out = 4 \<and> emits (PB_ENCODERS enc m (PB_LTYPE (pf_type f)) f p) out"
    if "PB_LTYPE (pf_type f) = PB_LTYPE_FIXED32"
    using that emits_fixed32 by (auto simp: PB_ENCODERS_def [abs_def] pb_consts pb_enc_fixed32_def)
  show "\<forall>p. \<exists>out. length out = 8 \<and> emits (PB_ENCODERS enc m (PB_LTYPE (pf_type f)) f p) out"
    if "PB_LTYPE (pf_type f) = PB_LTYPE_FIXED64"
    using that emits_fixed64 by (auto simp: PB_ENCODERS_def [abs_def] pb_consts pb_enc_fixed64_def)
qed

lemma determined_basic_field:
  assumes "\<And>fds src. determined (enc fds src)"
  shows "determined (encode_basic_field n env enc m f pData)"
proof (cases "implicit_has n env m f pData")
  case None
  then show ?thesis unfolding encode_basic_field_def [abs_def] Let_def by (simp add: determined_None)
next
  case (Some has)
  then show ?thesis
    unfolding encode_basic_field_def [abs_def] Let_def Some option.case
    by (intro determined_if determined_then determined_tag_for_field determined_encoder determined_encoder_array
        determined_error determined_None determined_emits [OF emits_return] assms)
qed

lemma determined_callback_error:
  assumes "determined (\<lambda>s. Some (g s))"
  shows "determined (\<lambda>s. Some (case g s of (ok, s) \<Rightarrow> if ok then (True, s) else os_error msg s))"
proof -
  have e: "ran_out out s (snd (os_error msg s'))" if "ran_out out s s'" for out s s'
    using that unfolding ran_out_def os_error_def by (elim exE conjE) (intro exI conjI, assumption, assumption, simp)
  let ?h = "\<lambda>s. Some (case g s of (ok, s) \<Rightarrow> if ok then (True, s) else os_error msg s)"
  have "rejects ?h" if "rejects (\<lambda>s. Some (g s))"
    using that by (fastforce simp: rejects_def os_error_def)
  moreover have "emits ?h out" if "emits (\<lambda>s. Some (g s)) out" for out
    using that e unfolding emits_def by (fastforce simp: os_error_def split: if_splits)
  ultimately show ?thesis using assms unfolding determined_def stuck_def by blast
qed

lemma determined_field:
  assumes "\<And>fds src. determined (enc fds src)" "callbacks_determined env m"
  shows "determined (encode_field n env enc m f pData)"
proof -
  have cb: "determined (\<lambda>s. Some (env_encode env fn m f arg s))" for fn f arg
    using assms(2) by (simp add: callbacks_determined_def)
  have "determined (\<lambda>s. Some (encode_callback_field env m f pData s))"
    unfolding encode_callback_field_def if_distrib [of Some] Let_def
    by (intro determined_if determined_callback_error cb determined_emits [OF emits_return])
  then show ?thesis unfolding encode_field_def [abs_def]
    by (intro determined_if determined_basic_field determined_error assms)
qed

lemma determined_extensions:
  assumes "\<And>fds src. determined (enc fds src)" "callbacks_determined env m"
  shows "determined (encode_extensions k n env enc m x)"
proof (induction k arbitrary: x)
  case 0
  have "encode_extensions 0 n env enc m x = (\<lambda>s. None)" by (rule ext) simp
  then show ?case by (simp add: determined_None)
next
  case (Suc k)
  have "determined (\<lambda>s. Some (env_ext_encode env fn m x s))" for fn
    using assms(2) by (simp add: callbacks_determined_def)
  then show ?case unfolding encode_extensions.simps [abs_def] default_extension_encoder_def Let_def
    by (intro determined_if determined_then determined_field determined_emits [OF emits_return] Suc assms)
qed

lemma determined_fields:
  "(\<And>it. determined (enc1 it)) \<Longrightarrow> determined (encode_fields enc1 its)"
proof (induction its)
  case Nil
  have "encode_fields enc1 [] = (\<lambda>s. Some (True, s))" by (rule ext) simp
  then show ?case by (simp add: determined_emits [OF emits_return])
next
  case (Cons it its)
  have "encode_fields enc1 (it # its) = (\<lambda>s. os_then (enc1 it s) (encode_fields enc1 its))" by (rule ext) simp
  with Cons determined_then show ?case by metis
qed

lemma determined_encode:
  assumes "callbacks_determined env m"
  shows "determined (pb_encode n env m fds src)"
proof (induction n arbitrary: fds src)
  case 0
  have "pb_encode 0 env m fds src = (\<lambda>s. None)" by (rule ext) simp
  then show ?case by (simp add: determined_None)
next
  case (Suc n)
  show ?case unfolding pb_encode.simps [abs_def] encode_extension_field_def
    by (intro determined_fields determined_if determined_extensions determined_field Suc assms)
qed

subsection \<open>The bounds of the buffer\<close>

text \<open>The bytes that are stored are those that are counted, and they are within the buffer.\<close>

definition in_bounds :: "ostream \<Rightarrow> bool" where
  "in_bounds s \<longleftrightarrow> os_callback s = OCB_buf_write \<and> length (os_state s) = unat (os_bytes_written s) \<and>
     os_bytes_written s \<le> os_max_size s"

lemma pb_write_in_bounds:
  assumes "in_bounds s" "length buf = unat count" "pb_write buf count s = (ok, s')"
  shows "in_bounds s' \<and> os_max_size s' = os_max_size s"
proof (cases "count > 0")
  case True
  have ns: "\<not> is_sizing s" "os_callback s = OCB_buf_write" using assms(1) by (simp_all add: in_bounds_def is_sizing_def)
  show ?thesis
  proof (cases "os_bytes_written s + count < os_bytes_written s \<or> os_bytes_written s + count > os_max_size s")
    case full: True
    then have "s' = snd (os_error ''stream full'' s)" using assms(3) True ns by (auto simp: pb_write_def)
    then show ?thesis using assms(1) by (simp add: os_error_def in_bounds_def)
  next
    case False
    then have "unat (os_bytes_written s + count) = unat (os_bytes_written s) + unat count"
      by (metis not_less unat_plus_simple)
    then show ?thesis using assms False True ns
      by (auto simp: pb_write_def buf_write_def in_bounds_def)
  qed
next
  case False
  then have "count = 0" by (simp add: word_gt_0)
  then show ?thesis using assms by (auto simp: pb_write_def in_bounds_def)
qed

lemma write_in_bounds:
  "in_bounds s \<Longrightarrow> length buf = unat count \<Longrightarrow>
   in_bounds (snd (pb_write buf count s)) \<and> os_max_size (snd (pb_write buf count s)) = os_max_size s"
  using pb_write_in_bounds [of s buf count] by (metis prod.collapse)

lemma encode_varint_in_bounds:
  assumes "in_bounds s"
  shows "in_bounds (snd (pb_encode_varint v s)) \<and> os_max_size (snd (pb_encode_varint v s)) = os_max_size s"
proof -
  have "length (varint_bytes v) < 2 ^ 64" using length_varint_bytes [of v] by simp
  then have l: "length (varint_bytes v) = unat (of_nat (length (varint_bytes v)) :: u64)" by (simp add: unat_of_nat)
  have "pb_encode_varint v s = pb_write (varint_bytes v) (of_nat (length (varint_bytes v))) s"
    by (simp add: pb_encode_varint_def varint_bytes_def Let_def)
  with write_in_bounds [OF assms l] show ?thesis by simp
qed

lemma encode_string_in_bounds:
  assumes "in_bounds s" "length buf = unat n"
  shows "in_bounds (snd (pb_encode_string buf n s)) \<and> os_max_size (snd (pb_encode_string buf n s)) = os_max_size s"
  using encode_varint_in_bounds [OF assms(1), of n] write_in_bounds [OF _ assms(2)]
  by (simp add: pb_encode_string_def os_seq_def)

end
