(* ===== verification/Pb_Codec.thy ===== *)
theory Pb_Codec
  imports Pb_Sizing Pb_Wire Codec
begin

text \<open>
  Reading back what the encoder has written: the readers of \<open>Pb_Wire\<close> on a stream over a buffer,
  and the contracts of \<open>Codec\<close> for the integers, tags and strings of the wire format.
\<close>

subsection \<open>Streams over a buffer\<close>

text \<open>A stream over a buffer that holds at least \<open>bytes_left\<close> bytes.\<close>

definition over_buffer :: "istream \<Rightarrow> bool" where
  "over_buffer s \<longleftrightarrow> is_callback s = ICB_buf_read \<and> is_bytes_left s \<le> length (is_state s)"

definition view :: "istream \<Rightarrow> bytes" where
  "view s = take (is_bytes_left s) (is_state s)"

definition advance :: "nat \<Rightarrow> istream \<Rightarrow> istream" where
  "advance k s = s\<lparr>is_state := drop k (is_state s), is_bytes_left := is_bytes_left s - k\<rparr>"

definition on_buffer :: "(istream, 'a) cfun \<Rightarrow> (bytes, 'a) cfun" where
  "on_buffer f bs = (let (r, s) = f (pb_istream_from_buffer bs (length bs)) in (r, view s))"

lemma advance_simps [simp]:
  "is_callback (advance k s) = is_callback s" "is_errmsg (advance k s) = is_errmsg s"
  "is_state (advance k s) = drop k (is_state s)" "is_bytes_left (advance k s) = is_bytes_left s - k"
  by (simp_all add: advance_def)

lemma advance_0 [simp]: "advance 0 s = s"
  by (simp add: advance_def)

lemma advance_advance [simp]: "advance a (advance b s) = advance (b + a) s"
  by (simp add: advance_def add.commute)

lemma over_buffer_advance [simp]: "over_buffer s \<Longrightarrow> over_buffer (advance k s)"
  by (auto simp: over_buffer_def)

lemma view_advance [simp]: "view (advance k s) = drop k (view s)"
  by (simp add: view_def drop_take)

lemma length_view: "over_buffer s \<Longrightarrow> length (view s) = is_bytes_left s"
  by (simp add: view_def over_buffer_def)

lemma from_buffer [simp]:
  "over_buffer (pb_istream_from_buffer bs (length bs))" "view (pb_istream_from_buffer bs (length bs)) = bs"
  by (simp_all add: over_buffer_def view_def pb_istream_from_buffer_def)

lemma read_callback_buffer:
  assumes "over_buffer s" "n \<le> is_bytes_left s"
  shows "read_callback n s = (Some (take n (view s)), advance n s)"
proof -
  have "map ((!) (is_state s)) [0..<n] = take n (view s)"
    using assms by (auto simp: over_buffer_def view_def min_def intro: nth_equalityI)
  with assms show ?thesis
    by (simp add: read_callback_def over_buffer_def buf_read_def advance_def)
qed

lemma pb_read_buffer:
  "over_buffer s \<Longrightarrow> pb_read n s =
    (if n \<le> is_bytes_left s then (Some (take n (view s)), advance n s) else is_error ''end-of-stream'' s)"
  by (auto simp: pb_read_def read_callback_buffer)

lemma pb_read_null_buffer:
  "over_buffer s \<Longrightarrow> pb_read_null n s = pb_read n s"
  by (simp add: pb_read_null_def pb_read_def over_buffer_def)

lemma readbyte_buffer:
  "over_buffer s \<Longrightarrow> pb_readbyte s =
    (case view s of [] \<Rightarrow> is_error ''end-of-stream'' s | b # bs \<Rightarrow> (Some b, advance 1 s))"
  using length_view [of s]
  by (auto simp: pb_readbyte_def read_callback_buffer hd_conv_nth split: list.split)

lemma readbyte_Cons: "over_buffer s \<Longrightarrow> view s = b # bs \<Longrightarrow> pb_readbyte s = (Some b, advance 1 s)"
  by (simp add: readbyte_buffer)

subsection \<open>Integers of variable length\<close>

lemma or_80_and_7f [simp]: "(x OR 0x80) AND 0x7F = x AND (0x7F :: u8)"
  by (simp add: mask_simps)

lemma or_80_and_80 [simp]: "(x OR 0x80) AND 0x80 \<noteq> (0 :: u8)"
proof -
  have "bit ((2 :: u8) ^ 7) 7" by (simp only: bit_exp_iff) simp
  then have "bit (x OR 2 ^ 7) 7" by (simp only: bit_or_iff) simp
  then have "(x OR 2 ^ 7) AND 2 ^ 7 \<noteq> 0" using and_exp_eq_0_iff_not_bit [of "x OR 2 ^ 7" 7] by blast
  then show ?thesis by simp
qed

lemma le_7f_iff: "v \<le> 0x7F \<longleftrightarrow> drop_bit 7 v = (0 :: u64)"
proof -
  have "drop_bit 7 v = 0 \<longleftrightarrow> unat v div 128 = 0" by (simp add: word_unat_eq_iff word_nat)
  then show ?thesis by (auto simp: word_le_nat_alt div_eq_0_iff)
qed

lemma and_7f_take: "(v :: 'a::len word) AND 0x7F = take_bit 7 v"
  by (simp add: take_bit_eq_mask mask_numeral)

lemma low_group: "v \<le> 0x7F \<Longrightarrow> (ucast (v AND 0x7F) OR 0x80 :: u8) AND 0x7F = ucast (v :: u64)"
proof -
  assume "v \<le> 0x7F"
  then have "v AND 0x7F = v"
    by (simp add: word_unat_eq_iff word_le_nat_alt and_7f_take word_nat)
  then show ?thesis using \<open>v \<le> 0x7F\<close>
    by (simp add: mask_simps word_unat_eq_iff word_nat word_le_nat_alt)
qed

lemma varint_bytes_rec:
  "varint_bytes v = (if v \<le> 0x7F then [ucast v]
     else (ucast (v AND 0x7F) OR 0x80) # varint_bytes (drop_bit 7 v))"
proof (cases "v \<le> 0x7F")
  case True
  then show ?thesis by (simp add: varint_bytes_def)
next
  case False
  let ?w = "drop_bit 7 v"
  have w: "?w \<noteq> 0" "v \<noteq> 0" using False by (auto simp: le_7f_iff)
  have g: "varint_groups v = (ucast (v AND 0x7F) OR 0x80) # varint_groups ?w"
    using w by (subst varint_groups.simps) simp
  have "butlast (varint_groups ?w) @ [last (varint_groups ?w) AND 0x7F] = varint_bytes ?w"
  proof (cases "?w \<le> 0x7F")
    case True
    then have "varint_groups ?w = [ucast (?w AND 0x7F) OR 0x80]"
      using w by (subst varint_groups.simps) (simp add: le_7f_iff)
    with True show ?thesis by (simp add: varint_bytes_def low_group del: or_80_and_7f)
  next
    case False
    then show ?thesis by (simp add: varint_bytes_def varint_buffer_def Let_def)
  qed
  then show ?thesis using False w by (simp add: varint_bytes_def varint_buffer_def g Let_def)
qed

lemma group_and_7f:
  "ucast ((ucast (v AND 0x7F) :: u8) AND 0x7F) = (take_bit 7 v :: u64)"
  "ucast ((ucast (v AND 0x7F) :: u8) AND 0x7F) = (ucast (take_bit 7 v) :: u32)"
  by (simp_all add: and_7f_take) (rule bit_word_eqI, auto simp: bit_simps)+

lemma group_or: "push_bit k (take_bit 7 w) OR push_bit (k + 7) (drop_bit 7 w) = push_bit k (w :: 'a::len word)"
proof -
  have "push_bit 7 (drop_bit 7 w) + take_bit 7 w = push_bit 7 (drop_bit 7 w) OR take_bit 7 w"
    by (rule disjunctive_add) (auto simp: bit_simps)
  then have "take_bit 7 w OR push_bit 7 (drop_bit 7 w) = w" by (simp add: bits_ident or.commute)
  then show ?thesis by (metis add.commute push_bit_or push_bit_push_bit)
qed

lemma varint_shorter: "\<not> w \<le> 0x7F \<Longrightarrow> unat w * 2 ^ (7 * k) < 2 ^ n \<Longrightarrow> unat (drop_bit 7 w) * 2 ^ (7 * Suc k) < 2 ^ n"
  for w :: u64
proof -
  assume "unat w * 2 ^ (7 * k) < 2 ^ n"
  moreover have "unat (drop_bit 7 w) * 2 ^ (7 * Suc k) \<le> unat w * 2 ^ (7 * k)"
    by (simp add: word_nat power_add)
  ultimately show ?thesis by (rule order.strict_trans1 [rotated])
qed

lemma varint_few_groups:
  assumes "\<not> w \<le> (0x7F :: u64)" "unat w * 2 ^ (7 * k) < 2 ^ n"
  shows "7 * k + 7 < n"
proof -
  have "(2 :: nat) ^ (7 + 7 * k) = 2 ^ 7 * 2 ^ (7 * k)" by (rule power_add)
  also have "\<dots> \<le> unat w * 2 ^ (7 * k)" using assms(1) by (intro mult_le_mono1) (simp add: word_le_nat_alt)
  also have "\<dots> < 2 ^ n" by (rule assms(2))
  finally show ?thesis by simp
qed

lemma unat_bitpos: "k \<le> 36 \<Longrightarrow> unat (of_nat (7 * k) :: u8) = 7 * k"
  by (simp add: unat_of_nat del: of_nat_mult)

lemma bitpos_Suc: "(of_nat (7 * Suc k) :: u8) = of_nat (7 * k) + 7"
  by (simp add: algebra_simps)

lemma varint_loop_reads:
  assumes "over_buffer s" "view s = varint_bytes w @ rest" "k \<le> 9" "unat w * 2 ^ (7 * k) < 2 ^ 64"
  shows "varint_loop (of_nat (7 * k)) r s = (Some (r OR push_bit (7 * k) w), advance (length (varint_bytes w)) s)"
  using assms
proof (induction "length (varint_bytes w)" arbitrary: w r s k)
  case 0
  then show ?case using varint_bytes_nonempty [of w] by simp
next
  case (Suc n)
  have b: "\<not> (64 :: u8) \<le> of_nat (7 * k)" "unat (of_nat (7 * k) :: u8) = 7 * k"
    using unat_bitpos [of k] Suc.prems(3) by (simp_all add: word_le_nat_alt)
  show ?case
  proof (cases "w \<le> 0x7F")
    case True
    then have v: "varint_bytes w = [ucast w]" by (subst varint_bytes_rec) simp
    have "(ucast w :: u8) AND 0x80 = 0" using True by (simp add: and_80_u8 word_nat word_le_nat_alt)
    moreover have "ucast ((ucast w :: u8) AND 0x7F) = w"
      using True by (simp add: and_7f_take word_unat_eq_iff word_nat word_le_nat_alt)
    ultimately show ?thesis using Suc.prems b readbyte_Cons [OF Suc.prems(1), of "ucast w" rest]
      by (subst varint_loop.simps) (simp add: v)
  next
    case False
    let ?b = "ucast (w AND 0x7F) OR 0x80 :: u8" and ?w = "drop_bit 7 w"
    have v: "varint_bytes w = ?b # varint_bytes ?w" using False by (subst varint_bytes_rec) simp
    have k: "7 * k + 7 < 64" by (rule varint_few_groups [OF False Suc.prems(4)])
    have "varint_loop (of_nat (7 * Suc k)) (r OR push_bit (7 * k) (take_bit 7 w)) (advance 1 s) =
        (Some ((r OR push_bit (7 * k) (take_bit 7 w)) OR push_bit (7 * Suc k) ?w), advance (length (varint_bytes ?w)) (advance 1 s))"
      using Suc.hyps(2) Suc.prems k varint_shorter [OF False Suc.prems(4)]
      by (intro Suc.hyps(1)) (simp_all add: v)
    moreover have "(r OR push_bit (7 * k) (take_bit 7 w)) OR push_bit (7 * Suc k) ?w = r OR push_bit (7 * k) w"
      using group_or [of "7 * k" w] by (simp add: or.assoc add.commute)
    ultimately show ?thesis
      using Suc.prems b readbyte_Cons [OF Suc.prems(1), of ?b "varint_bytes ?w @ rest"]
      unfolding bitpos_Suc by (subst varint_loop.simps) (simp add: v group_and_7f)
  qed
qed

lemma varint_reads:
  "over_buffer s \<Longrightarrow> view s = varint_bytes v @ rest \<Longrightarrow>
   pb_decode_varint s = (Some v, advance (length (varint_bytes v)) s)"
  using varint_loop_reads [of s v rest 0 0] by (simp add: pb_decode_varint_def)

text \<open>The 32-bit reader, on a group that has successors and is within the 32 bits.\<close>

lemma varint32_loop_step:
  assumes "over_buffer s" "view s = varint_bytes w @ rest" "k \<le> 4" "\<not> w \<le> 0x7F"
  shows "varint32_loop (of_nat (7 * k)) r s =
      varint32_loop (of_nat (7 * Suc k)) (r OR push_bit (7 * k) (ucast (take_bit 7 w))) (advance 1 s)"
    "view (advance 1 s) = varint_bytes (drop_bit 7 w) @ rest"
proof -
  let ?b = "ucast (w AND 0x7F) OR 0x80 :: u8"
  have v: "varint_bytes w = ?b # varint_bytes (drop_bit 7 w)" using assms(4) by (subst varint_bytes_rec) simp
  have b: "\<not> (32 :: u8) \<le> of_nat (7 * k)" "unat (of_nat (7 * k) :: u8) = 7 * k"
    using unat_bitpos [of k] assms(3) by (simp_all add: word_le_nat_alt)
  show "varint32_loop (of_nat (7 * k)) r s =
      varint32_loop (of_nat (7 * Suc k)) (r OR push_bit (7 * k) (ucast (take_bit 7 w))) (advance 1 s)"
    using b assms readbyte_Cons [OF assms(1), of ?b "varint_bytes (drop_bit 7 w) @ rest"]
    unfolding bitpos_Suc by (subst varint32_loop.simps) (simp add: v varint32_step_def group_and_7f)
  show "view (advance 1 s) = varint_bytes (drop_bit 7 w) @ rest" using assms(2) by (simp add: v)
qed

lemma group_or32:
  "push_bit k (ucast (take_bit 7 w)) OR push_bit (7 + k) (ucast (drop_bit 7 w)) = (push_bit k (ucast (w :: u64)) :: u32)"
proof -
  have "ucast (take_bit 7 w) = (take_bit 7 (ucast w) :: u32)" by (rule bit_word_eqI) (auto simp: bit_simps)
  moreover have "push_bit 7 (ucast (drop_bit 7 w)) = (push_bit 7 (drop_bit 7 (ucast w)) :: u32)"
    by (rule bit_word_eqI) (auto simp: bit_simps)
  from arg_cong [OF this, of "push_bit k"]
  have "push_bit (k + 7) (ucast (drop_bit 7 w)) = (push_bit (k + 7) (drop_bit 7 (ucast w)) :: u32)" by simp
  ultimately show ?thesis unfolding add.commute [of 7 k] using group_or [of k "ucast w :: u32"] by simp
qed

lemma varint32_loop_reads:
  assumes "over_buffer s" "view s = varint_bytes w @ rest" "k \<le> 4" "unat w * 2 ^ (7 * k) < 2 ^ 32"
  shows "varint32_loop (of_nat (7 * k)) r s =
    (Some (r OR push_bit (7 * k) (ucast w)), advance (length (varint_bytes w)) s)"
  using assms
proof (induction "length (varint_bytes w)" arbitrary: w r s k)
  case 0
  then show ?case using varint_bytes_nonempty [of w] by simp
next
  case (Suc n)
  show ?case
  proof (cases "w \<le> 0x7F")
    case True
    then have v: "varint_bytes w = [ucast w]" by (subst varint_bytes_rec) simp
    have b: "\<not> (32 :: u8) \<le> of_nat (7 * k)" "unat (of_nat (7 * k) :: u8) = 7 * k"
      using unat_bitpos [of k] Suc.prems(3) by (simp_all add: word_le_nat_alt)
    have "(ucast w :: u8) AND 0x80 = 0" using True by (simp add: and_80_u8 word_nat word_le_nat_alt)
    moreover have "(ucast ((ucast w :: u8) AND 0x7F) :: u32) = ucast w"
      using True by (simp add: and_7f_take word_unat_eq_iff word_nat word_le_nat_alt)
    moreover have "(ucast w :: u8) AND 0x70 = 0" if "of_nat (7 * k) + 7 = (35 :: u8)"
    proof -
      have "unat (of_nat (7 * Suc k) :: u8) = unat (35 :: u8)" using that by (simp add: algebra_simps)
      then have "k = 4" using unat_bitpos [of "Suc k"] Suc.prems(3) by simp
      then have "unat w < 16" using Suc.prems(4) by simp
      then have "take_bit 4 (ucast w :: u8) = ucast w" by (simp add: word_unat_eq_iff word_nat)
      moreover have m: "(0x70 :: u8) = push_bit 4 (mask 3)" by (simp add: mask_numeral push_bit_eq_mult)
      have "take_bit 4 x AND 0x70 = 0" for x :: u8
        unfolding m by (rule bit_word_eqI) (auto simp: bit_simps)
      ultimately show ?thesis by metis
    qed
    ultimately show ?thesis using Suc.prems b readbyte_Cons [OF Suc.prems(1), of "ucast w" rest]
      by (subst varint32_loop.simps) (auto simp: v varint32_step_def)
  next
    case False
    have v: "length (varint_bytes w) = Suc (length (varint_bytes (drop_bit 7 w)))"
      using False by (subst varint_bytes_rec) simp
    have "7 * k + 7 < 32" by (rule varint_few_groups [OF False Suc.prems(4)])
    then have "varint32_loop (of_nat (7 * Suc k)) (r OR push_bit (7 * k) (ucast (take_bit 7 w))) (advance 1 s) =
      (Some ((r OR push_bit (7 * k) (ucast (take_bit 7 w))) OR push_bit (7 * Suc k) (ucast (drop_bit 7 w))),
       advance (length (varint_bytes (drop_bit 7 w))) (advance 1 s))"
      using Suc.hyps(2) Suc.prems varint_shorter [OF False Suc.prems(4)] varint32_loop_step(2) [OF Suc.prems(1-3) False]
      by (intro Suc.hyps(1)) (simp_all add: v)
    then show ?thesis unfolding varint32_loop_step(1) [OF Suc.prems(1-3) False]
      using group_or32 [of "7 * k" w] by (simp add: v or.assoc)
  qed
qed

text \<open>The first byte of a value of several groups.\<close>

lemma varint32_first:
  assumes "over_buffer s" "view s = varint_bytes w @ rest" "\<not> w \<le> 0x7F"
  shows "pb_decode_varint32 s = varint32_loop (of_nat (7 * 1)) (ucast (take_bit 7 w)) (advance 1 s)"
    "view (advance 1 s) = varint_bytes (drop_bit 7 w) @ rest"
proof -
  let ?b = "ucast (w AND 0x7F) OR 0x80 :: u8"
  have v: "varint_bytes w = ?b # varint_bytes (drop_bit 7 w)" using assms(3) by (subst varint_bytes_rec) simp
  show "view (advance 1 s) = varint_bytes (drop_bit 7 w) @ rest" using assms(2) by (simp add: v)
  show "pb_decode_varint32 s = varint32_loop (of_nat (7 * 1)) (ucast (take_bit 7 w)) (advance 1 s)"
    using assms readbyte_Cons [OF assms(1), of ?b "varint_bytes (drop_bit 7 w) @ rest"]
    by (simp add: pb_decode_varint32_def pb_decode_varint32_eof_def v group_and_7f case_prod_beta)
qed

text \<open>A value that fits in 32 bits.\<close>

lemma varint32_reads:
  assumes "over_buffer s" "view s = varint_bytes (ucast v) @ rest"
  shows "pb_decode_varint32 s = (Some v, advance (length (varint_bytes (ucast v))) s)"
proof (cases "(ucast v :: u64) \<le> 0x7F")
  case True
  have u: "unat v \<le> 127" using True by (simp add: word_le_nat_alt)
  have e: "varint_bytes (ucast v) = [ucast (ucast v :: u64)]" using True by (subst varint_bytes_rec) simp
  have "(ucast (ucast v :: u64) :: u8) AND 0x80 = 0" using u by (simp add: and_80_u8 word_nat)
  moreover have "ucast (ucast (ucast v :: u64) :: u8) = v" using u by (simp add: word_unat_eq_iff word_nat)
  ultimately show ?thesis using assms readbyte_Cons [OF assms(1), of "ucast (ucast v :: u64)" rest]
    by (simp add: pb_decode_varint32_def pb_decode_varint32_eof_def e)
next
  case False
  let ?w = "ucast v :: u64"
  have u: "ucast ?w = v" by (simp add: word_unat_eq_iff word_nat)
  have l: "length (varint_bytes ?w) = Suc (length (varint_bytes (drop_bit 7 ?w)))"
    using False by (subst varint_bytes_rec) simp
  have "unat (drop_bit 7 ?w) * 2 ^ (7 * Suc 0) < 2 ^ 32" by (rule varint_shorter [OF False]) simp
  from varint32_loop_reads [OF _ varint32_first(2) [OF assms False] _ this, of "ucast (take_bit 7 ?w)"]
  show ?thesis unfolding varint32_first(1) [OF assms False]
    using assms(1) group_or32 [of 0 ?w] u by (simp add: l)
qed

text \<open>
  A negative value that was extended to 64 bits, as the encoder writes an \<open>int32\<close>: the groups above
  the 32 bits are all ones.
\<close>

lemma varint_bytes_ones: "varint_bytes (mask 29) = [0xFF, 0xFF, 0xFF, 0xFF, 0x01]"
  by (simp add: mask_numeral) code_simp

lemma varint32_loop_ones:
  assumes "over_buffer s" "view s = [0xFF, 0xFF, 0xFF, 0xFF, 0x01] @ rest" "bit r 31"
  shows "varint32_loop 35 r s = (Some r, advance 5 s)"
proof -
  have "bit (drop_bit 31 r) 0" using assms(3) by (simp add: bit_drop_bit_eq del: bit_0)
  then have r: "drop_bit 31 r \<noteq> 0" by (rule contrapos_pn) simp
  have "pb_readbyte (advance k s) = (Some (if k = 4 then 1 else 0xFF), advance (Suc k) s)" if "k < 5" for k
  proof -
    have "view (advance k s) = (if k = 4 then 1 else 0xFF) # drop (Suc k) (view s)"
      using that assms(2) by (auto simp: less_Suc_eq numeral_eq_Suc)
    from readbyte_Cons [OF over_buffer_advance [OF assms(1)] this] show ?thesis by simp
  qed
  from this [of 0] this [of 1] this [of 2] this [of 3] this [of 4] r show ?thesis
    by (simp add: varint32_loop.simps [of 35] varint32_loop.simps [of 42] varint32_loop.simps [of 49]
        varint32_loop.simps [of 56] varint32_loop.simps [of 63] varint32_step_def flip: numeral_2_eq_2)
qed

lemma varint32_loop_prefix:
  assumes "over_buffer s" "view s = varint_bytes w @ rest"
  shows "k + j \<le> 5 \<Longrightarrow> drop_bit (7 * j) w \<noteq> 0 \<Longrightarrow>
    varint32_loop (of_nat (7 * k)) r s =
      varint32_loop (of_nat (7 * (k + j))) (r OR push_bit (7 * k) (ucast (take_bit (7 * j) w))) (advance j s) \<and>
    view (advance j s) = varint_bytes (drop_bit (7 * j) w) @ rest"
proof (induction j)
  case 0
  then show ?case using assms(2) by simp
next
  case (Suc j)
  have nz: "drop_bit (7 * j) w \<noteq> 0" using Suc.prems(2) by (metis drop_bit_drop_bit drop_bit_of_0 mult_Suc_right)
  have ih: "varint32_loop (of_nat (7 * k)) r s =
      varint32_loop (of_nat (7 * (k + j))) (r OR push_bit (7 * k) (ucast (take_bit (7 * j) w))) (advance j s)"
    "view (advance j s) = varint_bytes (drop_bit (7 * j) w) @ rest" using Suc nz by simp_all
  have "\<not> drop_bit (7 * j) w \<le> 0x7F" "k + j \<le> 4" using Suc.prems by (simp_all add: le_7f_iff add.commute)
  note st = varint32_loop_step [OF over_buffer_advance [OF assms(1)] ih(2) this(2,1)]
  have "push_bit (7 * k) (ucast (take_bit (7 * j) w)) OR push_bit (7 * (k + j)) (ucast (take_bit 7 (drop_bit (7 * j) w))) =
      (push_bit (7 * k) (ucast (take_bit (7 * Suc j) w)) :: u32)"
  proof -
    have "ucast (take_bit (7 * j) w) OR push_bit (7 * j) (ucast (take_bit 7 (drop_bit (7 * j) w))) = (ucast (take_bit (7 * Suc j) w) :: u32)"
      by (rule bit_word_eqI) (auto simp: bit_simps)
    from arg_cong [OF this, of "push_bit (7 * k)"] show ?thesis by (simp add: push_bit_or add_mult_distrib2)
  qed
  then show ?case unfolding ih(1) st(1) using st(2) by (simp add: or.assoc add.commute)
qed

lemma negative_bits: "bit v 31 \<Longrightarrow> bit (scast (v :: u32) :: u64) n \<longleftrightarrow> n < 64 \<and> (n < 32 \<longrightarrow> bit v n)"
  by (cases "n = 31") (auto simp: bit_signed_iff min_def)

lemma nonnegative_scast: "\<not> bit v 31 \<Longrightarrow> (scast (v :: u32) :: u64) = ucast v"
proof (rule bit_word_eqI)
  fix n assume "\<not> bit v 31" "n < LENGTH(64)"
  then show "bit (scast v :: u64) n \<longleftrightarrow> bit (ucast v :: u64) n"
    using bit_imp_le_length [of v n] by (cases "n = 31") (auto simp: bit_simps min_def)
qed

lemma negative_high: "bit v 31 \<Longrightarrow> drop_bit 35 (scast (v :: u32) :: u64) = mask 29"
  by (rule bit_word_eqI) (auto simp: bit_simps)

lemma negative_groups:
  assumes "bit v 31" "n \<le> 35"
  shows "drop_bit n (scast (v :: u32) :: u64) \<noteq> 0"
proof
  assume "drop_bit n (scast v :: u64) = 0"
  then have "\<not> bit (drop_bit n (scast v :: u64)) (63 - n)" by simp
  then show False using assms by (simp add: bit_drop_bit_eq negative_bits)
qed

lemma length_varint_negative:
  assumes "bit v 31"
  shows "length (varint_bytes (scast (v :: u32))) = 10"
proof -
  have "length (varint_bytes (drop_bit n (scast v :: u64))) = Suc (length (varint_bytes (drop_bit (n + 7) (scast v :: u64))))"
    if "n \<le> 28" for n
  proof -
    have "\<not> drop_bit n (scast v :: u64) \<le> 0x7F"
      using negative_groups [OF assms, of "n + 7"] that by (simp add: le_7f_iff add.commute)
    then show ?thesis by (subst varint_bytes_rec) (simp add: add.commute)
  qed
  from this [of 0] this [of 7] this [of 14] this [of 21] this [of 28]
  show ?thesis by (simp add: negative_high [OF assms] varint_bytes_ones)
qed

lemma varint32_reads_negative:
  assumes "over_buffer s" "view s = varint_bytes (scast v) @ rest" "bit v 31"
  shows "pb_decode_varint32 s = (Some v, advance 10 s)"
proof -
  let ?x = "scast v :: u64"
  have nz: "\<not> ?x \<le> 0x7F" "drop_bit (7 * 4) (drop_bit 7 ?x) \<noteq> 0"
    using negative_groups [OF assms(3), of 7] negative_groups [OF assms(3), of 35] by (simp_all add: le_7f_iff)
  have r: "ucast (take_bit 7 ?x) OR push_bit 7 (ucast (take_bit 28 (drop_bit 7 ?x))) = v"
    by (rule bit_word_eqI) (auto simp: bit_simps negative_bits [OF assms(3)])
  note f = varint32_first [OF assms(1,2) nz(1)]
  from varint32_loop_prefix [OF over_buffer_advance [OF assms(1)] f(2), of 1 4 "ucast (take_bit 7 ?x)"] nz(2)
  have "pb_decode_varint32 s = varint32_loop 35 v (advance 5 s)"
    "view (advance 5 s) = [0xFF, 0xFF, 0xFF, 0xFF, 0x01] @ rest"
    unfolding f(1) by (simp_all add: negative_high [OF assms(3)] r varint_bytes_ones)
  with varint32_loop_ones [OF over_buffer_advance [OF assms(1)] this(2) assms(3)] show ?thesis by simp
qed

subsection \<open>Contracts of writer and reader\<close>

lemma on_bufferI:
  assumes "\<And>s. over_buffer s \<Longrightarrow> view s = enc @ rest \<Longrightarrow> f s = (Some v, advance (length enc) s)"
  shows "on_buffer f (enc @ rest) = (Some v, rest)"
  using assms [of "pb_istream_from_buffer (enc @ rest) (length (enc @ rest))"] unfolding on_buffer_def
  by (simp del: length_append)

interpretation varint: codec "\<lambda>_. True" varint_bytes "on_buffer pb_decode_varint"
  by unfold_locales (rule on_bufferI, rule varint_reads)

interpretation varint32: codec "\<lambda>_. True" "\<lambda>v. varint_bytes (ucast v)" "on_buffer pb_decode_varint32"
  by unfold_locales (rule on_bufferI, rule varint32_reads)

lemma svarint_of_zigzag: "(if zigzag v AND 1 \<noteq> 0 then NOT (drop_bit 1 (zigzag v)) else drop_bit 1 (zigzag v)) = v"
proof -
  have one: "x AND 1 = 0 \<longleftrightarrow> \<not> bit x 0" for x :: u64
    using and_exp_eq_0_iff_not_bit [of x 0] by simp
  have sgn: "v <s 0 \<longleftrightarrow> bit v 63" using bit_last_iff [of v] by (simp add: word_sless_alt)
  have low: "\<not> bit (push_bit 1 v) 0" by (simp only: bit_push_bit_iff) simp
  have up: "bit (push_bit 1 v) (1 + n) \<longleftrightarrow> n < 63 \<and> bit v n" for n
    by (simp only: bit_push_bit_iff possible_bit_word) auto
  have n63: "n = 63" if "n < 64" "\<not> n < 63" for n :: nat using that by simp
  show ?thesis
  proof (cases "bit v 63")
    case True
    then have "bit (zigzag v) 0" using low by (simp only: zigzag_def sgn if_True bit_not_iff) simp
    moreover have "NOT (drop_bit 1 (NOT (push_bit 1 v))) = v"
    proof (rule bit_word_eqI)
      fix n assume "n < LENGTH(64)"
      then have n: "n < 64" by simp
      have "bit (NOT (drop_bit 1 (NOT (push_bit 1 v)))) n \<longleftrightarrow> (1 + n < 64 \<longrightarrow> bit (push_bit 1 v) (1 + n))"
        using n by (simp only: bit_not_iff bit_drop_bit_eq comp_def possible_bit_word) auto
      then show "bit (NOT (drop_bit 1 (NOT (push_bit 1 v)))) n \<longleftrightarrow> bit v n"
        unfolding up using n63 [OF n] True by (cases "n < 63") (simp_all del: push_bit_Suc)
    qed
    ultimately show ?thesis using True by (simp add: one zigzag_def sgn del: bit_0)
  next
    case False
    then have "\<not> bit (zigzag v) 0" using low by (simp only: zigzag_def sgn if_False) simp
    moreover have "drop_bit 1 (push_bit 1 v) = v"
    proof (rule bit_word_eqI)
      fix n assume "n < LENGTH(64)"
      then have n: "n < 64" by simp
      show "bit (drop_bit 1 (push_bit 1 v)) n \<longleftrightarrow> bit v n"
        unfolding bit_drop_bit_eq comp_def up using n63 [OF n] False by (cases "n < 63") simp_all
    qed
    ultimately show ?thesis using False by (simp add: one zigzag_def sgn del: bit_0)
  qed
qed

interpretation svarint: codec "\<lambda>_. True" "\<lambda>v. varint_bytes (zigzag v)" "on_buffer pb_decode_svarint"
proof (unfold_locales, rule on_bufferI)
  fix v :: u64 and rest s
  assume s: "over_buffer s" "view s = varint_bytes (zigzag v) @ rest"
  show "pb_decode_svarint s = (Some v, advance (length (varint_bytes (zigzag v))) s)"
    unfolding pb_decode_svarint_def varint_reads [OF s] by (simp add: svarint_of_zigzag)
qed

subsection \<open>Integers of fixed length\<close>

definition fixed32_bytes :: "u32 \<Rightarrow> bytes" where
  "fixed32_bytes v = [ucast v, ucast (drop_bit 8 v), ucast (drop_bit 16 v), ucast (drop_bit 24 v)]"

definition fixed64_bytes :: "u64 \<Rightarrow> bytes" where
  "fixed64_bytes v = [ucast v, ucast (drop_bit 8 v), ucast (drop_bit 16 v), ucast (drop_bit 24 v),
     ucast (drop_bit 32 v), ucast (drop_bit 40 v), ucast (drop_bit 48 v), ucast (drop_bit 56 v)]"

lemma length_fixed_bytes [simp]: "length (fixed32_bytes v) = 4" "length (fixed64_bytes w) = 8"
  by (simp_all add: fixed32_bytes_def fixed64_bytes_def)

lemma ucast_and_ff: "(ucast ((x :: 'a::len word) AND 0xFF) :: u8) = ucast x"
proof -
  have "x AND mask 8 = take_bit 8 x" by (simp add: take_bit_eq_mask)
  then show ?thesis by (simp add: mask_numeral) (rule bit_word_eqI, auto simp: bit_simps)
qed

lemma emits_fixed32_bytes: "emits (\<lambda>s. Some (pb_encode_fixed32 v s)) (fixed32_bytes v)"
  and emits_fixed64_bytes: "emits (\<lambda>s. Some (pb_encode_fixed64 w s)) (fixed64_bytes w)"
  unfolding pb_encode_fixed32_def pb_encode_fixed64_def fixed32_bytes_def fixed64_bytes_def ucast_and_ff
  by (rule emits_write, simp)+

definition fixed32_value :: "bytes \<Rightarrow> u32" where
  "fixed32_value bs = ucast (bs ! 0) OR push_bit 8 (ucast (bs ! 1)) OR push_bit 16 (ucast (bs ! 2)) OR
     push_bit 24 (ucast (bs ! 3))"

definition fixed64_value :: "bytes \<Rightarrow> u64" where
  "fixed64_value bs = ucast (bs ! 0) OR push_bit 8 (ucast (bs ! 1)) OR push_bit 16 (ucast (bs ! 2)) OR
     push_bit 24 (ucast (bs ! 3)) OR push_bit 32 (ucast (bs ! 4)) OR push_bit 40 (ucast (bs ! 5)) OR
     push_bit 48 (ucast (bs ! 6)) OR push_bit 56 (ucast (bs ! 7))"

text \<open>Both directions for words of any length.\<close>

fun le_or :: "bytes \<Rightarrow> 'a::len word" where
  "le_or [] = 0"
| "le_or (b # bs) = ucast b OR push_bit 8 (le_or bs)"

fun le_split :: "nat \<Rightarrow> 'a::len word \<Rightarrow> bytes" where
  "le_split 0 x = []"
| "le_split (Suc n) x = ucast x # le_split n (drop_bit 8 x)"

lemma byte_split: "ucast (ucast x :: u8) OR push_bit 8 (take_bit n (drop_bit 8 x)) = take_bit (8 + n) (x :: 'a::len word)"
proof (rule bit_word_eqI)
  fix k assume "k < LENGTH('a)"
  then show "bit (ucast (ucast x :: u8) OR push_bit 8 (take_bit n (drop_bit 8 x))) k = bit (take_bit (8 + n) x) k"
    by (cases "k < 8") (auto simp: bit_simps)
qed

lemma le_or_split: "le_or (le_split n x) = take_bit (8 * n) x"
  by (induction n arbitrary: x) (simp_all add: byte_split)

lemma ucast_le_or: "8 \<le> LENGTH('a) \<Longrightarrow> ucast (ucast (b :: u8) OR push_bit 8 (x :: 'a::len word)) = b"
  by (rule bit_word_eqI) (auto simp: bit_simps)

lemma drop_bit_le_or:
  assumes "take_bit (LENGTH('a) - 8) x = x"
  shows "drop_bit 8 (ucast (b :: u8) OR push_bit 8 (x :: 'a::len word)) = x"
proof (rule bit_word_eqI)
  fix k assume "k < LENGTH('a)"
  have "bit x k \<longleftrightarrow> k < LENGTH('a) - 8 \<and> bit x k" using assms by (metis bit_take_bit_iff)
  then show "bit (drop_bit 8 (ucast b OR push_bit 8 x)) k = bit x k"
    by (auto simp: bit_simps dest: bit_imp_le_length)
qed

lemma le_or_bound: "take_bit (8 * length bs) (le_or bs) = (le_or bs :: 'a::len word)"
proof (induction bs)
  case (Cons b bs)
  have "push_bit 8 (take_bit (8 * length bs) (le_or bs)) = take_bit (8 + 8 * length bs) (push_bit 8 (le_or bs) :: 'a word)"
    by (rule bit_word_eqI) (auto simp: bit_simps)
  moreover have "take_bit (8 + n) (ucast b :: 'a word) = ucast b" for n
    by (rule bit_word_eqI) (auto simp: bit_simps dest: bit_imp_le_length)
  ultimately show ?case using Cons by (simp del: push_bit_eq_mult)
qed simp

lemma le_split_or: "8 * length bs \<le> LENGTH('a) \<Longrightarrow> le_split (length bs) (le_or bs :: 'a::len word) = bs"
proof (induction bs)
  case (Cons b bs)
  have "take_bit (LENGTH('a) - 8) (le_or bs) = (le_or bs :: 'a word)"
    using le_or_bound [of bs, where 'a = 'a] Cons.prems by (metis (no_types) add_le_imp_le_diff length_Cons
        mult_Suc_right take_bit_take_bit min.absorb2 add.commute)
  from drop_bit_le_or [OF this] Cons show ?case by (simp add: ucast_le_or)
qed simp

lemma fixed_bytes_split: "fixed32_bytes v = le_split 4 v" "fixed64_bytes w = le_split 8 w"
  by (simp_all add: fixed32_bytes_def fixed64_bytes_def eval_nat_numeral)

lemma list_of_4: "length bs = 4 \<Longrightarrow> \<exists>a b c d. bs = [a, b, c, d]"
  by (auto simp: length_Suc_conv numeral_eq_Suc)

lemma list_of_8: "length bs = 8 \<Longrightarrow> \<exists>a b c d e f g h. bs = [a, b, c, d, e, f, g, h]"
  by (auto simp: length_Suc_conv numeral_eq_Suc)

lemma fixed_value_or: "length bs = 4 \<Longrightarrow> fixed32_value bs = le_or bs" "length bs = 8 \<Longrightarrow> fixed64_value bs = le_or bs"
  by (auto dest!: list_of_4 list_of_8 simp: fixed32_value_def fixed64_value_def push_bit_or)

lemma fixed32_reads:
  assumes "over_buffer s" "4 \<le> is_bytes_left s"
  shows "pb_decode_fixed32 s = (Some (le_or (take 4 (view s))), advance 4 s)"
  using assms length_view [OF assms(1)]
  by (simp add: pb_decode_fixed32_def pb_read_buffer fixed_value_or(1) [symmetric] fixed32_value_def)

lemma fixed64_reads:
  assumes "over_buffer s" "8 \<le> is_bytes_left s"
  shows "pb_decode_fixed64 s = (Some (le_or (take 8 (view s))), advance 8 s)"
  using assms length_view [OF assms(1)]
  by (simp add: pb_decode_fixed64_def pb_read_buffer fixed_value_or(2) [symmetric] fixed64_value_def)

lemma on_buffer_fixed32:
  "on_buffer pb_decode_fixed32 bs = (Some v, rest) \<longleftrightarrow> bs = fixed32_bytes v @ rest"
proof (cases "4 \<le> length bs")
  case True
  then have d: "on_buffer pb_decode_fixed32 bs = (Some (le_or (take 4 bs)), drop 4 bs)"
    by (simp add: on_buffer_def fixed32_reads pb_istream_from_buffer_def view_def over_buffer_def)
  have "fixed32_bytes (le_or (take 4 bs)) = take 4 bs"
    using le_split_or [of "take 4 bs", where 'a = 32] True by (simp add: fixed_bytes_split)
  moreover have "le_or (fixed32_bytes v) = v" by (simp add: fixed_bytes_split le_or_split take_bit_word_eq_self)
  ultimately show ?thesis unfolding d
    by (metis append_eq_conv_conj append_take_drop_id length_fixed_bytes(1) option.inject prod.inject)
next
  case False
  then show ?thesis by (auto simp: on_buffer_def pb_decode_fixed32_def pb_read_buffer is_error_def pb_istream_from_buffer_def over_buffer_def)
qed

lemma on_buffer_fixed64:
  "on_buffer pb_decode_fixed64 bs = (Some v, rest) \<longleftrightarrow> bs = fixed64_bytes v @ rest"
proof (cases "8 \<le> length bs")
  case True
  then have d: "on_buffer pb_decode_fixed64 bs = (Some (le_or (take 8 bs)), drop 8 bs)"
    by (simp add: on_buffer_def fixed64_reads pb_istream_from_buffer_def view_def over_buffer_def)
  have "fixed64_bytes (le_or (take 8 bs)) = take 8 bs"
    using le_split_or [of "take 8 bs", where 'a = 64] True by (simp add: fixed_bytes_split)
  moreover have "le_or (fixed64_bytes v) = v" by (simp add: fixed_bytes_split le_or_split take_bit_word_eq_self)
  ultimately show ?thesis unfolding d
    by (metis append_eq_conv_conj append_take_drop_id length_fixed_bytes(2) option.inject prod.inject)
next
  case False
  then show ?thesis by (auto simp: on_buffer_def pb_decode_fixed64_def pb_read_buffer is_error_def pb_istream_from_buffer_def over_buffer_def)
qed

interpretation fixed32: progress_codec "\<lambda>_. True" fixed32_bytes "on_buffer pb_decode_fixed32"
  by unfold_locales (auto simp: on_buffer_fixed32 fixed32_bytes_def)

interpretation fixed64: progress_codec "\<lambda>_. True" fixed64_bytes "on_buffer pb_decode_fixed64"
  by unfold_locales (auto simp: on_buffer_fixed64 fixed64_bytes_def)

subsection \<open>Tags\<close>

definition tag_word :: "u32 \<times> u32 \<Rightarrow> u32" where
  "tag_word = (\<lambda>(wiretype, number). push_bit 3 number OR wiretype)"

text \<open>A field number of at most 29 bits that is not 0, and a wire type of three bits.\<close>

definition valid_tag :: "u32 \<times> u32 \<Rightarrow> bool" where
  "valid_tag = (\<lambda>(wiretype, number). unat wiretype < 8 \<and> 0 < unat number \<and> unat number < 2 ^ 29)"

definition read_tag :: "(istream, u32 \<times> u32) cfun" where
  "read_tag s = (case pb_decode_tag s of ((r, _), s) \<Rightarrow> (r, s))"

lemma tag_word_parts:
  assumes "valid_tag (w, n)"
  shows "tag_word (w, n) AND 7 = w" "drop_bit 3 (tag_word (w, n)) = n" "tag_word (w, n) \<noteq> 0"
proof -
  have w: "take_bit 3 w = w" and n: "take_bit 29 n = n"
    using assms by (simp_all add: valid_tag_def word_unat_eq_iff word_nat)
  have wb: "bit w k \<longrightarrow> k < 3" and nb: "bit n k \<longrightarrow> k < 29" for k
    using w n by (metis bit_take_bit_iff)+
  have "tag_word (w, n) AND 7 = take_bit 3 (tag_word (w, n))" by (simp add: take_bit_eq_mask mask_numeral)
  also have "\<dots> = w" unfolding tag_word_def prod.case
    by (rule bit_word_eqI) (auto simp: bit_simps dest: wb [rule_format])
  finally show "tag_word (w, n) AND 7 = w" .
  show d: "drop_bit 3 (tag_word (w, n)) = n" unfolding tag_word_def prod.case
  proof (rule bit_word_eqI)
    fix k assume "k < LENGTH(32)"
    then show "bit (drop_bit 3 (push_bit 3 n OR w)) k \<longleftrightarrow> bit n k"
      using nb [of k] wb [of "3 + k"] by (auto simp: bit_simps)
  qed
  show "tag_word (w, n) \<noteq> 0" using d assms by (auto simp: valid_tag_def)
qed

lemma emits_tag:
  assumes "valid_tag (w, n)"
  shows "emits (\<lambda>s. Some (pb_encode_tag w n s)) (varint_bytes (ucast (tag_word (w, n))))"
proof -
  have "take_bit 29 n = n" using assms by (simp add: valid_tag_def word_unat_eq_iff word_nat)
  then have nb: "bit n k \<longrightarrow> k < 29" for k by (metis bit_take_bit_iff)
  have wb: "bit w k \<longrightarrow> k < 32" for k using bit_imp_le_length [of w k] by simp
  have "push_bit 3 (ucast n) OR ucast w = (ucast (tag_word (w, n)) :: u64)"
    unfolding tag_word_def prod.case
  proof (rule bit_word_eqI)
    fix k assume "k < LENGTH(64)"
    then show "bit (push_bit 3 (ucast n) OR ucast w :: u64) k \<longleftrightarrow> bit (ucast (push_bit 3 n OR w) :: u64) k"
      using nb [of "k - 3"] wb [of k] by (auto simp: bit_simps)
  qed
  then show ?thesis unfolding pb_encode_tag_def using emits_varint by metis
qed

interpretation tag: codec valid_tag "\<lambda>t. varint_bytes (ucast (tag_word t))" "on_buffer read_tag"
proof (unfold_locales, rule on_bufferI)
  fix t :: "u32 \<times> u32" and rest s
  assume t: "valid_tag t" and s: "over_buffer s" "view s = varint_bytes (ucast (tag_word t)) @ rest"
  obtain w n where wn: "t = (w, n)" by (cases t)
  obtain e where "pb_decode_varint32_eof s = ((Some (tag_word t), e), advance (length (varint_bytes (ucast (tag_word t)))) s)"
    using varint32_reads [OF s] by (auto simp: pb_decode_varint32_def split: prod.splits)
  with tag_word_parts [of w n] t show "read_tag s = (Some t, advance (length (varint_bytes (ucast (tag_word t)))) s)"
    by (simp add: read_tag_def pb_decode_tag_def wn)
qed

subsection \<open>Substreams\<close>

lemma make_substream_reads:
  fixes n :: u32
  assumes "over_buffer s" "view s = varint_bytes (ucast n) @ data @ rest" "length data = unat n"
  defines "k \<equiv> length (varint_bytes (ucast n))"
  shows "pb_make_string_substream s =
    (Some ((advance k s)\<lparr>is_bytes_left := unat n\<rparr>), (advance k s)\<lparr>is_bytes_left := is_bytes_left s - k - unat n\<rparr>)"
proof -
  have "k + unat n \<le> is_bytes_left s" using length_view [OF assms(1)] assms(2,3) by (simp add: k_def)
  then have "\<not> is_bytes_left s - k < unat n" by simp
  then show ?thesis unfolding pb_make_string_substream_def varint32_reads [OF assms(1,2)] by (simp add: k_def)
qed

text \<open>
  A substream shows exactly the contents of the string; however much of it has been read, closing it
  leaves the parent behind the string.
\<close>

lemma substream_confined:
  fixes n :: u32
  assumes "over_buffer s" "view s = varint_bytes (ucast n) @ data @ rest" "length data = unat n" "j \<le> unat n"
  shows "\<exists>sub s'. pb_make_string_substream s = (Some sub, s') \<and> over_buffer sub \<and> view sub = data \<and>
    pb_close_string_substream s' (advance j sub) = (True, advance (length (varint_bytes (ucast n)) + unat n) s)"
proof -
  let ?k = "length (varint_bytes (ucast n :: u64))"
  let ?sub = "(advance ?k s)\<lparr>is_bytes_left := unat n\<rparr>" and ?s = "(advance ?k s)\<lparr>is_bytes_left := is_bytes_left s - ?k - unat n\<rparr>"
  have left: "?k + unat n \<le> is_bytes_left s" using length_view [OF assms(1)] assms(2,3) by simp
  have ob: "over_buffer ?sub" using assms(1) left by (auto simp: over_buffer_def)
  have "view ?sub = take (unat n) (view (advance ?k s))" using left by (simp add: view_def min_def)
  then have v: "view ?sub = data" using assms(2,3) by simp
  have "pb_close_string_substream ?s (advance j ?sub) = (True, advance (?k + unat n) s)"
  proof (cases "j = unat n")
    case True
    then show ?thesis by (simp add: pb_close_string_substream_def advance_def add.commute)
  next
    case False
    have "pb_read_null (unat n - j) (advance j ?sub) = (Some (take (unat n - j) (view (advance j ?sub))), advance (unat n - j) (advance j ?sub))"
      using ob by (simp add: pb_read_null_buffer pb_read_buffer)
    then show ?thesis using False assms(4)
      by (simp add: pb_close_string_substream_def) (simp add: advance_def add.commute)
  qed
  with make_substream_reads [OF assms(1-3)] ob v show ?thesis by blast
qed

subsection \<open>Skipping\<close>

lemma skip_groups:
  assumes "over_buffer s" "view s = gs @ b # rest" "list_all (\<lambda>g. g AND 0x80 \<noteq> 0) gs" "b AND 0x80 = 0"
  shows "pb_skip_varint s = (Some (), advance (length gs + 1) s)"
  using assms
proof (induction gs arbitrary: s)
  case Nil
  then show ?case using length_view [OF Nil.prems(1)]
    by (subst pb_skip_varint.simps) (simp add: pb_read_buffer)
next
  case (Cons g gs)
  have "pb_read 1 s = (Some [g], advance 1 s)"
    using Cons.prems(1,2) length_view [OF Cons.prems(1)] by (simp add: pb_read_buffer)
  moreover have "pb_skip_varint (advance 1 s) = (Some (), advance (length gs + 1) (advance 1 s))"
    using Cons.prems by (intro Cons.IH) simp_all
  ultimately show ?case using Cons.prems(3) by (subst pb_skip_varint.simps) simp
qed

lemma varint_bytes_groups:
  "\<exists>gs b. varint_bytes v = gs @ [b] \<and> list_all (\<lambda>g. g AND 0x80 \<noteq> 0) gs \<and> b AND 0x80 = 0"
proof (induction "length (varint_bytes v)" arbitrary: v rule: less_induct)
  case less
  show ?case
  proof (cases "v \<le> 0x7F")
    case True
    then have "varint_bytes v = [ucast v]" by (subst varint_bytes_rec) simp
    moreover have "(ucast v :: u8) AND 0x80 = 0" using True by (simp add: and_80_u8 word_nat word_le_nat_alt)
    ultimately show ?thesis by (intro exI [of _ "[]"] exI [of _ "ucast v"]) simp
  next
    case False
    let ?g = "ucast (v AND 0x7F) OR 0x80 :: u8"
    have v: "varint_bytes v = ?g # varint_bytes (drop_bit 7 v)" using False by (subst varint_bytes_rec) simp
    then obtain gs b where "varint_bytes (drop_bit 7 v) = gs @ [b]" "list_all (\<lambda>g. g AND 0x80 \<noteq> 0) gs" "b AND 0x80 = 0"
      using less [of "drop_bit 7 v"] by auto
    with v show ?thesis by (intro exI [of _ "?g # gs"] exI [of _ b]) simp
  qed
qed

text \<open>
  The encoded values of a wire type, behind the tag: a varint of any number of bytes, eight or four
  bytes, and a string behind its length as a varint of the fewest bytes.
\<close>

inductive wire_value :: "u32 \<Rightarrow> bytes \<Rightarrow> bool" where
  "list_all (\<lambda>g. g AND 0x80 \<noteq> 0) gs \<Longrightarrow> b AND 0x80 = 0 \<Longrightarrow> wire_value PB_WT_VARINT (gs @ [b])"
| "length bs = 8 \<Longrightarrow> wire_value PB_WT_64BIT bs"
| "length bs = unat (n :: u32) \<Longrightarrow> wire_value PB_WT_STRING (varint_bytes (ucast n) @ bs)"
| "length bs = 4 \<Longrightarrow> wire_value PB_WT_32BIT bs"

text \<open>What the encoder writes for a varint is such a value.\<close>

lemma wire_value_varint: "wire_value PB_WT_VARINT (varint_bytes v)"
  using varint_bytes_groups [of v] wire_value.intros(1) by metis

lemma skip_field_reads:
  assumes "wire_value wt bs" "over_buffer s" "view s = bs @ rest"
  shows "pb_skip_field wt s = (Some (), advance (length bs) s)"
  using assms(1)
proof cases
  case (1 gs b)
  then show ?thesis using skip_groups [OF assms(2), of gs b rest] assms(3) by (simp add: pb_skip_field_def)
next
  case 2
  then show ?thesis using assms(2,3) length_view [OF assms(2)]
    by (simp add: pb_skip_field_def pb_wt pb_read_null_buffer pb_read_buffer)
next
  case (3 data n)
  then have v: "view s = varint_bytes (ucast n) @ data @ rest" using assms(3) by simp
  have "unat n \<le> is_bytes_left s - length (varint_bytes (ucast n))"
    using v 3 length_view [OF assms(2)] by simp
  with 3 v show ?thesis using assms(2)
    by (simp add: pb_skip_field_def pb_wt pb_skip_string_def varint32_reads [OF assms(2) v] pb_read_null_buffer pb_read_buffer)
next
  case 4
  then show ?thesis using assms(2,3) length_view [OF assms(2)]
    by (simp add: pb_skip_field_def pb_wt pb_read_null_buffer pb_read_buffer)
qed

subsection \<open>Values that are too long\<close>

lemma varint_rejects_long:
  "fst (on_buffer pb_decode_varint ([0x80, 0x80, 0x80, 0x80, 0x80, 0x80, 0x80, 0x80, 0x80, 0x80] @ rest)) = None"
  by (simp add: on_buffer_def pb_decode_varint_def varint_loop.simps readbyte_buffer over_buffer_def view_def
      pb_istream_from_buffer_def is_error_def)

lemma varint_33_bits: "on_buffer pb_decode_varint [0x80, 0x80, 0x80, 0x80, 0x90, 0x00] = (Some (2 ^ 32), [])"
  by (simp add: on_buffer_def pb_decode_varint_def varint_loop.simps readbyte_buffer over_buffer_def view_def
      pb_istream_from_buffer_def)

lemma varint32_33_bits: "on_buffer pb_decode_varint32 [0x80, 0x80, 0x80, 0x80, 0x90, 0x00] = (Some 0, [])"
  by code_simp

lemma varint32_38_bytes: "on_buffer pb_decode_varint32 (replicate 37 0x80 @ [0x01]) = (Some 8, [])"
  by code_simp

text \<open>
  \<open>pb_decode_varint32_eof\<close> does not bound the number of bytes: the bit position, of eight bits, wraps
  around, so that the 38th byte is added into the result at bit 3; \<open>pb_decode_varint\<close> rejects these bytes.
\<close>

lemma varint32_position_wraps:
  "on_buffer pb_decode_varint32 (replicate 37 0x80 @ [0x01]) = (Some 8, []) \<and>
   fst (on_buffer pb_decode_varint (replicate 37 0x80 @ [0x01])) = None"
proof -
  have "replicate 37 (0x80 :: u8) = [0x80, 0x80, 0x80, 0x80, 0x80, 0x80, 0x80, 0x80, 0x80, 0x80] @ replicate 27 0x80"
    by code_simp
  then show ?thesis using varint_rejects_long [of "replicate 27 0x80 @ [1]"] varint32_38_bytes by simp
qed

end
