(* ===== verification/Pb_Readers.thy ===== *)
theory Pb_Readers
  imports Pb_Codec
begin

text \<open>
  What the readers of the wire format do to their stream: \<open>bytes_left\<close> never grows, and a successful
  call on a buffer leaves the stream further on in the same buffer.
\<close>

subsection \<open>Streams before and after a call\<close>

definition eats :: "bool \<Rightarrow> istream \<Rightarrow> istream \<Rightarrow> bool" where
  "eats ok s s' \<longleftrightarrow> is_bytes_left s' \<le> is_bytes_left s \<and>
     (ok \<and> over_buffer s \<longrightarrow> (\<exists>k e. k \<le> is_bytes_left s \<and> s' = (advance k s)\<lparr>is_errmsg := e\<rparr>))"

lemma eats_left: "eats ok s s' \<Longrightarrow> is_bytes_left s' \<le> is_bytes_left s"
  by (simp add: eats_def)

lemma over_buffer_errmsg [simp]: "over_buffer (s\<lparr>is_errmsg := e\<rparr>) = over_buffer s"
  by (simp add: over_buffer_def)

lemma eats_refl [intro, simp]: "eats ok s s"
  unfolding eats_def by (intro conjI impI exI [of _ 0] exI [of _ "is_errmsg s"]) simp_all

lemma eats_weaken: "eats ok s s' \<Longrightarrow> eats False s s'"
  by (simp add: eats_def)

lemma eats_any: "eats True s s' \<Longrightarrow> eats ok s s'"
  by (simp add: eats_def)

lemma eats_over_buffer: "eats True s s' \<Longrightarrow> over_buffer s \<Longrightarrow> over_buffer s'"
  by (auto simp: eats_def)

lemma eats_trans:
  assumes "eats True s s'" "eats ok s' s''"
  shows "eats ok s s''"
  unfolding eats_def
proof (intro conjI impI)
  show "is_bytes_left s'' \<le> is_bytes_left s" using eats_left [OF assms(1)] eats_left [OF assms(2)] by simp
  assume o: "ok \<and> over_buffer s"
  then obtain k e where k: "k \<le> is_bytes_left s" "s' = (advance k s)\<lparr>is_errmsg := e\<rparr>"
    using assms(1) by (auto simp: eats_def)
  then have "over_buffer s'" using o by simp
  then obtain k' e' where k': "k' \<le> is_bytes_left s'" "s'' = (advance k' s')\<lparr>is_errmsg := e'\<rparr>"
    using assms(2) o by (auto simp: eats_def)
  then have "s'' = (advance (k + k') s)\<lparr>is_errmsg := e'\<rparr>" using k by (simp add: advance_def add.commute)
  then show "\<exists>k e. k \<le> is_bytes_left s \<and> s'' = (advance k s)\<lparr>is_errmsg := e\<rparr>"
    using k k' by (intro exI [of _ "k + k'"] exI [of _ e']) simp
qed

lemma eats_errmsg_right: "eats ok s s' \<Longrightarrow> eats ok s (s'\<lparr>is_errmsg := e\<rparr>)"
  unfolding eats_def by (elim conjE exE, intro conjI impI) (simp, fastforce)

lemma eats_errmsg_left: "eats ok s s' \<Longrightarrow> eats ok (s\<lparr>is_errmsg := e\<rparr>) s'"
  unfolding eats_def by (auto simp: advance_def)

lemma eats_error [simp]: "eats False s (set_error msg s)"
  by (simp add: eats_def set_error_def)

lemma eats_error_after: "eats ok s s' \<Longrightarrow> eats False s (set_error msg s')"
  by (simp add: eats_def set_error_def)

lemma eats_advance: "over_buffer s \<Longrightarrow> k \<le> is_bytes_left s \<Longrightarrow> eats ok s (advance k s)"
  unfolding eats_def by (intro conjI impI exI [of _ k] exI [of _ "is_errmsg s"]) simp_all

definition reader :: "(istream, 'a) cfun \<Rightarrow> bool" where
  "reader f \<longleftrightarrow> (\<forall>s r s'. f s = (r, s') \<longrightarrow> eats (r \<noteq> None) s s')"

definition strict_reader :: "(istream, 'a) cfun \<Rightarrow> bool" where
  "strict_reader f \<longleftrightarrow> reader f \<and> (\<forall>s v s'. f s = (Some v, s') \<longrightarrow> is_bytes_left s' < is_bytes_left s)"

lemma readerD: "reader f \<Longrightarrow> f s = (r, s') \<Longrightarrow> eats (r \<noteq> None) s s'"
  by (simp add: reader_def)

lemma reader_Some: "reader f \<Longrightarrow> f s = (Some v, s') \<Longrightarrow> eats True s s'"
  by (drule (1) readerD) simp

lemma reader_None: "reader f \<Longrightarrow> f s = (None, s') \<Longrightarrow> eats False s s'"
  by (drule (1) readerD) simp

lemma strict_readerD: "strict_reader f \<Longrightarrow> reader f"
  and strict_reader_less: "strict_reader f \<Longrightarrow> f s = (Some v, s') \<Longrightarrow> is_bytes_left s' < is_bytes_left s"
  by (simp_all add: strict_reader_def)

text \<open>\<open>if (!f(stream)) return false;\<close> and then something else.\<close>

lemma reader_bind:
  assumes "reader f" "\<And>v. reader (g v)"
  shows "reader (\<lambda>s. case f s of (None, s) \<Rightarrow> (None, s) | (Some v, s) \<Rightarrow> g v s)"
  unfolding reader_def
proof (intro allI impI)
  fix s r s' assume a: "(case f s of (None, s) \<Rightarrow> (None, s) | (Some v, s) \<Rightarrow> g v s) = (r, s')"
  show "eats (r \<noteq> None) s s'"
  proof (cases "f s")
    case (Pair r1 s1)
    with a show ?thesis using readerD [OF assms(1) Pair] eats_trans [of s s1] readerD [OF assms(2)]
      by (cases r1) (auto simp del: not_None_eq)
  qed
qed

lemma strict_reader_bind:
  assumes "strict_reader f" "\<And>v. reader (g v)"
  shows "strict_reader (\<lambda>s. case f s of (None, s) \<Rightarrow> (None, s) | (Some v, s) \<Rightarrow> g v s)"
  unfolding strict_reader_def
proof (intro conjI allI impI)
  show "reader (\<lambda>s. case f s of (None, s) \<Rightarrow> (None, s) | (Some v, s) \<Rightarrow> g v s)"
    by (rule reader_bind [OF strict_readerD [OF assms(1)] assms(2)])
  fix s w s' assume "(case f s of (None, s) \<Rightarrow> (None, s) | (Some v, s) \<Rightarrow> g v s) = (Some w, s')"
  then obtain v s1 where "f s = (Some v, s1)" "g v s1 = (Some w, s')" by (auto split: prod.splits option.splits)
  then show "is_bytes_left s' < is_bytes_left s"
    using strict_reader_less [OF assms(1)] eats_left [OF readerD [OF assms(2)]] order.strict_trans1 by blast
qed

lemma reader_return [simp]: "reader (\<lambda>s. (v, s))"
  by (simp add: reader_def)

lemma reader_error [simp]: "reader (is_error msg)"
  by (simp add: reader_def is_error_def)

lemma reader_if: "reader f \<Longrightarrow> reader g \<Longrightarrow> reader (\<lambda>s. if b then f s else g s)"
  by (cases b) simp_all

subsection \<open>Readers of the wire format\<close>

lemma read_callback_None:
  "read_callback n s = (None, s') \<Longrightarrow> is_bytes_left s' \<le> is_bytes_left s"
  by (auto simp: read_callback_def is_error_def set_error_def Let_def split: prod.splits io.splits)

lemma read_callback_eats: "n \<le> is_bytes_left s \<Longrightarrow> read_callback n s = (r, s') \<Longrightarrow> eats (r \<noteq> None) s s'"
proof (cases "over_buffer s")
  case True
  then show "n \<le> is_bytes_left s \<Longrightarrow> read_callback n s = (r, s') \<Longrightarrow> eats (r \<noteq> None) s s'"
    by (auto simp: read_callback_buffer intro: eats_advance)
next
  case False
  then show "read_callback n s = (r, s') \<Longrightarrow> eats (r \<noteq> None) s s'"
    by (cases r) (auto simp: eats_def dest: read_callback_None read_callback_left)
qed

lemma reader_read [simp]: "reader (pb_read n)"
  unfolding reader_def pb_read_def
  by (auto simp: is_error_def simp del: not_None_eq intro: read_callback_eats [OF leI] split: if_splits)

lemma reader_skip_chunks: "reader (skip_chunks n)"
proof (induction n rule: less_induct)
  case (less n)
  have "skip_chunks n = (if n > 16 then \<lambda>s. case pb_read 16 s of (None, s) \<Rightarrow> (None, s) | (Some _, s) \<Rightarrow> skip_chunks (n - 16) s
      else pb_read n)"
    by (rule ext) (simp add: skip_chunks.simps [of n])
  then show ?case using reader_bind [of "pb_read 16" "\<lambda>_. skip_chunks (n - 16)"] less [of "n - 16"] by simp
qed

lemma reader_read_null [simp]: "reader (pb_read_null n)"
  using readerD [OF reader_skip_chunks] readerD [OF reader_read]
  unfolding reader_def pb_read_null_def
  by (auto simp del: not_None_eq split: if_splits icallback.splits)

lemma strict_reader_readbyte: "strict_reader pb_readbyte"
proof -
  have "eats (r \<noteq> None) s s'" if "pb_readbyte s = (r, s')" for s r s'
  proof (cases "is_bytes_left s = 0")
    case True
    then show ?thesis using that by (auto simp: pb_readbyte_def is_error_def)
  next
    case False
    obtain r1 s1 where 1: "read_callback 1 s = (r1, s1)" by (cases "read_callback 1 s")
    then have "eats (r1 \<noteq> None) s s1" using False by (intro read_callback_eats) simp_all
    then show ?thesis using that False 1 by (auto simp: pb_readbyte_def simp del: not_None_eq split: option.splits)
  qed
  then show ?thesis using readbyte_left by (fastforce simp: strict_reader_def reader_def)
qed

lemma strict_reader_varint32_loop: "strict_reader (varint32_loop bitpos r)"
proof -
  have "eats (v \<noteq> None) s s' \<and> (v \<noteq> None \<longrightarrow> is_bytes_left s' < is_bytes_left s)" if "varint32_loop bitpos r s = (v, s')" for s v s'
    using that
  proof (induction bitpos r s rule: varint32_loop.induct)
    case (1 bitpos r s)
    obtain r1 s1 where s1: "pb_readbyte s = (r1, s1)" by (cases "pb_readbyte s")
    show ?case
    proof (cases r1)
      case None
      then show ?thesis using 1(2) s1 readerD [OF strict_readerD [OF strict_reader_readbyte] s1]
        by (subst (asm) varint32_loop.simps) auto
    next
      case (Some b)
      have b: "eats True s s1" "is_bytes_left s1 < is_bytes_left s"
        using strict_reader_readbyte s1 Some by (auto simp: strict_reader_def dest: reader_Some)
      show ?thesis
      proof (cases "varint32_step bitpos r b")
        case None
        then show ?thesis using 1(2) s1 Some b eats_error_after [OF b(1)]
          by (subst (asm) varint32_loop.simps) (auto simp: is_error_def)
      next
        case r2: (Some r2)
        show ?thesis
        proof (cases "b AND 0x80 \<noteq> 0")
          case True
          then have "varint32_loop (bitpos + 7) r2 s1 = (v, s')"
            using 1(2) s1 Some r2 by (subst (asm) varint32_loop.simps) simp
          from 1(1) [OF s1 [symmetric] _ r2 True this] Some b eats_trans [OF b(1)] show ?thesis by auto
        next
          case False
          then show ?thesis using 1(2) s1 Some b eats_error_after [OF b(1)]
            by (subst (asm) varint32_loop.simps) (auto simp: is_error_def r2 split: if_splits)
        qed
      qed
    qed
  qed
  then show ?thesis unfolding strict_reader_def reader_def by fastforce
qed

lemma strict_reader_varint_loop: "strict_reader (varint_loop bitpos r)"
proof -
  have "eats (v \<noteq> None) s s' \<and> (v \<noteq> None \<longrightarrow> is_bytes_left s' < is_bytes_left s)" if "varint_loop bitpos r s = (v, s')" for s v s'
    using that
  proof (induction bitpos r s rule: varint_loop.induct)
    case (1 bitpos r s)
    obtain r1 s1 where s1: "pb_readbyte s = (r1, s1)" by (cases "pb_readbyte s")
    show ?case
    proof (cases "bitpos \<ge> 64 \<or> r1 = None")
      case True
      then show ?thesis using 1(2) s1 readerD [OF strict_readerD [OF strict_reader_readbyte] s1]
        by (subst (asm) varint_loop.simps) (auto simp: is_error_def split: if_splits)
    next
      case False
      then obtain b where b: "r1 = Some b" "\<not> bitpos \<ge> 64" by auto
      have e: "eats True s s1" "is_bytes_left s1 < is_bytes_left s"
        using strict_reader_readbyte s1 b(1) by (auto simp: strict_reader_def dest: reader_Some)
      show ?thesis
      proof (cases "b AND 0x80 \<noteq> 0")
        case True
        then have "varint_loop (bitpos + 7) (r OR push_bit (unat bitpos) (ucast (b AND 0x7F))) s1 = (v, s')"
          using 1(2) s1 b by (subst (asm) varint_loop.simps) simp
        from 1(1) [OF b(2) s1 [symmetric] b(1) True this] e eats_trans [OF e(1)] show ?thesis by auto
      next
        case False
        then show ?thesis using 1(2) s1 b e by (subst (asm) varint_loop.simps) auto
      qed
    qed
  qed
  then show ?thesis unfolding strict_reader_def reader_def by fastforce
qed

lemma strict_reader_skip_varint: "strict_reader pb_skip_varint"
proof -
  have "eats (v \<noteq> None) s s' \<and> (v \<noteq> None \<longrightarrow> is_bytes_left s' < is_bytes_left s)" if "pb_skip_varint s = (v, s')" for s v s'
    using that
  proof (induction s rule: pb_skip_varint.induct)
    case (1 s)
    obtain r1 s1 where s1: "pb_read 1 s = (r1, s1)" by (cases "pb_read 1 s")
    show ?case
    proof (cases r1)
      case None
      then show ?thesis using 1(2) s1 readerD [OF reader_read s1] by (subst (asm) pb_skip_varint.simps) auto
    next
      case (Some bs)
      have e: "eats True s s1" "is_bytes_left s1 < is_bytes_left s"
        using s1 Some reader_Some [OF reader_read] read1_left [of s bs s1] by auto
      show ?thesis
      proof (cases "hd bs AND 0x80 \<noteq> 0")
        case True
        then have "pb_skip_varint s1 = (v, s')" using 1(2) s1 Some by (subst (asm) pb_skip_varint.simps) simp
        from 1(1) [OF s1 [symmetric] Some True this] e eats_trans [OF e(1)] show ?thesis by auto
      next
        case False
        then show ?thesis using 1(2) s1 Some e by (subst (asm) pb_skip_varint.simps) auto
      qed
    qed
  qed
  then show ?thesis unfolding strict_reader_def reader_def by fastforce
qed

lemma varint32_bind:
  "pb_decode_varint32 = (\<lambda>s. case pb_readbyte s of (None, s) \<Rightarrow> (None, s) | (Some byte, s) \<Rightarrow>
     (if byte AND 0x80 = 0 then (\<lambda>s. (Some (ucast byte), s)) else varint32_loop 7 (ucast (byte AND 0x7F))) s)"
  by (rule ext) (simp add: pb_decode_varint32_def pb_decode_varint32_eof_def case_prod_beta split: option.split)

lemma strict_reader_varint32: "strict_reader pb_decode_varint32"
  unfolding varint32_bind
  by (rule strict_reader_bind [OF strict_reader_readbyte]) (simp add: strict_readerD [OF strict_reader_varint32_loop])

lemma strict_reader_varint: "strict_reader pb_decode_varint"
  unfolding pb_decode_varint_def by (rule strict_reader_varint_loop)

lemma strict_reader_svarint: "strict_reader pb_decode_svarint"
  unfolding pb_decode_svarint_def [abs_def] by (rule strict_reader_bind [OF strict_reader_varint]) simp

lemma strict_reader_tag: "strict_reader read_tag"
proof -
  have "read_tag = (\<lambda>s. case pb_decode_varint32 s of (None, s) \<Rightarrow> (None, s) | (Some temp, s) \<Rightarrow>
      (if temp = 0 then None else Some (temp AND 7, drop_bit 3 temp), s))"
    by (rule ext) (auto simp: read_tag_def pb_decode_tag_def pb_decode_varint32_def split: prod.split option.split)
  then show ?thesis
    using strict_reader_bind [OF strict_reader_varint32 reader_return, of "\<lambda>temp. if temp = 0 then None else Some (temp AND 7, drop_bit 3 temp)"]
    by simp
qed

lemma strict_reader_read: "0 < n \<Longrightarrow> strict_reader (pb_read n)"
  unfolding strict_reader_def
  by (auto simp: pb_read_def is_error_def dest: read_callback_left split: if_splits)

lemma strict_reader_fixed: "strict_reader pb_decode_fixed32" "strict_reader pb_decode_fixed64"
  unfolding pb_decode_fixed32_def [abs_def] pb_decode_fixed64_def [abs_def]
  by (rule strict_reader_bind [OF strict_reader_read]; simp)+

lemma reader_map: "reader f \<Longrightarrow> reader (\<lambda>s. case f s of (r, s) \<Rightarrow> (map_option g r, s))"
  by (auto simp: reader_def split: prod.splits)

lemma reader_skip_field [simp]: "reader (pb_skip_field wt)"
proof -
  have "reader pb_skip_string" unfolding pb_skip_string_def [abs_def]
    by (intro reader_bind strict_readerD [OF strict_reader_varint32] reader_map reader_read_null)
  then show ?thesis unfolding pb_skip_field_def [abs_def] Let_def
    by (intro reader_if reader_error strict_readerD [OF strict_reader_skip_varint] reader_map [OF reader_read_null])
qed

end
