(* ===== verification/Pb_Decode_Safe.thy ===== *)
theory Pb_Decode_Safe
  imports Pb_Decode Pb_Readers
begin

text \<open>
  What the decoder does to its stream: \<open>bytes_left\<close> never grows, and a successful call on a buffer
  leaves the stream further on in the same buffer, also behind the substreams of nested messages and
  packed arrays.
\<close>

subsection \<open>Results of the field decoders\<close>

definition within :: "istream \<Rightarrow> bool \<times> istream \<times> 'a \<Rightarrow> bool" where
  "within s r \<longleftrightarrow> eats (fst r) s (fst (snd r))"

definition all_within :: "istream \<Rightarrow> (bool \<times> istream \<times> 'a) option \<Rightarrow> bool" where
  "all_within s r \<longleftrightarrow> (\<forall>x. r = Some x \<longrightarrow> within s x)"

lemma within_simps [simp]:
  "within s (ok, s, h)" "within s (False, set_error msg s, h)" "eats ok s s' \<Longrightarrow> within s (ok, s', h)"
  by (simp_all add: within_def)

lemma all_within_simps [simp]:
  "all_within s None" "all_within s (Some r) \<longleftrightarrow> within s r" "all_within s (dec_error msg s h)"
  by (simp_all add: all_within_def dec_error_def)

lemma within_if [intro]: "(b \<Longrightarrow> within s x) \<Longrightarrow> (\<not> b \<Longrightarrow> within s y) \<Longrightarrow> within s (if b then x else y)"
  by simp

lemma all_within_if [intro]: "(b \<Longrightarrow> all_within s x) \<Longrightarrow> (\<not> b \<Longrightarrow> all_within s y) \<Longrightarrow> all_within s (if b then x else y)"
  by simp

lemma within_trans: "eats True s s1 \<Longrightarrow> within s1 r \<Longrightarrow> within s r"
  unfolding within_def by (rule eats_trans)

lemma all_within_trans: "eats True s s1 \<Longrightarrow> all_within s1 r \<Longrightarrow> all_within s r"
  by (auto simp: all_within_def intro: within_trans)

lemma within_read:
  assumes "reader f" "\<And>v s1. within s1 (g v s1)"
  shows "within s (case f s of (None, s) \<Rightarrow> (False, s, h) | (Some v, s) \<Rightarrow> g v s)"
proof (cases "f s")
  case (Pair r s1)
  then show ?thesis using reader_None [OF assms(1)] reader_Some [OF assms(1)] within_trans [OF _ assms(2)]
    by (cases r) auto
qed

lemma within_let:
  assumes "within s r" "\<And>s1 h1. within s1 (g s1 h1)"
  shows "within s (let (ok, s1, h1) = r in if \<not> ok then (False, s1, h1) else g s1 h1)"
proof (cases r)
  case (fields ok s1 h1)
  then show ?thesis using assms(1) within_trans [OF _ assms(2)] by (cases ok) (auto simp: within_def)
qed

lemma within_allocate [simp]: "within s (allocate_field env p data_size array_size s h)"
  by (simp add: allocate_field_def Let_def case_prod_beta)

lemma within_read_to [simp]: "within s (pb_read_to p n s h)"
  unfolding pb_read_to_def by (rule within_read) simp_all

lemma within_store [simp]: "within s (store_clamped c data_size v dest s h)"
  by (simp add: store_clamped_def Let_def split: option.split)

lemma within_string [simp]: "within s (read_string_to dest n s h)"
  using within_read_to [of s dest "unat n" h] by (auto simp: read_string_to_def within_def Let_def case_prod_beta)

lemmas wire_readers = strict_reader_varint32 strict_reader_varint strict_reader_svarint strict_reader_fixed

lemma within_decoders:
  "within s (pb_dec_bool f dest s h)" "within s (pb_dec_varint f dest s h)" "within s (pb_dec_uvarint f dest s h)"
  "within s (pb_dec_svarint f dest s h)" "within s (pb_dec_fixed32 f dest s h)" "within s (pb_dec_fixed64 f dest s h)"
  "within s (pb_dec_bytes env f dest s h)" "within s (pb_dec_string env f dest s h)"
  "within s (pb_dec_fixed_length_bytes f dest s h)"
  unfolding pb_dec_bool_def pb_dec_varint_def pb_dec_uvarint_def pb_dec_svarint_def pb_dec_fixed32_def pb_dec_fixed64_def
    pb_dec_bytes_def pb_dec_string_def pb_dec_fixed_length_bytes_def Let_def [of "ucast _ + _"] Let_def [of "ucast _"]
  by (rule within_read [OF wire_readers(1) [THEN strict_readerD]] within_read [OF wire_readers(2) [THEN strict_readerD]]
      within_read [OF wire_readers(3) [THEN strict_readerD]] within_read [OF wire_readers(4) [THEN strict_readerD]]
      within_read [OF wire_readers(5) [THEN strict_readerD]]; (intro within_if within_let)?; simp add: Let_def)+

subsection \<open>Substreams\<close>

lemma make_substream_cases:
  assumes "pb_make_string_substream s = (r, s1)"
  obtains (none) "r = None" "eats False s s1"
  | (some) t n where "eats True s t" "is_bytes_left t < is_bytes_left s" "n \<le> is_bytes_left t"
      "r = Some (t\<lparr>is_bytes_left := n\<rparr>)" "s1 = t\<lparr>is_bytes_left := is_bytes_left t - n\<rparr>"
proof -
  obtain v t where t: "pb_decode_varint32 s = (v, t)" by (cases "pb_decode_varint32 s")
  show ?thesis
  proof (cases v)
    case None
    then show ?thesis using assms t none reader_None [OF strict_readerD [OF strict_reader_varint32]]
      by (auto simp: pb_make_string_substream_def)
  next
    case (Some n)
    have e: "eats True s t" "is_bytes_left t < is_bytes_left s"
      using t Some strict_reader_varint32 by (auto simp: strict_reader_def dest: reader_Some)
    show ?thesis
    proof (cases "is_bytes_left t < unat n")
      case True
      then show ?thesis using assms t Some none eats_error_after [OF e(1)]
        by (auto simp: pb_make_string_substream_def is_error_def)
    next
      case False
      then show ?thesis using assms t Some e by (intro some [of t "unat n"]) (auto simp: pb_make_string_substream_def)
    qed
  qed
qed

lemma close_left [simp]: "is_bytes_left (fst (snd (close_with s status sub h))) = is_bytes_left s"
  by (simp add: close_with_def pb_close_string_substream_def Let_def case_prod_beta)

lemma close_success:
  assumes "over_buffer t" "n \<le> is_bytes_left t" "eats True (t\<lparr>is_bytes_left := n\<rparr>) sub"
  shows "\<exists>e. snd (pb_close_string_substream (t\<lparr>is_bytes_left := is_bytes_left t - n\<rparr>) sub) = (advance n t)\<lparr>is_errmsg := e\<rparr>"
proof -
  have "over_buffer (t\<lparr>is_bytes_left := n\<rparr>)" using assms(1,2) by (auto simp: over_buffer_def)
  then obtain k e where k: "k \<le> n" "sub = (advance k (t\<lparr>is_bytes_left := n\<rparr>))\<lparr>is_errmsg := e\<rparr>" "over_buffer sub"
    using assms(3) eats_over_buffer [OF assms(3)] by (auto simp: eats_def)
  then have "pb_read_null (is_bytes_left sub) sub = (Some (view sub), advance (n - k) sub)" if "is_bytes_left sub \<noteq> 0"
    using that length_view [of sub] by (simp add: pb_read_null_buffer pb_read_buffer)
  then show ?thesis using k by (intro exI [of _ e], cases "k = n") (auto simp: pb_close_string_substream_def advance_def)
qed

lemma within_close:
  assumes "eats True s t" "n \<le> is_bytes_left t" "within (t\<lparr>is_bytes_left := n\<rparr>) (status, sub, h)"
  shows "within s (close_with (t\<lparr>is_bytes_left := is_bytes_left t - n\<rparr>) status sub h)"
proof (rule within_trans [OF assms(1)])
  let ?s1 = "t\<lparr>is_bytes_left := is_bytes_left t - n\<rparr>"
  obtain ok s2 where c: "pb_close_string_substream ?s1 sub = (ok, s2)" by (cases "pb_close_string_substream ?s1 sub")
  then have l: "is_bytes_left s2 \<le> is_bytes_left t" using close_left [of ?s1 status sub h] by (simp add: close_with_def split: if_splits)
  have "eats (ok \<and> status) t s2"
  proof (cases "ok \<and> status \<and> over_buffer t")
    case True
    then obtain e where "s2 = (advance n t)\<lparr>is_errmsg := e\<rparr>" using close_success [of t n sub] assms(2,3) c by (auto simp: within_def)
    then show ?thesis using l assms(2) unfolding eats_def by blast
  next
    case False
    then show ?thesis using l by (auto simp: eats_def)
  qed
  then show "within t (close_with ?s1 status sub h)" by (cases ok) (simp_all add: close_with_def c within_def)
qed

text \<open>A decoder that stays in its stream stays in a substream, and the parent takes at least the length.\<close>

lemma within_substream:
  assumes "\<And>sub x. dec sub h = Some x \<Longrightarrow> within sub x"
  shows "all_within s (on_substream dec s h)"
proof (cases "pb_make_string_substream s")
  case (Pair r s1)
  then show ?thesis
  proof (cases rule: make_substream_cases)
    case none
    then show ?thesis using Pair by (simp add: on_substream_def)
  next
    case (some t n)
    then show ?thesis using Pair within_close [OF some(1,3) assms]
      by (auto simp: on_substream_def all_within_def)
  qed
qed

lemma substream_takes:
  "on_substream dec s h = Some (True, s', h') \<Longrightarrow> is_bytes_left s' < is_bytes_left s"
proof (cases "pb_make_string_substream s")
  case (Pair r s1)
  assume a: "on_substream dec s h = Some (True, s', h')"
  from Pair show ?thesis
  proof (cases rule: make_substream_cases)
    case none
    then show ?thesis using Pair a by (simp add: on_substream_def)
  next
    case (some t n)
    then obtain status sub h1 where "close_with s1 status sub h1 = (True, s', h')"
      using Pair a by (auto simp: on_substream_def)
    from arg_cong [OF this, of "\<lambda>r. is_bytes_left (fst (snd r))"] some show ?thesis by simp
  qed
qed

subsection \<open>Fields\<close>

text \<open>The functions of the user stay in the stream that they are given.\<close>

definition well_behaved :: "dec_env \<Rightarrow> bool" where
  "well_behaved env \<longleftrightarrow> (\<forall>fn f arg s h. within s (de_decode env fn f arg s h)) \<and>
     (\<forall>fn ext tag wire_type s h. within s (de_ext_decode env fn ext tag wire_type s h))"

definition confined :: "msg_decoder \<Rightarrow> bool" where
  "confined dec \<longleftrightarrow> (\<forall>fds dest s h. all_within s (dec fds dest s h))"

lemma confinedD: "confined dec \<Longrightarrow> all_within s (dec fds dest s h)"
  by (simp add: confined_def)

lemma confined_Some: "confined dec \<Longrightarrow> dec fds dest s h = Some x \<Longrightarrow> within s x"
  using confinedD [of dec s fds dest h] by simp

lemma confined_with:
  assumes "confined noinit"
  shows "confined (pb_decode_with n env noinit)"
  unfolding confined_def
proof (intro allI)
  fix fds dest s h
  have "within s (False, s', h')" if "within s (False, s', h1)" for s' h' and h1 :: heap
    using that by (simp add: within_def)
  then show "all_within s (pb_decode_with n env noinit fds dest s h)"
    using confined_Some [OF assms] unfolding pb_decode_with_def all_within_def
    by (fastforce split: option.splits if_splits)
qed

lemma within_submessage:
  assumes "confined noinit"
  shows "all_within s (pb_dec_submessage n env noinit f dest s h)"
proof (cases "pf_ptr f = 0")
  case True
  have "all_within s (case pb_make_string_substream s of (None, s) \<Rightarrow> Some (False, s, h)
      | (Some _, s) \<Rightarrow> dec_error ''invalid field descriptor'' s h)"
  proof (cases "pb_make_string_substream s")
    case (Pair r s1)
    then show ?thesis
    proof (cases rule: make_substream_cases)
      case (some t n)
      then have "is_bytes_left s1 \<le> is_bytes_left s" by simp
      then show ?thesis using Pair some by (simp add: dec_error_def within_def eats_def set_error_def)
    qed (simp add: Pair)
  qed
  then show ?thesis using True by (simp add: pb_dec_submessage_def)
next
  case False
  have "within sub x" if "(if b then pb_decode_with n env noinit (pf_ptr f) dest else noinit (pf_ptr f) dest) sub h = Some x" for b sub x
    using that confined_Some [OF assms] confined_Some [OF confined_with [OF assms]] by (auto split: if_splits)
  then show ?thesis using False unfolding pb_dec_submessage_def by (simp add: within_substream)
qed

lemma within_PB_DECODERS:
  "confined noinit \<Longrightarrow> all_within s (PB_DECODERS n env noinit ltype f dest s h)"
  unfolding PB_DECODERS_def by (simp add: within_decoders within_submessage)

text \<open>Every entry of the table takes a byte.\<close>

definition taking :: "(istream \<Rightarrow> heap \<Rightarrow> dec_result) \<Rightarrow> bool" where
  "taking dec \<longleftrightarrow> (\<forall>s h s' h'. dec s h = Some (True, s', h') \<longrightarrow> is_bytes_left s' < is_bytes_left s)"

lemma takingD: "taking dec \<Longrightarrow> dec s h = Some (True, s', h') \<Longrightarrow> is_bytes_left s' < is_bytes_left s"
  unfolding taking_def by blast

lemma taking_read:
  assumes "strict_reader f" "\<And>v s h. within s (g v s h)"
  shows "taking (\<lambda>s h. Some (case f s of (None, s) \<Rightarrow> (False, s, h) | (Some v, s) \<Rightarrow> g v s h))"
  unfolding taking_def
proof (intro allI impI)
  fix s h s' h' assume "Some (case f s of (None, s) \<Rightarrow> (False, s, h) | (Some v, s) \<Rightarrow> g v s h) = Some (True, s', h')"
  then obtain v s1 where "f s = (Some v, s1)" "g v s1 h = (True, s', h')" by (auto split: prod.splits option.splits)
  then show "is_bytes_left s' < is_bytes_left s"
    using strict_reader_less [OF assms(1)] eats_left [of True s1 s'] assms(2) [of s1 v h] by (fastforce simp: within_def)
qed

lemma taking_decoders:
  "taking (\<lambda>s h. Some (pb_dec_bool f dest s h))" "taking (\<lambda>s h. Some (pb_dec_varint f dest s h))"
  "taking (\<lambda>s h. Some (pb_dec_uvarint f dest s h))" "taking (\<lambda>s h. Some (pb_dec_svarint f dest s h))"
  "taking (\<lambda>s h. Some (pb_dec_fixed32 f dest s h))" "taking (\<lambda>s h. Some (pb_dec_fixed64 f dest s h))"
  unfolding pb_dec_bool_def pb_dec_varint_def pb_dec_uvarint_def pb_dec_svarint_def pb_dec_fixed32_def pb_dec_fixed64_def
  by (rule taking_read [OF wire_readers(1)] taking_read [OF wire_readers(2)] taking_read [OF wire_readers(3)]
      taking_read [OF wire_readers(4)] taking_read [OF wire_readers(5)]; simp add: Let_def)+

lemma taking_if: "taking f \<Longrightarrow> taking g \<Longrightarrow> taking (\<lambda>s h. if b then f s h else g s h)"
  by (cases b) simp_all

lemma taking_PB_DECODERS:
  "ltype \<le> PB_LTYPE_LAST_PACKABLE \<Longrightarrow> taking (PB_DECODERS n env noinit ltype f dest)"
proof -
  assume a: "ltype \<le> PB_LTYPE_LAST_PACKABLE"
  have "ltype \<noteq> PB_LTYPE_BYTES" "ltype \<noteq> PB_LTYPE_STRING" "ltype \<noteq> PB_LTYPE_SUBMESSAGE" "ltype \<noteq> PB_LTYPE_FIXED_LENGTH_BYTES"
    using a by (auto simp: pb_consts word_le_nat_alt)
  moreover have "taking (\<lambda>s h. None)" by (simp add: taking_def)
  ultimately show ?thesis unfolding PB_DECODERS_def [abs_def]
    by (simp only: if_False) (intro taking_if taking_decoders)
qed

lemma all_within_bind:
  assumes "all_within s r" "\<And>s1 h1. r = Some (True, s1, h1) \<Longrightarrow> all_within s1 (g s1 h1)"
  shows "all_within s (case r of None \<Rightarrow> None | Some (ok, s1, h1) \<Rightarrow> if \<not> ok then Some (False, s1, h1) else g s1 h1)"
proof (cases r)
  case (Some x)
  obtain ok s1 h1 where x: "x = (ok, s1, h1)" by (cases x)
  then show ?thesis using assms Some all_within_trans [of s s1 "g s1 h1"] by (cases ok) (auto simp: within_def)
qed simp

lemma within_static_packed:
  assumes "\<And>p s h. all_within s (func p s h)"
  shows "all_within s (static_packed k func it s h)"
proof (induction k arbitrary: s h)
  case (Suc k)
  show ?case unfolding static_packed.simps Let_def
    by (intro all_within_if all_within_bind assms Suc.IH) simp
qed simp

lemma within_packed_close:
  assumes "pb_make_string_substream s = (Some sub, s1)" "within sub (status, sub', h)"
  shows "within s (close_with s1 status sub' h)"
  using assms(1) by (cases rule: make_substream_cases) (use assms(2) within_close in auto)

lemma substream_left: "pb_make_string_substream s = (r, s1) \<Longrightarrow> eats False s s1"
  by (cases rule: make_substream_cases) (auto simp: eats_def)

lemma within_substream_error:
  "pb_make_string_substream s = (r, s1) \<Longrightarrow> all_within s (dec_error msg s1 h)"
  using substream_left eats_error_after by (fastforce simp: dec_error_def)

lemma within_static:
  assumes "confined noinit"
  shows "all_within s (decode_static_field n env noinit wire_type it s h)"
proof -
  define func where "func = PB_DECODERS n env noinit (PB_LTYPE (pf_type (it_field it))) (it_field it)"
  have func: "all_within s (func p s h)" for p s h unfolding func_def by (rule within_PB_DECODERS [OF assms])
  have packed: "all_within s (case pb_make_string_substream s of (None, s) \<Rightarrow> Some (False, s, h)
     | (Some sub, s) \<Rightarrow> (case static_packed (Suc (is_bytes_left sub)) func it sub h of None \<Rightarrow> None
         | Some (status, sub, h) \<Rightarrow> if is_bytes_left sub \<noteq> 0 then dec_error ''array overflow'' s h
             else Some (close_with s status sub h)))" (is "all_within s ?r")
  proof (cases "pb_make_string_substream s")
    case (Pair r s1)
    show ?thesis
    proof (cases r)
      case None
      then show ?thesis using substream_left [OF Pair] by (simp add: Pair)
    next
      case (Some sub)
      have "all_within sub (static_packed (Suc (is_bytes_left sub)) func it sub h)"
        by (rule within_static_packed) (rule func)
      with within_packed_close [OF Pair [unfolded Some]] within_substream_error [OF Pair] show ?thesis
        by (cases "static_packed (Suc (is_bytes_left sub)) func it sub h") (auto simp: Pair Some simp del: static_packed.simps)
    qed
  qed
  show ?thesis unfolding decode_static_field_def Let_def func_def [symmetric]
    by (intro all_within_if func packed) (auto simp: func split: option.split)
qed

lemma within_pointer_packed:
  assumes "\<And>p s h. all_within s (func p s h)"
  shows "pointer_packed k n env func it allocated s h = Some (too_many, status, s', h') \<Longrightarrow> eats status s s'"
proof (induction k arbitrary: allocated s h)
  case (Suc k)
  let ?f = "it_field it" and ?count = "ld32 (h_mem h) (it_pSize it)"
  define grow where "grow \<longleftrightarrow> ucast ?count + 1 > allocated"
  define al where "al = (if grow then grown_size (is_bytes_left s) (pf_data_size ?f) allocated else allocated)"
  obtain ok s1 h1 where a: "(if grow then allocate_field env (it_pData it) (ucast (pf_data_size ?f)) al s h
      else (True, s, h)) = (ok, s1, h1)" by (metis prod_cases3)
  then have e: "eats ok s s1"
    using within_allocate [of s env "it_pData it" "ucast (pf_data_size ?f)" al h] by (auto simp: within_def split: if_splits)
  have f: "eats ok' s2 s3" if "func p s2 h2 = Some (ok', s3, h3)" for p s2 h2 ok' s3 h3
    using assms [of s2 p h2] that by (simp add: within_def)
  define item where "item = item_addr (ld64 (h_mem h1) (it_pData it)) ?f (ld32 (h_mem h1) (it_pSize it))"
  have u: "(if is_bytes_left s = 0 then Some (False, True, s, h) else if ?count = PB_SIZE_MAX then Some (True, False, s, h)
      else if pf_data_size ?f = 0 then None else if \<not> ok \<or> item = 0 then Some (False, False, s1, h1)
      else case initialize_pointer_field n env item ?f h1 of None \<Rightarrow> None | Some h \<Rightarrow> (case func item s1 h of None \<Rightarrow> None
        | Some (ok, s, h) \<Rightarrow> if \<not> ok then Some (False, False, s, h)
            else pointer_packed k n env func it al s (poke32 (it_pSize it) (ld32 (h_mem h) (it_pSize it) + 1) h)))
    = Some (too_many, status, s', h')"
    using Suc.prems unfolding pointer_packed.simps Let_def grow_def [symmetric] al_def [symmetric] a prod.case item_def [symmetric] .
  show ?case
  proof (cases "is_bytes_left s = 0 \<or> ?count = PB_SIZE_MAX \<or> pf_data_size ?f = 0 \<or> \<not> ok \<or> item = 0")
    case True
    then show ?thesis using u eats_weaken [OF e] by (auto split: if_splits)
  next
    case False
    then obtain h2 ok3 s3 h3 where 3: "func item s1 h2 = Some (ok3, s3, h3)"
      and r: "(if \<not> ok3 then Some (False, False, s3, h3) else pointer_packed k n env func it al s3
          (poke32 (it_pSize it) (ld32 (h_mem h3) (it_pSize it) + 1) h3)) = Some (too_many, status, s', h')"
      using u by (auto split: option.splits)
    have "eats status s1 s'"
      using f [OF 3] r Suc.IH eats_trans [of s1 s3] by (cases ok3) auto
    then show ?thesis using e False by (auto intro: eats_trans)
  qed
qed simp

lemma within_alloc_then:
  assumes "\<And>s1 h1. all_within s1 (g s1 h1)"
  shows "all_within s (case allocate_field env p sz c s h of (ok, s1, h1) \<Rightarrow> if \<not> ok then Some (False, s1, h1) else g s1 h1)"
proof -
  obtain ok s1 h1 where "allocate_field env p sz c s h = (ok, s1, h1)" by (metis prod_cases3)
  then show ?thesis using within_allocate [of s env p sz c h] all_within_trans [OF _ assms]
    by (cases ok) (auto simp: within_def)
qed

lemma within_pointer_single:
  assumes "confined noinit"
  shows "all_within s (decode_pointer_single n env noinit it s h)"
proof -
  define func where "func = PB_DECODERS n env noinit (PB_LTYPE (pf_type (it_field it))) (it_field it)"
  have func: "all_within s (func p s h)" for p s h unfolding func_def by (rule within_PB_DECODERS [OF assms])
  show ?thesis unfolding decode_pointer_single_def Let_def func_def [symmetric]
    by (auto simp: func split: option.split intro!: within_alloc_then)
qed

lemma within_pointer:
  assumes "confined noinit"
  shows "all_within s (decode_pointer_field n env noinit wire_type it s h)"
proof -
  define func where "func = PB_DECODERS n env noinit (PB_LTYPE (pf_type (it_field it))) (it_field it)"
  have func: "all_within s (func p s h)" for p s h unfolding func_def by (rule within_PB_DECODERS [OF assms])
  have packed: "all_within s (case pb_make_string_substream s of (None, s) \<Rightarrow> Some (False, s, h)
     | (Some sub, s) \<Rightarrow> (case pointer_packed (Suc (is_bytes_left sub)) n env func it al sub h of None \<Rightarrow> None
         | Some (too_many, status, sub, h) \<Rightarrow>
             Some (close_with (if too_many then s\<lparr>is_errmsg := Some ''too many array entries''\<rparr> else s) status sub h)))" for al
  proof (cases "pb_make_string_substream s")
    case (Pair r s1)
    then show ?thesis
    proof (cases rule: make_substream_cases)
      case none
      then show ?thesis by (simp add: Pair)
    next
      case (some t m)
      let ?sub = "t\<lparr>is_bytes_left := m\<rparr>"
      have "within s (close_with (if too_many then s1\<lparr>is_errmsg := Some ''too many array entries''\<rparr> else s1) status sub' h')"
        if p: "pointer_packed (Suc (is_bytes_left ?sub)) n env func it al ?sub h = Some (too_many, status, sub', h')" for too_many status sub' h'
      proof -
        have e: "eats status ?sub sub'" by (rule within_pointer_packed [OF _ p]) (rule func)
        let ?msg = "Some ''too many array entries''"
        have c: "t\<lparr>is_errmsg := e, is_bytes_left := k\<rparr> = t\<lparr>is_bytes_left := k, is_errmsg := e\<rparr>" for e k by simp
        have "within s (close_with (s1\<lparr>is_errmsg := ?msg\<rparr>) status sub' h')"
          using within_close [of s "t\<lparr>is_errmsg := ?msg\<rparr>" m status sub' h', unfolded c] some(3)
            eats_errmsg_right [OF some(1)] eats_errmsg_left [OF e] by (simp add: some(5))
        then show ?thesis using within_close [OF some(1,3), of status sub' h'] e some(5) by simp
      qed
      then show ?thesis
        by (cases "pointer_packed (Suc (is_bytes_left ?sub)) n env func it al ?sub h")
          (auto simp: Pair some(4) simp del: pointer_packed.simps)
    qed
  qed
  show ?thesis unfolding decode_pointer_field_def Let_def func_def [symmetric]
    by (intro all_within_if packed within_pointer_single [OF assms] within_alloc_then)
      (auto simp: func split: option.split)
qed

lemma within_callback_loop:
  assumes "\<And>s h. within s (cb s h)"
  shows "all_within s (callback_loop k cb s h)"
proof (induction k arbitrary: s h)
  case (Suc k)
  obtain ok s1 h1 where "cb s h = (ok, s1, h1)" by (metis prod_cases3)
  then show ?case using assms [of s h] all_within_trans [OF _ Suc.IH] by (cases ok) (auto simp: within_def)
qed simp

lemma reader_raw_varint: "reader (raw_varint room)"
proof (induction room)
  case (Suc room)
  have "raw_varint (Suc room) = (\<lambda>s. case pb_read 1 s of (None, s) \<Rightarrow> (None, s) | (Some bs, s) \<Rightarrow>
      if hd bs AND 0x80 \<noteq> 0 then (case raw_varint room s of (r, s) \<Rightarrow> (map_option ((#) (hd bs)) r, s)) else (Some [hd bs], s))"
    by (rule ext) (subst raw_varint.simps, simp only: nat.distinct if_False diff_Suc_1)
  then show ?case by (simp only:) (intro reader_bind reader_if reader_map reader_read reader_return Suc)
qed (simp add: raw_varint.simps [of 0, abs_def])

lemma reader_raw_value: "reader (read_raw_value wire_type n)"
  unfolding read_raw_value_def [abs_def] by (intro reader_if reader_raw_varint reader_read reader_error)

lemma within_reader: "reader f \<Longrightarrow> f s = (r, s') \<Longrightarrow> within s (r \<noteq> None, s', h)"
  by (drule (1) readerD) simp

lemma within_callback:
  assumes "well_behaved env"
  shows "all_within s (decode_callback_field n env wire_type it s h)"
proof -
  define cb where "cb = de_decode env (ld64 (h_mem h) (it_pData it)) (it_field it) (it_pData it + 8)"
  have cb: "within s (cb s h)" for s h using assms by (simp add: cb_def well_behaved_def)
  have skip: "all_within s (case pb_skip_field wire_type s of (r, s) \<Rightarrow> Some (r \<noteq> None, s, h))"
    using within_reader [OF reader_skip_field] by (auto simp del: not_None_eq split: prod.split)
  have string: "all_within s (case pb_make_string_substream s of (None, s) \<Rightarrow> Some (False, s, h)
      | (Some sub, s) \<Rightarrow> (case callback_loop n cb sub h of None \<Rightarrow> None | Some (ok, sub, h) \<Rightarrow>
          if \<not> ok then dec_error ''callback failed'' s h else Some (close_with s True sub h)))"
  proof (cases "pb_make_string_substream s")
    case (Pair r s1)
    show ?thesis
    proof (cases r)
      case None
      then show ?thesis using substream_left [OF Pair] by (simp add: Pair)
    next
      case (Some sub)
      have "all_within sub (callback_loop n cb sub h)" by (rule within_callback_loop) (rule cb)
      with within_packed_close [OF Pair [unfolded Some], of True] within_substream_error [OF Pair] show ?thesis
        by (cases "callback_loop n cb sub h") (auto simp: Pair Some)
    qed
  qed
  have raw: "all_within s (case read_raw_value wire_type 10 s of (None, s) \<Rightarrow> Some (False, s, h)
      | (Some buffer, s) \<Rightarrow> let (ok, _, h) = cb (pb_istream_from_buffer buffer (length buffer)) h in Some (ok, s, h))"
  proof (cases "read_raw_value wire_type 10 s")
    case (Pair r s1)
    then show ?thesis using readerD [OF reader_raw_value Pair]
      by (cases r) (auto simp: case_prod_beta Let_def within_def intro: eats_any)
  qed
  show ?thesis unfolding decode_callback_field_def Let_def cb_def [symmetric]
    by (intro all_within_if skip string raw [unfolded Let_def])
qed

lemma release_union_eats:
  "pb_release_union_field n env it s h = Some (ok, it', s', h') \<Longrightarrow> eats ok s s'"
  by (auto simp: pb_release_union_field_def Let_def case_prod_beta split: if_splits option.splits)

text \<open>\<open>decode_field\<close> and what calls it return an iterator or the local variables, too.\<close>

lemma decode_field_eats:
  assumes "well_behaved env" "confined noinit" "decode_field n env noinit wire_type it s h = Some (ok, it', s', h')"
  shows "eats ok s s'"
proof -
  obtain ok1 it1 s1 h1 where u: "(if PB_HTYPE (pf_type (it_field it)) = PB_HTYPE_ONEOF then pb_release_union_field n env it s h
         else Some (True, it, s, h)) = Some (ok1, it1, s1, h1)"
    using assms(3) by (auto simp: decode_field_def split: option.splits)
  then have e: "eats ok1 s s1" by (auto split: if_splits dest: release_union_eats)
  define r where "r = (let atype = PB_ATYPE (pf_type (it_field it1)) in
     if atype = PB_ATYPE_STATIC then decode_static_field n env noinit wire_type it1 s1 h1
     else if atype = PB_ATYPE_POINTER then decode_pointer_field n env noinit wire_type it1 s1 h1
     else if atype = PB_ATYPE_CALLBACK then decode_callback_field n env wire_type it1 s1 h1
     else dec_error ''invalid field type'' s1 h1)"
  have "all_within s1 r" unfolding r_def Let_def
    by (intro all_within_if within_static within_pointer within_callback assms(1,2)) simp
  moreover have "(if \<not> ok1 then Some (False, it1, s1, h1) else map_option (\<lambda>(r, s, h). (r, it1, s, h)) r) = Some (ok, it', s', h')"
    using assms(3) unfolding decode_field_def u option.case prod.case r_def .
  ultimately show ?thesis using e eats_trans [of s s1] by (cases ok1) (auto simp: within_def)
qed

lemma within_default_extension:
  assumes "well_behaved env" "confined noinit"
  shows "all_within s (default_extension_decoder n env noinit ext tag wire_type s h)"
  using decode_field_eats [OF assms]
  by (auto simp: default_extension_decoder_def Let_def all_within_def within_def)

lemma within_extension_loop:
  assumes "well_behaved env" "confined noinit"
  shows "all_within s (extension_loop k n env noinit pos ext tag wire_type s h)"
proof (induction k arbitrary: ext s h)
  case (Suc k)
  have "all_within s (let fn = ext_type_decode (h_mem h) ext in
         if fn \<noteq> 0 then Some (de_ext_decode env fn ext tag wire_type s h)
         else default_extension_decoder n env noinit ext tag wire_type s h)"
    using assms within_default_extension [OF assms] by (auto simp: well_behaved_def Let_def)
  then show ?case unfolding extension_loop.simps
    by (intro all_within_if all_within_bind Suc.IH) simp_all
qed simp

lemma skip_unknown_eats: "skip_unknown wire_type l s h = Some (ok, l', s', h') \<Longrightarrow> eats ok s s'"
  using readerD [OF reader_skip_field] by (auto simp: skip_unknown_def simp del: not_None_eq split: prod.splits)

lemma decode_unknown_eats:
  assumes "well_behaved env" "confined noinit" "decode_unknown_field n env noinit tag wire_type l s h = Some (ok, l', s', h')"
  shows "eats ok s s'"
proof -
  have "eats ok1 s s1" if "decode_extension n env noinit tag wire_type it s h = Some (ok1, s1, h1)" for it ok1 s1 h1
    using within_extension_loop [OF assms(1,2)] that by (force simp: decode_extension_def all_within_def within_def)
  then show ?thesis using assms(3) skip_unknown_eats
    by (fastforce simp: decode_unknown_field_def Let_def case_prod_beta intro: eats_trans split: if_splits option.splits)
qed

lemma decode_known_eats:
  assumes "well_behaved env" "confined noinit" "decode_known_field n env noinit wire_type l s h = Some (ok, l', s', h')"
  shows "eats ok s s'"
  using assms(3) decode_field_eats [OF assms(1,2)]
  by (auto simp: decode_known_field_def Let_def split: if_splits)

text \<open>The end of the stream, or a zero tag, ends the message with success.\<close>

lemma varint32_eof_eats: "pb_decode_varint32_eof s = ((r, eof), s') \<Longrightarrow> eats (r \<noteq> None \<or> eof) s s'"
proof -
  assume a: "pb_decode_varint32_eof s = ((r, eof), s')"
  obtain b s1 where b: "pb_readbyte s = (b, s1)" by (cases "pb_readbyte s")
  show ?thesis
  proof (cases "b = None \<and> over_buffer s")
    case True
    then have "s1 = set_error ''end-of-stream'' s" using b by (auto simp: readbyte_buffer is_error_def split: list.splits)
    then show ?thesis using a b True eats_errmsg_right [OF eats_refl, of True s]
      by (auto simp: pb_decode_varint32_eof_def set_error_def intro: eats_any)
  next
    case False
    have e: "eats (r \<noteq> None) s s'"
      using readerD [OF strict_readerD [OF strict_reader_varint32], of s r s'] a by (simp add: pb_decode_varint32_def)
    have "\<not> eof \<or> \<not> over_buffer s" using a b False by (auto simp: pb_decode_varint32_eof_def Let_def split: if_splits prod.splits)
    then show ?thesis using e by (auto simp: eats_def)
  qed
qed

lemma tag_eats: "pb_decode_tag s = ((r, eof), s') \<Longrightarrow> eats (r \<noteq> None \<or> eof) s s'"
  by (auto simp: pb_decode_tag_def dest!: varint32_eof_eats split: prod.splits option.splits if_splits)

lemma tag_left: "pb_decode_tag s = ((Some t, eof), s') \<Longrightarrow> is_bytes_left s' < is_bytes_left s"
  using strict_reader_less [OF strict_reader_tag, of s t s'] by (simp add: read_tag_def)

lemma decode_loop_eats:
  assumes "well_behaved env" "confined noinit"
  shows "decode_loop k n env noinit l s h = Some (ok, l', s', h') \<Longrightarrow> eats ok s s'"
proof (induction k arbitrary: l s h)
  case (Suc k)
  obtain r eof s1 where t: "pb_decode_tag s = ((r, eof), s1)" by (metis prod.exhaust)
  show ?case
  proof (cases "is_bytes_left s = 0 \<or> r = None")
    case True
    then show ?thesis using Suc.prems tag_eats [OF t] by (auto simp: t split: if_splits)
  next
    case False
    then obtain wt tag where r: "r = Some (wt, tag)" by auto
    obtain found it where "pb_field_iter_find tag (dl_iter l) = (found, it)" by (metis prod.exhaust)
    with Suc.prems False r t obtain l1 ok2 l2 s2 h2 where
      2: "(if found then decode_known_field n env noinit wt l1 s1 h else decode_unknown_field n env noinit tag wt l1 s1 h) = Some (ok2, l2, s2, h2)"
      and 3: "(if \<not> ok2 then Some (False, l2, s2, h2) else decode_loop k n env noinit l2 s2 h2) = Some (ok, l', s', h')"
      by (auto simp: Let_def split: option.splits)
    have "eats ok2 s1 s2" using 2 decode_known_eats [OF assms] decode_unknown_eats [OF assms] by (auto split: if_splits)
    then have "eats ok s1 s'" using 3 Suc.IH eats_trans [of s1 s2] by (cases ok2) auto
    then show ?thesis using tag_eats [OF t] r by (auto intro: eats_trans)
  qed
qed simp

lemma confined_noinit:
  assumes "well_behaved env"
  shows "confined (pb_decode_noinit n env)"
proof (induction n)
  case (Suc n)
  show ?case unfolding confined_def
  proof (intro allI)
    fix fds dest s h
    define r where "r = decode_loop (Suc (is_bytes_left s)) n env (pb_decode_noinit n env)
       \<lparr>dl_fields_seen = [0, 0], dl_extension_range_start = 0, dl_fixed_count_field = None,
        dl_iter = snd (pb_field_iter_begin (de_fields env fds) dest)\<rparr> s (poke32 (de_frame env n) 0 h)"
    have e: "r = Some (ok, l', s', h') \<Longrightarrow> eats ok s s'" for ok l' s' h'
      unfolding r_def by (rule decode_loop_eats [OF assms Suc])
    have "within s (False, set_error msg s', h')" if "eats True s s'" for msg s' and h' :: heap
      using eats_error_after [OF that] by simp
    then show "all_within s (pb_decode_noinit (Suc n) env fds dest s h)"
      unfolding pb_decode_noinit.simps noinit_body_def Let_def r_def [symmetric] dec_error_def
      by (auto split: option.split dest!: e)
  qed
qed (simp add: confined_def)

lemma decode_confined: "well_behaved env \<Longrightarrow> confined (pb_decode n env)"
  unfolding pb_decode_def [abs_def] by (intro confined_with confined_noinit)

end
