(* ===== verification/Pb_Iter.thy ===== *)
theory Pb_Iter
  imports Pb_Common
begin

text \<open>
  The field iterator of \<open>pb_common.c\<close>: it stays in the field array, what it knows of a field does not
  depend on how it got there, and its search ends and finds what there is.
\<close>

subsection \<open>The iterator stays in the field array\<close>

lemma iter_begin_start [simp]: "it_start (snd (pb_field_iter_begin fds p)) = fds"
  by (simp add: pb_field_iter_begin_def Let_def)

lemma iter_begin_tag: "fst (pb_field_iter_begin fds p) \<longleftrightarrow> pf_tag (it_field (snd (pb_field_iter_begin fds p))) \<noteq> 0"
  by (simp add: pb_field_iter_begin_def Let_def it_field_def)

lemma iter_next_start [simp]: "it_start (snd (pb_field_iter_next it)) = it_start it"
  by (simp add: pb_field_iter_next_def Let_def)

lemma iter_next_tag: "fst (pb_field_iter_next it) \<Longrightarrow> pf_tag (it_field (snd (pb_field_iter_next it))) \<noteq> 0"
  by (auto simp: pb_field_iter_next_def Let_def it_field_def split: if_splits)

lemma field_at_in_set: "pf_tag (field_at fds i) \<noteq> 0 \<Longrightarrow> field_at fds i \<in> set fds"
  by (auto simp: field_at_def PB_LAST_FIELD_def split: if_splits)

lemma iter_walk_fields:
  "pf_tag (it_field it) \<noteq> 0 \<Longrightarrow> x \<in> set (iter_walk n it) \<Longrightarrow> it_field x \<in> set (it_start it)"
proof (induction n arbitrary: it)
  case 0
  then show ?case using field_at_in_set by (auto simp: iter_walk.simps [of 0] it_field_def)
next
  case (Suc n)
  show ?case
  proof (cases "x = it")
    case True
    then show ?thesis using Suc.prems(1) field_at_in_set by (simp add: it_field_def)
  next
    case False
    then have "fst (pb_field_iter_next it)" "x \<in> set (iter_walk n (snd (pb_field_iter_next it)))"
      using Suc.prems(2) by (auto simp: iter_walk.simps [of "Suc n"] case_prod_beta split: if_splits)
    from Suc.IH [OF iter_next_tag [OF this(1)] this(2)] show ?thesis by simp
  qed
qed

lemma iter_all_fields: "it \<in> set (iter_all fds p) \<Longrightarrow> it_field it \<in> set fds"
  using iter_walk_fields [of "snd (pb_field_iter_begin fds p)" it "length fds"] iter_begin_tag [of fds p]
  by (auto simp: iter_all_def case_prod_beta split: if_splits)

subsection \<open>The search of the iterator\<close>

lemma find_loop_start [simp]: "it_start (snd (iter_find_loop wanted start n it)) = it_start it"
  by (induction wanted start n it rule: iter_find_loop.induct) (subst iter_find_loop.simps, simp add: Let_def)

lemma find_loop_wanted: "fst (iter_find_loop wanted start n it) \<Longrightarrow> wanted (it_field (snd (iter_find_loop wanted start n it)))"
proof (induction wanted start n it rule: iter_find_loop.induct)
  case (1 wanted start n it)
  then show ?case by (subst iter_find_loop.simps, subst (asm) (2) iter_find_loop.simps) (auto simp: Let_def split: if_splits)
qed

lemma find_start [simp]: "it_start (snd (pb_field_iter_find tag it)) = it_start it"
  by (simp add: pb_field_iter_find_def)

subsection \<open>Positions\<close>

text \<open>The iterator at a position, as a walk from the beginning gives it.\<close>

fun iter_at :: "pb_field list \<Rightarrow> addr \<Rightarrow> nat \<Rightarrow> pb_iter" where
  "iter_at fds dest 0 = snd (pb_field_iter_begin fds dest)"
| "iter_at fds dest (Suc i) = snd (pb_field_iter_next (iter_at fds dest i))"

definition tagged :: "pb_field list \<Rightarrow> bool" where
  "tagged fds \<longleftrightarrow> list_all (\<lambda>f. pf_tag f \<noteq> 0) fds"

lemma iter_at_start [simp]: "it_start (iter_at fds dest i) = fds"
  by (induction i) simp_all

lemma iter_next_dest [simp]: "it_dest_struct (snd (pb_field_iter_next it)) = it_dest_struct it"
  by (simp add: pb_field_iter_next_def pb_field_iter_begin_def Let_def)

lemma iter_at_dest [simp]: "it_dest_struct (iter_at fds dest i) = dest"
  by (induction i) (simp_all add: pb_field_iter_begin_def Let_def)

lemma field_at_tag: "tagged fds \<Longrightarrow> pf_tag (field_at fds i) = 0 \<longleftrightarrow> length fds \<le> i"
  by (auto simp: tagged_def list_all_length field_at_def PB_LAST_FIELD_def)

lemma iter_next_pos:
  assumes "tagged fds" "it_start it = fds" "it_pos it < length fds"
  shows "it_pos (snd (pb_field_iter_next it)) = (if Suc (it_pos it) < length fds then Suc (it_pos it) else 0)"
    and "\<not> Suc (it_pos it) < length fds \<Longrightarrow> snd (pb_field_iter_next it) = iter_at fds (it_dest_struct it) 0"
  using assms by (simp_all add: pb_field_iter_next_def Let_def it_field_def field_at_tag pb_field_iter_begin_def not_less not_le)

lemma iter_at_pos: "tagged fds \<Longrightarrow> i < length fds \<Longrightarrow> it_pos (iter_at fds dest i) = i"
proof (induction i)
  case (Suc i)
  then show ?case using iter_next_pos(1) [of fds "iter_at fds dest i"] by simp
qed (simp add: pb_field_iter_begin_def Let_def)

lemma iter_at_field: "tagged fds \<Longrightarrow> i < length fds \<Longrightarrow> it_field (iter_at fds dest i) = fds ! i"
  by (simp add: it_field_def iter_at_pos field_at_def)

lemma iter_at_next:
  "tagged fds \<Longrightarrow> i < length fds \<Longrightarrow>
   snd (pb_field_iter_next (iter_at fds dest i)) = iter_at fds dest (Suc i mod length fds)"
  using iter_next_pos(2) [of fds "iter_at fds dest i"] by (cases "Suc i < length fds") (auto simp: iter_at_pos not_less le_Suc_eq)

lemma iter_all_at:
  assumes "tagged fds" "fds \<noteq> []"
  shows "iter_all fds dest = map (iter_at fds dest) [0..<length fds]"
proof -
  have "iter_walk n (iter_at fds dest i) = map (iter_at fds dest) [i..<length fds]"
    if "i < length fds" "length fds - i \<le> Suc n" for n i
    using that
  proof (induction n arbitrary: i)
    case 0
    then have "length fds = Suc i" by simp
    then show ?case by (simp add: iter_walk.simps [of 0])
  next
    case (Suc n)
    have more: "fst (pb_field_iter_next (iter_at fds dest i)) \<longleftrightarrow> Suc i < length fds"
      using assms(1) Suc.prems(1) by (simp add: pb_field_iter_next_def Let_def it_field_def iter_at_pos field_at_tag not_less not_le)
    show ?case
    proof (cases "Suc i < length fds")
      case True
      then show ?thesis using more Suc.IH [of "Suc i"] Suc.prems
        by (simp add: iter_walk.simps [of "Suc n"] case_prod_beta upt_conv_Cons)
    next
      case False
      then have "length fds = Suc i" using Suc.prems by simp
      then show ?thesis using more by (simp add: iter_walk.simps [of "Suc n"] case_prod_beta)
    qed
  qed
  from this [of 0 "length fds"] show ?thesis using assms
    by (simp add: iter_all_def case_prod_beta pb_field_iter_begin_def [of fds] Let_def field_at_tag [OF assms(1)])
qed

text \<open>The search visits \<open>start\<close>, \<open>start + 1\<close>, \<open>\<dots>\<close> modulo the length, and stops in front of \<open>start\<close>.\<close>

lemma find_loop_at:
  assumes "tagged fds" "start < length fds"
  shows "j < length fds \<Longrightarrow> length fds \<le> n + j + 1 \<Longrightarrow>
    iter_find_loop wanted start n (iter_at fds dest ((start + j) mod length fds)) =
     (case find (\<lambda>i. wanted (fds ! i)) (map (\<lambda>i. (start + i) mod length fds) [j..<length fds]) of
        None \<Rightarrow> (False, iter_at fds dest start) | Some i \<Rightarrow> (True, iter_at fds dest i))"
proof (induction n arbitrary: j)
  case 0
  then have j: "length fds = Suc j" by simp
  let ?p = "(start + j) mod length fds"
  have p: "?p < length fds" using assms(2) by (intro mod_less_divisor) linarith
  have "Suc ?p mod length fds = (start + length fds) mod length fds" by (simp add: mod_Suc_eq j)
  then have "Suc ?p mod length fds = start" using assms(2) by simp
  then show ?case using p assms by (subst iter_find_loop.simps) (simp add: Let_def iter_at_field iter_at_next iter_at_pos j)
next
  case (Suc n)
  let ?p = "(start + j) mod length fds"
  have p: "?p < length fds" using assms(2) by (intro mod_less_divisor) linarith
  have next1: "Suc ?p mod length fds = (start + Suc j) mod length fds" by (simp add: mod_Suc_eq)
  have l: "[j..<length fds] = j # [Suc j..<length fds]" using Suc.prems by (simp add: upt_conv_Cons)
  show ?case
  proof (cases "Suc j < length fds")
    case True
    then have "(start + Suc j) mod length fds \<noteq> start" using assms(2) by (auto simp: mod_if not_less)
    moreover have "(start + Suc j) mod length fds < length fds" using assms(2) by (intro mod_less_divisor) linarith
    ultimately show ?thesis using p assms Suc.IH [OF True] Suc.prems
      by (subst iter_find_loop.simps) (simp add: Let_def iter_at_field iter_at_next iter_at_pos next1 l del: add_Suc_right)
  next
    case False
    then have j: "length fds = Suc j" using Suc.prems by simp
    then have "(start + Suc j) mod length fds = (start + length fds) mod length fds" by simp
    then have "Suc ?p mod length fds = start" using assms(2) next1 by simp
    then show ?thesis using p assms
      by (subst iter_find_loop.simps) (simp add: Let_def iter_at_field iter_at_next iter_at_pos j)
  qed
qed

text \<open>
  Whatever the position, the search ends at a field that has the tag, with the addresses that a walk
  from the beginning gives, and where there is none it comes back.
\<close>

lemma iter_find_at:
  assumes "tagged fds" "p < length fds"
  shows "pb_field_iter_find tag (iter_at fds dest p) =
     (case find (\<lambda>i. pf_tag (fds ! i) = tag \<and> PB_LTYPE (pf_type (fds ! i)) \<noteq> PB_LTYPE_EXTENSION)
         (map (\<lambda>i. (p + i) mod length fds) [0..<length fds]) of
        None \<Rightarrow> (False, iter_at fds dest p) | Some i \<Rightarrow> (True, iter_at fds dest i))"
proof -
  have "(p + 0) mod length fds = p" using assms(2) by simp
  from find_loop_at [OF assms, of 0 "length fds", unfolded this] assms show ?thesis
    unfolding pb_field_iter_find_def iter_at_start by (simp only: iter_at_pos)
qed

lemma rotation_all: "p < n \<Longrightarrow> i < n \<Longrightarrow> i \<in> set (map (\<lambda>i. (p + i) mod n) [0..<n])"
proof -
  assume a: "p < n" "i < (n :: nat)"
  then have "(p + (if p \<le> i then i - p else i + n - p)) mod n = i" "(if p \<le> i then i - p else i + n - p) < n" by auto
  then show ?thesis by force
qed

lemma find_unique:
  assumes "i \<in> set xs" "P i" "\<And>j. j \<in> set xs \<Longrightarrow> P j \<Longrightarrow> j = i"
  shows "find P xs = Some i"
  using assms
proof (induction xs)
  case (Cons x xs)
  show ?case
  proof (cases "P x")
    case True
    then have "x = i" by (intro Cons.prems(3)) simp_all
    then show ?thesis using True by simp
  next
    case False
    then have "i \<in> set xs" using Cons.prems(1,2) by auto
    then have "find P xs = Some i" by (rule Cons.IH) (use Cons.prems(2,3) in simp_all)
    then show ?thesis using False by simp
  qed
qed simp

lemma iter_find_unique:
  assumes "tagged fds" "distinct (map pf_tag fds)" "p < length fds" "i < length fds"
    "PB_LTYPE (pf_type (fds ! i)) \<noteq> PB_LTYPE_EXTENSION"
  shows "pb_field_iter_find (pf_tag (fds ! i)) (iter_at fds dest p) = (True, iter_at fds dest i)"
proof -
  have "j = i" if "j < length fds" "pf_tag (fds ! j) = pf_tag (fds ! i)" for j
    using assms(2,4) that by (auto simp: distinct_conv_nth)
  moreover have "(p + k) mod length fds < length fds" for k using assms(3) by (intro mod_less_divisor) linarith
  ultimately have "find (\<lambda>j. pf_tag (fds ! j) = pf_tag (fds ! i) \<and> PB_LTYPE (pf_type (fds ! j)) \<noteq> PB_LTYPE_EXTENSION)
      (map (\<lambda>i. (p + i) mod length fds) [0..<length fds]) = Some i"
    by (intro find_unique rotation_all assms) (use assms(5) in auto)
  then show ?thesis by (simp add: iter_find_at [OF assms(1,3)])
qed

lemma iter_find_absent:
  assumes "tagged fds" "p < length fds" "tag \<notin> pf_tag ` set fds"
  shows "pb_field_iter_find tag (iter_at fds dest p) = (False, iter_at fds dest p)"
proof -
  have "(p + k) mod length fds < length fds" for k using assms(2) by (intro mod_less_divisor) linarith
  then have "find (\<lambda>j. pf_tag (fds ! j) = tag \<and> PB_LTYPE (pf_type (fds ! j)) \<noteq> PB_LTYPE_EXTENSION)
      (map (\<lambda>i. (p + i) mod length fds) [0..<length fds]) = None"
    using assms(3) by (fastforce simp: find_None_iff image_iff)
  then show ?thesis by (simp add: iter_find_at [OF assms(1,2)])
qed

end
