(* ===== verification/Pb_Encode_Total.thy ===== *)
theory Pb_Encode_Total
  imports Pb_Sizing Pb_Iter
begin

text \<open>
  The encoder returns: fuel beyond the depth of the messages and beyond the length of the lists of
  extensions that the encoder meets is enough.
\<close>

subsection \<open>Message types\<close>

text \<open>
  Message types whose nesting a rank bounds: every submessage has a smaller rank than the message
  that contains it. The other conditions are those of the generated descriptors: a type that is in
  the tables of encoders and decoders, and a selector for every member of a union.
\<close>

definition known_field :: "pb_field \<Rightarrow> bool" where
  "known_field f \<longleftrightarrow> PB_LTYPE (pf_type f) \<le> PB_LTYPE_FIXED_LENGTH_BYTES \<and>
     (PB_HTYPE (pf_type f) = PB_HTYPE_ONEOF \<longrightarrow> pf_size_offset f \<noteq> 0)"

definition ranked_types :: "(addr \<Rightarrow> pb_field list) \<Rightarrow> (addr \<Rightarrow> nat) \<Rightarrow> bool" where
  "ranked_types types rank \<longleftrightarrow> (\<forall>fds. list_all (\<lambda>f. known_field f \<and>
     (PB_LTYPE (pf_type f) = PB_LTYPE_SUBMESSAGE \<longrightarrow> rank (pf_ptr f) < rank fds)) (types fds))"

text \<open>
  No message type has an extension field. Such a field leads to a list of extensions in memory,
  which need not end.
\<close>

definition no_extensions :: "(addr \<Rightarrow> pb_field list) \<Rightarrow> bool" where
  "no_extensions types \<longleftrightarrow> (\<forall>fds. list_all (\<lambda>f. PB_LTYPE (pf_type f) \<noteq> PB_LTYPE_EXTENSION) (types fds))"

lemma ranked_typesD:
  "ranked_types types rank \<Longrightarrow> f \<in> set (types fds) \<Longrightarrow>
   known_field f \<and> (PB_LTYPE (pf_type f) = PB_LTYPE_SUBMESSAGE \<longrightarrow> rank (pf_ptr f) < rank fds)"
  by (auto simp: ranked_types_def list_all_iff)

lemma no_extensionsD: "no_extensions types \<Longrightarrow> f \<in> set (types fds) \<Longrightarrow> PB_LTYPE (pf_type f) \<noteq> PB_LTYPE_EXTENSION"
  by (auto simp: no_extensions_def list_all_iff)

subsection \<open>Messages in memory\<close>

text \<open>
  The list of extensions that starts at an address, where it has ended before \<open>k\<close> entries.
\<close>

fun ext_list :: "nat \<Rightarrow> mem \<Rightarrow> addr \<Rightarrow> addr list option" where
  "ext_list 0 m ext = None"
| "ext_list (Suc k) m ext = (if ext = 0 then Some [] else map_option ((#) ext) (ext_list k m (ext_next m ext)))"

text \<open>The addresses of the submessages that a field at \<open>pData\<close> has, given its count, flag, selector or pointer.\<close>

definition sub_addrs :: "mem \<Rightarrow> pb_field \<Rightarrow> addr \<Rightarrow> addr list" where
  "sub_addrs m f pData =
    (let ty = pf_type f; pSize = size_ptr pData f;
         p = (if PB_ATYPE ty = PB_ATYPE_POINTER then ld64 m pData else pData)
     in if PB_HTYPE ty = PB_HTYPE_REPEATED then
          map (\<lambda>i. p + of_nat i * ucast (pf_data_size f))
            [0..<unat (if pf_size_offset f \<noteq> 0 then ld32 m pSize else pf_array_size f)]
        else if PB_HTYPE ty = PB_HTYPE_ONEOF then (if ld32 m pSize = pf_tag f then [p] else [])
        else if PB_HTYPE ty = PB_HTYPE_OPTIONAL \<and> pf_size_offset f \<noteq> 0 then (if safe_read_bool m pSize then [p] else [])
        else if PB_ATYPE ty = PB_ATYPE_POINTER \<and> p = 0 then []
        else [p])"

text \<open>
  A field that the encoder can finish, given the submessages that it can: a callback, or a field of a
  known type with such submessages only.
\<close>

definition encodable_field :: "(addr \<Rightarrow> addr \<Rightarrow> bool) \<Rightarrow> mem \<Rightarrow> pb_field \<Rightarrow> addr \<Rightarrow> bool" where
  "encodable_field sub m f pData \<longleftrightarrow> PB_ATYPE (pf_type f) \<in> {PB_ATYPE_STATIC, PB_ATYPE_POINTER} \<longrightarrow>
     known_field f \<and> PB_LTYPE (pf_type f) \<noteq> PB_LTYPE_EXTENSION \<and>
     (PB_LTYPE (pf_type f) = PB_LTYPE_SUBMESSAGE \<longrightarrow> list_all (sub (pf_ptr f)) (sub_addrs m f pData))"

definition ext_field :: "pb_env \<Rightarrow> mem \<Rightarrow> addr \<Rightarrow> pb_field" where
  "ext_field env m ext = field_at (env_fields env (ext_type_arg m ext)) 0"

definition ext_data :: "pb_env \<Rightarrow> mem \<Rightarrow> addr \<Rightarrow> addr" where
  "ext_data env m ext =
     (if PB_ATYPE (pf_type (ext_field env m ext)) = PB_ATYPE_POINTER then ext + 8 else ext_dest m ext)"

text \<open>
  The message of type \<open>fds\<close> at \<open>src\<close>, its submessages and those of its extensions have less than \<open>d\<close>
  levels, and the lists of extensions in them have ended before \<open>d\<close> entries.
\<close>

fun encodable :: "nat \<Rightarrow> pb_env \<Rightarrow> mem \<Rightarrow> addr \<Rightarrow> addr \<Rightarrow> bool" where
  "encodable 0 env m fds src = False"
| "encodable (Suc d) env m fds src = list_all (\<lambda>it.
     if PB_LTYPE (pf_type (it_field it)) = PB_LTYPE_EXTENSION then
       (case ext_list d m (ld64 m (it_pData it)) of
          None \<Rightarrow> False
        | Some exts \<Rightarrow> list_all (\<lambda>ext. ext_type_encode m ext \<noteq> 0 \<or>
            encodable_field (encodable d env m) m (ext_field env m ext) (ext_data env m ext)) exts)
     else encodable_field (encodable d env m) m (it_field it) (it_pData it)) (iter_all (env_fields env fds) src)"

lemma all_default_total: "(\<And>it. it \<in> set its \<Longrightarrow> chk it \<noteq> None) \<Longrightarrow> all_default chk its \<noteq> None"
  by (induction its) fastforce+

text \<open>The check for default values goes into static submessages only, never along a list of extensions.\<close>

lemma check_default_total:
  "encodable_field (encodable d env m) m f p \<Longrightarrow> d < n \<Longrightarrow> pb_check_proto3_default_value n env m f p \<noteq> None"
proof (induction n arbitrary: d f p)
  case (Suc n)
  let ?sub = "env_fields env (pf_ptr f)"
  have "all_default (\<lambda>it. pb_check_proto3_default_value n env m (it_field it) (it_pData it)) (iter_all ?sub p) \<noteq> None"
    if ty: "PB_LTYPE (pf_type f) = PB_LTYPE_SUBMESSAGE" "PB_ATYPE (pf_type f) = PB_ATYPE_STATIC"
      "p \<in> set (sub_addrs m f p)"
  proof (rule all_default_total)
    have "encodable d env m (pf_ptr f) p" using Suc.prems(1) ty by (auto simp: encodable_field_def list_all_iff)
    then obtain d' where d: "d = Suc d'" and e: "encodable (Suc d') env m (pf_ptr f) p" by (cases d) auto
    fix it assume it: "it \<in> set (iter_all ?sub p)"
    show "pb_check_proto3_default_value n env m (it_field it) (it_pData it) \<noteq> None"
    proof (cases "PB_LTYPE (pf_type (it_field it)) = PB_LTYPE_EXTENSION")
      case True
      then have "PB_LTYPE (pf_type (it_field it)) \<noteq> PB_LTYPE_SUBMESSAGE" by (simp add: pb_consts)
      then show ?thesis using Suc.prems(2) d by (cases n) (simp_all add: Let_def del: not_None_eq)
    next
      case False
      then have "encodable_field (encodable d' env m) m (it_field it) (it_pData it)" using e it by (simp add: list_all_iff)
      then show ?thesis using Suc.prems(2) d by (intro Suc.IH) simp_all
    qed
  qed
  moreover have "p \<in> set (sub_addrs m f p)"
    if "PB_ATYPE (pf_type f) = PB_ATYPE_STATIC" "PB_HTYPE (pf_type f) \<notin> {PB_HTYPE_REPEATED, PB_HTYPE_ONEOF}"
      "\<not> (PB_HTYPE (pf_type f) = PB_HTYPE_OPTIONAL \<and> pf_size_offset f \<noteq> 0)"
    using that by (auto simp: sub_addrs_def Let_def pb_consts)
  ultimately show ?case by (simp add: Let_def del: not_None_eq)
qed simp

lemma os_then_total: "r \<noteq> None \<Longrightarrow> (\<And>s. g s \<noteq> None) \<Longrightarrow> os_then r g \<noteq> None"
  by (auto simp: os_then_def)

lemma items_total: "(\<And>p s. item p s \<noteq> None) \<Longrightarrow> encode_items item step n p s \<noteq> None"
  by (induction n arbitrary: p s) (simp_all add: os_then_total del: not_None_eq)

lemma array_total:
  assumes "\<And>p s. func f p s \<noteq> None"
  shows "encode_array m f pData count func s \<noteq> None"
proof -
  have "encode_items (func f) step n p s \<noteq> None" "encode_items (unpacked_item m f func) step n p s \<noteq> None" for step n p s
    by (rule items_total, simp add: assms unpacked_item_def os_then_total del: not_None_eq)+
  moreover from this(1) have "packed_size f func count pData \<noteq> None"
    unfolding packed_size_def by (simp add: option.case_eq_if case_prod_beta del: not_None_eq)
  moreover have "(case x of None \<Rightarrow> None | Some None \<Rightarrow> Some (False, s) | Some (Some n) \<Rightarrow> h n) \<noteq> None"
    if "x \<noteq> None" "\<And>n. h n \<noteq> None" for x s and h :: "u64 \<Rightarrow> enc_result"
    using that by (auto split: option.split)
  ultimately show ?thesis
    unfolding encode_array_def by (simp add: os_then_total del: not_None_eq)
qed

lemma submessage_total: "(\<And>s. enc fds src s \<noteq> None) \<Longrightarrow> pb_encode_submessage enc fds src s \<noteq> None"
  unfolding pb_encode_submessage_def
  by (simp add: option.case_eq_if case_prod_beta os_then_total Let_def del: not_None_eq)

lemma ltype_cases:
  "ltype \<le> PB_LTYPE_FIXED_LENGTH_BYTES \<Longrightarrow> ltype \<noteq> PB_LTYPE_EXTENSION \<Longrightarrow>
   ltype \<in> {PB_LTYPE_BOOL, PB_LTYPE_VARINT, PB_LTYPE_UVARINT, PB_LTYPE_SVARINT, PB_LTYPE_FIXED32, PB_LTYPE_FIXED64,
     PB_LTYPE_BYTES, PB_LTYPE_STRING, PB_LTYPE_SUBMESSAGE, PB_LTYPE_FIXED_LENGTH_BYTES}"
proof -
  assume a: "ltype \<le> PB_LTYPE_FIXED_LENGTH_BYTES" "ltype \<noteq> PB_LTYPE_EXTENSION"
  then have "unat ltype \<in> {0..10}" "unat ltype \<noteq> 9"
    by (simp_all add: pb_consts word_le_nat_alt word_unat_eq_iff)
  moreover have "{0..10} = {0, 1, 2, 3, 4, 5, 6, 7, 8, 9, 10 :: nat}" by (simp add: eval_nat_numeral atLeastAtMostSuc_conv insert_commute)
  ultimately show ?thesis by (auto simp: pb_consts word_unat_eq_iff)
qed

lemma encoder_total:
  assumes "known_field f" "PB_LTYPE (pf_type f) \<noteq> PB_LTYPE_EXTENSION"
    and "PB_LTYPE (pf_type f) = PB_LTYPE_SUBMESSAGE \<Longrightarrow> (\<And>s. enc (pf_ptr f) p s \<noteq> None)"
  shows "PB_ENCODERS enc m (PB_LTYPE (pf_type f)) f p s \<noteq> None"
proof -
  have "pb_enc_submessage enc f p s \<noteq> None" if "PB_LTYPE (pf_type f) = PB_LTYPE_SUBMESSAGE"
    using assms(3) [OF that] unfolding pb_enc_submessage_def by (simp add: submessage_total del: not_None_eq)
  moreover have "PB_LTYPE (pf_type f) \<in> {PB_LTYPE_BOOL, PB_LTYPE_VARINT, PB_LTYPE_UVARINT, PB_LTYPE_SVARINT,
     PB_LTYPE_FIXED32, PB_LTYPE_FIXED64, PB_LTYPE_BYTES, PB_LTYPE_STRING, PB_LTYPE_SUBMESSAGE, PB_LTYPE_FIXED_LENGTH_BYTES}"
    using assms(1,2) ltype_cases unfolding known_field_def by blast
  ultimately show ?thesis by (auto simp: PB_ENCODERS_def)
qed

lemma htype_cases: "PB_HTYPE ty \<in> {PB_HTYPE_REQUIRED, PB_HTYPE_OPTIONAL, PB_HTYPE_REPEATED, PB_HTYPE_ONEOF}"
proof -
  have m: "(0x30 :: u8) = push_bit 4 (mask 2)" by (simp add: mask_numeral push_bit_eq_mult)
  have h: "ty AND 0x30 = push_bit 4 (take_bit 2 (drop_bit 4 ty))"
    unfolding m by (rule bit_word_eqI) (auto simp: bit_simps)
  have "unat (take_bit 2 (drop_bit 4 ty)) < 4" by (simp add: word_nat)
  then have "unat (take_bit 2 (drop_bit 4 ty)) \<in> {0, 1, 2, 3}" by auto
  then have "take_bit 2 (drop_bit 4 ty) \<in> {0, 1, 2, 3}" by (auto simp: word_unat_eq_iff)
  then show ?thesis unfolding PB_HTYPE_def h by (auto simp: pb_consts push_bit_eq_mult)
qed

text \<open>An array of submessages, whose entries are those of \<open>sub_addrs\<close>.\<close>

lemma items_at_total:
  "(\<And>i s. i < n \<Longrightarrow> item (p + of_nat i * step) s \<noteq> None) \<Longrightarrow> encode_items item step n p s \<noteq> None"
proof (induction n arbitrary: p s)
  case (Suc n)
  have "item p s \<noteq> None" for s using Suc.prems [of 0 s] by simp
  moreover have "encode_items item step n (p + step) s \<noteq> None" for s
  proof (rule Suc.IH)
    fix i s assume "i < n"
    then show "item (p + step + of_nat i * step) s \<noteq> None"
      using Suc.prems [of "Suc i" s] by (simp add: algebra_simps)
  qed
  ultimately show ?case by (simp add: os_then_total del: not_None_eq)
qed simp

lemma sub_array_total:
  assumes "PB_LTYPE (pf_type f) = PB_LTYPE_SUBMESSAGE"
    and "\<And>i s. i < unat count \<Longrightarrow> func f (p + of_nat i * ucast (pf_data_size f)) s \<noteq> None"
  shows "encode_array m f p count func s \<noteq> None"
proof -
  have "encode_items (unpacked_item m f func) (ucast (pf_data_size f)) (unat count) p s \<noteq> None" for s
    by (rule items_at_total) (use assms in \<open>simp add: unpacked_item_def os_then_total pb_consts del: not_None_eq\<close>)
  then show ?thesis using assms(1) by (simp add: encode_array_def pb_consts del: not_None_eq)
qed

lemma basic_field_total:
  assumes f: "encodable_field sub m f pData" "PB_ATYPE (pf_type f) \<in> {PB_ATYPE_STATIC, PB_ATYPE_POINTER}"
    and enc: "\<And>fds src s. sub fds src \<Longrightarrow> enc fds src s \<noteq> None"
    and "pb_check_proto3_default_value n env m f pData \<noteq> None"
  shows "encode_basic_field n env enc m f pData s \<noteq> None"
proof -
  let ?p = "if PB_ATYPE (pf_type f) = PB_ATYPE_POINTER then ld64 m pData else pData"
  let ?func = "PB_ENCODERS enc m (PB_LTYPE (pf_type f))"
  have ok: "known_field f" "PB_LTYPE (pf_type f) \<noteq> PB_LTYPE_EXTENSION" using f by (auto simp: encodable_field_def)
  have e: "?func f q s \<noteq> None" if "PB_LTYPE (pf_type f) = PB_LTYPE_SUBMESSAGE \<Longrightarrow> q \<in> set (sub_addrs m f pData)" for q s
    by (rule encoder_total [OF ok]) (use that f enc in \<open>auto simp: encodable_field_def list_all_iff\<close>)
  have h: "implicit_has n env m f pData \<noteq> None"
    using assms(4) by (simp add: implicit_has_def Let_def del: not_None_eq)
  obtain has where has: "implicit_has n env m f pData = Some has" using h by blast
  have nz: "has \<Longrightarrow> PB_ATYPE (pf_type f) = PB_ATYPE_POINTER \<Longrightarrow> ?p \<noteq> 0"
    using has by (auto simp: implicit_has_def Let_def)
  have htype: "PB_HTYPE_OPTIONAL \<noteq> PB_HTYPE_REQUIRED" "PB_HTYPE_REPEATED \<noteq> PB_HTYPE_REQUIRED" "PB_HTYPE_REPEATED \<noteq> PB_HTYPE_OPTIONAL"
    "PB_HTYPE_ONEOF \<noteq> PB_HTYPE_REQUIRED" "PB_HTYPE_ONEOF \<noteq> PB_HTYPE_OPTIONAL" "PB_HTYPE_ONEOF \<noteq> PB_HTYPE_REPEATED"
    by (simp_all add: pb_consts)
  consider "PB_HTYPE (pf_type f) = PB_HTYPE_REQUIRED" | "PB_HTYPE (pf_type f) = PB_HTYPE_OPTIONAL"
    | "PB_HTYPE (pf_type f) = PB_HTYPE_REPEATED" | "PB_HTYPE (pf_type f) = PB_HTYPE_ONEOF"
    using htype_cases [of "pf_type f"] by auto
  then show ?thesis
  proof cases
    case 1
    then have "?p \<in> set (sub_addrs m f pData)" if "?p \<noteq> 0" using that htype by (simp add: sub_addrs_def Let_def)
    then have "?func f ?p s \<noteq> None" if "?p \<noteq> 0" for s using that e by blast
    then show ?thesis using 1 has by (simp add: encode_basic_field_def Let_def os_then_total del: not_None_eq)
  next
    case 2
    then have "?p \<in> set (sub_addrs m f pData)" if "if pf_size_offset f \<noteq> 0 then safe_read_bool m (size_ptr pData f) else has"
      using that htype nz by (auto simp: sub_addrs_def Let_def)
    then have "?func f ?p s \<noteq> None" if "if pf_size_offset f \<noteq> 0 then safe_read_bool m (size_ptr pData f) else has" for s
      using that e by blast
    then show ?thesis using 2 has htype by (simp add: encode_basic_field_def Let_def os_then_total del: not_None_eq)
  next
    case 3
    let ?count = "if pf_size_offset f \<noteq> 0 then ld32 m (size_ptr pData f) else pf_array_size f"
    have "encode_array m f ?p ?count ?func s \<noteq> None" for s
    proof (cases "PB_LTYPE (pf_type f) = PB_LTYPE_SUBMESSAGE")
      case True
      then show ?thesis
      proof (rule sub_array_total)
        fix i s assume "i < unat ?count"
        then have "?p + of_nat i * ucast (pf_data_size f) \<in> set (sub_addrs m f pData)"
          using 3 by (auto simp: sub_addrs_def Let_def)
        then show "?func f (?p + of_nat i * ucast (pf_data_size f)) s \<noteq> None" by (rule e)
      qed
    next
      case False
      then show ?thesis using e by (intro array_total) blast
    qed
    then show ?thesis using 3 has htype by (simp add: encode_basic_field_def Let_def del: not_None_eq)
  next
    case 4
    then have "?p \<in> set (sub_addrs m f pData)" if "ld32 m (size_ptr pData f) = pf_tag f"
      using that htype by (simp add: sub_addrs_def Let_def)
    then have "?func f ?p s \<noteq> None" if "ld32 m (size_ptr pData f) = pf_tag f" for s using that e by blast
    moreover have "pf_size_offset f \<noteq> 0" using ok(1) 4 by (simp add: known_field_def)
    ultimately show ?thesis using 4 has htype by (simp add: encode_basic_field_def Let_def os_then_total del: not_None_eq)
  qed
qed

lemma field_encode_total:
  assumes "encodable_field (encodable d env m) m f p" "d < n" "\<And>fds src s. encodable d env m fds src \<Longrightarrow> enc fds src s \<noteq> None"
  shows "encode_field n env enc m f p s \<noteq> None"
  using basic_field_total [OF assms(1) _ assms(3) check_default_total [OF assms(1,2)]]
  by (simp add: encode_field_def del: not_None_eq)

lemma extensions_total:
  assumes "\<And>ext s. ext \<in> set exts \<Longrightarrow> ext_type_encode m ext = 0 \<Longrightarrow> default_extension_encoder n env enc m ext s \<noteq> None"
  shows "ext_list k m ext = Some exts \<Longrightarrow> k \<le> k' \<Longrightarrow> encode_extensions k' n env enc m ext s \<noteq> None"
  using assms
proof (induction k arbitrary: k' ext exts s)
  case (Suc k)
  then obtain j where k': "k' = Suc j" by (cases k') simp_all
  show ?case
  proof (cases "ext = 0")
    case False
    with Suc.prems(1) obtain xs where xs: "ext_list k m (ext_next m ext) = Some xs" "exts = ext # xs" by auto
    have "encode_extensions j n env enc m (ext_next m ext) s \<noteq> None" for s
      using Suc.prems(2,3) xs k' by (intro Suc.IH [OF xs(1)]) auto
    then show ?thesis using False Suc.prems(3) [of ext] xs(2) k' by (simp add: os_then_total del: not_None_eq)
  qed (simp add: k')
qed simp

lemma fields_total: "(\<And>it s. it \<in> set its \<Longrightarrow> enc1 it s \<noteq> None) \<Longrightarrow> encode_fields enc1 its s \<noteq> None"
  by (induction its arbitrary: s) (simp_all add: os_then_total del: not_None_eq)

lemma encode_total: "encodable d env m fds src \<Longrightarrow> d < n \<Longrightarrow> pb_encode n env m fds src s \<noteq> None"
proof (induction n arbitrary: d fds src s)
  case (Suc n)
  then obtain d' where d: "d = Suc d'" "d' < n" by (cases d) simp_all
  have sub: "pb_encode n env m fds' src' s' \<noteq> None" if "encodable d' env m fds' src'" for fds' src' s'
    using Suc.IH [OF that d(2)] .
  show ?case unfolding pb_encode.simps
  proof (rule fields_total)
    fix it s assume it: "it \<in> set (iter_all (env_fields env fds) src)"
    show "(if PB_LTYPE (pf_type (it_field it)) = PB_LTYPE_EXTENSION
        then encode_extension_field n env (pb_encode n env m) m (it_pData it) s
        else encode_field n env (pb_encode n env m) m (it_field it) (it_pData it) s) \<noteq> None"
    proof (cases "PB_LTYPE (pf_type (it_field it)) = PB_LTYPE_EXTENSION")
      case True
      with Suc.prems(1) it d(1) obtain exts where exts: "ext_list d' m (ld64 m (it_pData it)) = Some exts"
        "\<And>ext. ext \<in> set exts \<Longrightarrow> ext_type_encode m ext = 0 \<Longrightarrow>
          encodable_field (encodable d' env m) m (ext_field env m ext) (ext_data env m ext)"
        by (force simp: list_all_iff split: option.splits)
      have "encode_extension_field n env (pb_encode n env m) m (it_pData it) s \<noteq> None"
        unfolding encode_extension_field_def
      proof (rule extensions_total [OF _ exts(1)])
        fix ext s assume "ext \<in> set exts" "ext_type_encode m ext = 0"
        from field_encode_total [OF exts(2) [OF this] d(2) sub] show "default_extension_encoder n env (pb_encode n env m) m ext s \<noteq> None"
          by (simp add: default_extension_encoder_def ext_field_def ext_data_def Let_def del: not_None_eq)
      qed (use d(2) in simp)
      with True show ?thesis by (simp del: not_None_eq)
    next
      case False
      with Suc.prems(1) it d(1) have "encodable_field (encodable d' env m) m (it_field it) (it_pData it)"
        by (auto simp: list_all_iff)
      from field_encode_total [OF this d(2) sub] False show ?thesis by (simp del: not_None_eq)
    qed
  qed
qed simp

text \<open>Messages of ranked types without extensions are encodable in every memory.\<close>

lemma ranked_encodable:
  assumes "ranked_types (env_fields env) rank" "no_extensions (env_fields env)"
  shows "rank fds < d \<Longrightarrow> encodable d env m fds src"
proof (induction d arbitrary: fds src)
  case (Suc d fds src)
  have "encodable_field (encodable d env m) m (it_field it) (it_pData it) \<and> PB_LTYPE (pf_type (it_field it)) \<noteq> PB_LTYPE_EXTENSION"
    if "it \<in> set (iter_all (env_fields env fds) src)" for it
  proof -
    note f = iter_all_fields [OF that]
    note r = ranked_typesD [OF assms(1) f] no_extensionsD [OF assms(2) f]
    then have "encodable d env m (pf_ptr (it_field it)) q" if "PB_LTYPE (pf_type (it_field it)) = PB_LTYPE_SUBMESSAGE" for q
      using that Suc.prems by (intro Suc.IH) simp
    with r show ?thesis by (auto simp: encodable_field_def list_all_iff)
  qed
  then show ?case by (simp add: list_all_iff)
qed simp

text \<open>The bound on the lists is needed: one that leads back to itself is never left while its encoder succeeds.\<close>

lemma cyclic_extensions_stuck:
  assumes "ext \<noteq> 0" "ext_next m ext = ext" "ext_type_encode m ext \<noteq> 0"
    and "\<And>s. fst (env_ext_encode env (ext_type_encode m ext) m ext s)"
  shows "encode_extensions k n env enc m ext s = None"
proof (induction k arbitrary: s)
  case (Suc k)
  then show ?case using assms by (simp add: os_then_def case_prod_beta)
qed simp

end
