(* ===== verification/Pb_Decode_Total.thy ===== *)
theory Pb_Decode_Total
  imports Pb_Decode_Safe Pb_Encode_Total
begin

text \<open>
  The decoder returns: for message types that do not contain themselves and have no extension fields,
  fuel beyond the depth of nesting and the length of the input is enough, whatever the input and the
  memory are, unless a callback of the user stalls.
\<close>

subsection \<open>Message types\<close>

text \<open>The conditions of \<open>Pb_Encode_Total\<close>, and a size for the entries of dynamic arrays.\<close>

definition sized_pointers :: "(addr \<Rightarrow> pb_field list) \<Rightarrow> bool" where
  "sized_pointers types \<longleftrightarrow>
     (\<forall>fds. list_all (\<lambda>f. PB_ATYPE (pf_type f) = PB_ATYPE_POINTER \<longrightarrow> pf_data_size f \<noteq> 0) (types fds))"

definition decodable_types :: "dec_env \<Rightarrow> (addr \<Rightarrow> nat) \<Rightarrow> bool" where
  "decodable_types env rank \<longleftrightarrow>
     ranked_types (de_fields env) rank \<and> no_extensions (de_fields env) \<and> sized_pointers (de_fields env)"

definition decodable_field :: "(addr \<Rightarrow> nat) \<Rightarrow> nat \<Rightarrow> pb_field \<Rightarrow> bool" where
  "decodable_field rank r f \<longleftrightarrow> known_field f \<and> PB_LTYPE (pf_type f) \<noteq> PB_LTYPE_EXTENSION \<and>
     (PB_LTYPE (pf_type f) = PB_LTYPE_SUBMESSAGE \<longrightarrow> rank (pf_ptr f) < r) \<and>
     (PB_ATYPE (pf_type f) = PB_ATYPE_POINTER \<longrightarrow> pf_data_size f \<noteq> 0)"

lemma decodable_typesD: "decodable_types env rank \<Longrightarrow> f \<in> set (de_fields env fds) \<Longrightarrow> decodable_field rank (rank fds) f"
  using ranked_typesD [of "de_fields env" rank f fds] no_extensionsD [of "de_fields env" f fds]
  by (auto simp: decodable_types_def decodable_field_def sized_pointers_def list_all_iff)

lemma decodable_last: "decodable_field rank r PB_LAST_FIELD"
  by (simp add: decodable_field_def known_field_def PB_LAST_FIELD_def PB_LTYPE_def PB_HTYPE_def PB_ATYPE_def pb_consts)

lemma decodable_it:
  "decodable_types env rank \<Longrightarrow> it_start it = de_fields env fds \<Longrightarrow> decodable_field rank (rank fds) (it_field it)"
  using decodable_typesD [of env rank "it_field it" fds] by (auto simp: it_field_def field_at_def decodable_last)

lemma decodable_all:
  "decodable_types env rank \<Longrightarrow> it \<in> set (iter_all (de_fields env fds) p) \<Longrightarrow> decodable_field rank (rank fds) (it_field it)"
  using decodable_typesD iter_all_fields by blast

lemma decodable_sub:
  "decodable_field rank r f \<Longrightarrow> PB_LTYPE (pf_type f) = PB_LTYPE_SUBMESSAGE \<Longrightarrow> rank (pf_ptr f) < r"
  by (simp add: decodable_field_def)

lemma decodable_ext: "decodable_field rank r f \<Longrightarrow> PB_LTYPE (pf_type f) \<noteq> PB_LTYPE_EXTENSION"
  by (simp add: decodable_field_def)

subsection \<open>Default values and release\<close>

lemma heap_all_total: "(\<And>it h. it \<in> set its \<Longrightarrow> body it h \<noteq> None) \<Longrightarrow> heap_all body its h \<noteq> None"
  by (induction its arbitrary: h) (simp_all add: option.case_eq_if del: not_None_eq)

lemma release_items_total: "(\<And>p h. rel p h \<noteq> None) \<Longrightarrow> release_items rel k p step h \<noteq> None"
  by (induction k arbitrary: p h) (simp_all add: option.case_eq_if del: not_None_eq)

lemma defaults_total:
  assumes "decodable_types env rank"
  shows "decodable_field rank r (it_field it) \<Longrightarrow> 2 * r + 1 \<le> n \<Longrightarrow> pb_field_set_to_default n env it h \<noteq> None"
    and "2 * rank fds + 2 \<le> n \<Longrightarrow> pb_message_set_to_defaults n env fds dest h \<noteq> None"
proof (induction n arbitrary: r it fds dest h)
  case (Suc n)
  {
    case 1
    have "pb_message_set_to_defaults n env (pf_ptr (it_field it)) q h \<noteq> None"
      if "PB_LTYPE (pf_type (it_field it)) = PB_LTYPE_SUBMESSAGE" for q h
      using decodable_sub [OF 1(1) that] 1(2) by (intro Suc(2)) simp
    then show ?case using decodable_ext [OF 1(1)]
      by (simp add: set_static_default_def Let_def del: not_None_eq)
  next
    case 2
    show ?case unfolding pb_message_set_to_defaults.simps
      by (intro heap_all_total Suc(1) [OF decodable_all [OF assms]]) (use 2 in auto)
  }
qed simp_all

lemma release_total:
  assumes "decodable_types env rank"
  shows "decodable_field rank r (it_field it) \<Longrightarrow> 2 * r + 1 \<le> n \<Longrightarrow> pb_release_single_field n env it h \<noteq> None"
    and "2 * rank fds + 2 \<le> n \<Longrightarrow> pb_release n env fds dest h \<noteq> None"
proof (induction n arbitrary: r it fds dest h)
  case (Suc n)
  {
    case 1
    have "release_items (pb_release n env (pf_ptr (it_field it))) k p step h \<noteq> None"
      if "PB_LTYPE (pf_type (it_field it)) = PB_LTYPE_SUBMESSAGE" for k p step h
      using decodable_sub [OF 1(1) that] 1(2) by (intro release_items_total Suc(2)) simp
    then show ?case using decodable_ext [OF 1(1)] by (simp add: Let_def option.map_disc_iff del: not_None_eq)
  next
    case 2
    have "heap_all (pb_release_single_field n env) (iter_all (de_fields env fds) dest) h \<noteq> None"
      by (intro heap_all_total Suc(1) [OF decodable_all [OF assms]]) (use 2 in auto)
    then show ?case by simp
  }
qed simp_all

lemma release_union_total:
  assumes "decodable_types env rank" "it_start it = de_fields env fds" "2 * rank fds + 1 \<le> n"
  shows "pb_release_union_field n env it s h \<noteq> None"
proof -
  have "pb_release_single_field n env (snd (pb_field_iter_find tag it)) h \<noteq> None" for tag
    by (rule release_total(1) [OF assms(1) decodable_it [OF assms(1)] assms(3)]) (simp add: assms(2))
  then show ?thesis
    by (simp add: pb_release_union_field_def Let_def case_prod_beta option.case_eq_if del: not_None_eq)
qed

lemma release_union_start:
  "pb_release_union_field n env it s h = Some (ok, it', s', h') \<Longrightarrow> it_start it' = it_start it"
  by (auto simp: pb_release_union_field_def Let_def case_prod_beta split: if_splits option.splits)

subsection \<open>Fields\<close>

text \<open>A decoder for streams of at most \<open>b\<close> bytes.\<close>

definition total_below :: "nat \<Rightarrow> (istream \<Rightarrow> heap \<Rightarrow> dec_result) \<Rightarrow> bool" where
  "total_below b dec \<longleftrightarrow> (\<forall>s h. is_bytes_left s \<le> b \<longrightarrow> dec s h \<noteq> None)"

lemma total_belowD: "total_below b dec \<Longrightarrow> is_bytes_left s \<le> b \<Longrightarrow> dec s h \<noteq> None"
  unfolding total_below_def by blast

lemma substream_total:
  assumes "total_below b dec" "is_bytes_left s \<le> b"
  shows "on_substream dec s h \<noteq> None"
proof (cases "pb_make_string_substream s")
  case (Pair r s1)
  then show ?thesis
    by (cases rule: make_substream_cases)
      (use assms(2) total_belowD [OF assms(1)] in \<open>auto simp: on_substream_def Pair simp del: not_None_eq\<close>)
qed

lemma make_total:
  assumes "\<And>sub s1. is_bytes_left sub < is_bytes_left s \<Longrightarrow> g sub s1 \<noteq> None"
  shows "(case pb_make_string_substream s of (None, s) \<Rightarrow> Some (False, s, h) | (Some sub, s) \<Rightarrow> g sub s) \<noteq> None"
proof (cases "pb_make_string_substream s")
  case (Pair r s1)
  then show ?thesis by (cases rule: make_substream_cases) (use assms in \<open>simp_all add: Pair del: not_None_eq\<close>)
qed

lemma decode_with_total:
  assumes "decodable_types env rank" "2 * rank fds + 2 \<le> n" "total_below b (noinit fds dest)"
  shows "total_below b (pb_decode_with n env noinit fds dest)"
  unfolding total_below_def
proof (intro allI impI)
  fix s :: istream and h assume b: "is_bytes_left s \<le> b"
  obtain h1 where "pb_message_set_to_defaults n env fds dest h = Some h1"
    using defaults_total(2) [OF assms(1,2)] by fastforce
  moreover obtain ok s2 h2 where "noinit fds dest s h1 = Some (ok, s2, h2)" using total_belowD [OF assms(3) b] by fastforce
  ultimately show "pb_decode_with n env noinit fds dest s h \<noteq> None"
    using release_total(2) [OF assms(1,2)] by (simp add: pb_decode_with_def option.map_disc_iff del: not_None_eq)
qed

definition subs_total :: "nat \<Rightarrow> (addr \<Rightarrow> nat) \<Rightarrow> nat \<Rightarrow> msg_decoder \<Rightarrow> bool" where
  "subs_total b rank r noinit \<longleftrightarrow> (\<forall>fds dest. rank fds < r \<longrightarrow> total_below b (noinit fds dest))"

lemma PB_DECODERS_total:
  assumes "decodable_types env rank" "decodable_field rank r f" "2 * r \<le> n" "subs_total b rank r noinit"
  shows "total_below b (PB_DECODERS n env noinit (PB_LTYPE (pf_type f)) f dest)"
  unfolding total_below_def
proof (intro allI impI)
  fix s :: istream and h assume b: "is_bytes_left s \<le> b"
  have "pb_dec_submessage n env noinit f dest s h \<noteq> None" if l: "PB_LTYPE (pf_type f) = PB_LTYPE_SUBMESSAGE"
  proof (cases "pf_ptr f = 0")
    case True
    then show ?thesis by (auto simp: pb_dec_submessage_def dec_error_def split: prod.split option.split)
  next
    case False
    have r: "rank (pf_ptr f) < r" by (rule decodable_sub [OF assms(2) l])
    then have t: "total_below b (noinit (pf_ptr f) dest)" using assms(4) by (simp add: subs_total_def)
    moreover have "total_below b (pb_decode_with n env noinit (pf_ptr f) dest)"
      by (rule decode_with_total [OF assms(1)]) (use r assms(3) t in simp_all)
    ultimately show ?thesis using False b by (simp add: pb_dec_submessage_def substream_total del: not_None_eq)
  qed
  moreover have "PB_LTYPE (pf_type f) \<in> {PB_LTYPE_BOOL, PB_LTYPE_VARINT, PB_LTYPE_UVARINT, PB_LTYPE_SVARINT,
     PB_LTYPE_FIXED32, PB_LTYPE_FIXED64, PB_LTYPE_BYTES, PB_LTYPE_STRING, PB_LTYPE_SUBMESSAGE, PB_LTYPE_FIXED_LENGTH_BYTES}"
    using assms(2) ltype_cases unfolding decodable_field_def known_field_def by blast
  ultimately show "PB_DECODERS n env noinit (PB_LTYPE (pf_type f)) f dest s h \<noteq> None"
    by (auto simp: PB_DECODERS_def simp del: not_None_eq)
qed

text \<open>The loops over packed arrays: every round takes a byte.\<close>

lemma static_packed_total:
  assumes "\<And>p. total_below b (func p)" "\<And>p. taking (func p)"
  shows "is_bytes_left s < k \<Longrightarrow> is_bytes_left s \<le> b \<Longrightarrow> static_packed k func it s h \<noteq> None"
proof (induction k arbitrary: s h)
  case (Suc k)
  let ?p = "item_addr (it_pData it) (it_field it) (ld32 (h_mem h) (it_pSize it))"
  obtain ok s1 h1 where f: "func ?p s h = Some (ok, s1, h1)" using total_belowD [OF assms(1) Suc.prems(2)] by fastforce
  then have "is_bytes_left s1 < is_bytes_left s" if ok using that takingD [OF assms(2)] by simp
  then have "static_packed k func it s1 h \<noteq> None" if ok for h using that Suc by (intro Suc.IH) auto
  then show ?case by (simp add: f Let_def del: not_None_eq)
qed simp

lemma allocate_left: "is_bytes_left (fst (snd (allocate_field env p sz c s h))) = is_bytes_left s"
  by (simp add: allocate_field_def Let_def case_prod_beta set_error_def)

lemma initialize_total:
  assumes "decodable_types env rank" "decodable_field rank r f" "2 * r \<le> n"
  shows "initialize_pointer_field n env p f h \<noteq> None"
proof -
  have "pb_message_set_to_defaults n env (pf_ptr f) p h \<noteq> None" if "PB_LTYPE (pf_type f) = PB_LTYPE_SUBMESSAGE" for h
    using decodable_sub [OF assms(2) that] assms(3) by (intro defaults_total(2) [OF assms(1)]) simp
  then show ?thesis by (simp add: initialize_pointer_field_def del: not_None_eq)
qed

lemma pointer_packed_total:
  assumes "\<And>p. total_below b (func p)" "\<And>p. taking (func p)" "pf_data_size (it_field it) \<noteq> 0"
    and "\<And>p h. initialize_pointer_field n env p (it_field it) h \<noteq> None"
  shows "is_bytes_left s < k \<Longrightarrow> is_bytes_left s \<le> b \<Longrightarrow> pointer_packed k n env func it allocated s h \<noteq> None"
proof (induction k arbitrary: allocated s h)
  case (Suc k)
  let ?f = "it_field it" and ?count = "ld32 (h_mem h) (it_pSize it)"
  define grow where "grow \<longleftrightarrow> ucast ?count + 1 > allocated"
  define al where "al = (if grow then grown_size (is_bytes_left s) (pf_data_size ?f) allocated else allocated)"
  obtain ok s1 h1 where a: "(if grow then allocate_field env (it_pData it) (ucast (pf_data_size ?f)) al s h
      else (True, s, h)) = (ok, s1, h1)" by (metis prod_cases3)
  then have l: "is_bytes_left s1 = is_bytes_left s"
    using allocate_left [of env "it_pData it" "ucast (pf_data_size ?f)" al s h] by (auto split: if_splits)
  define item where "item = item_addr (ld64 (h_mem h1) (it_pData it)) ?f (ld32 (h_mem h1) (it_pSize it))"
  obtain h2 where h2: "initialize_pointer_field n env item ?f h1 = Some h2" using assms(4) by fastforce
  obtain ok3 s3 h3 where 3: "func item s1 h2 = Some (ok3, s3, h3)"
    using total_belowD [OF assms(1), of s1 item h2] Suc.prems(2) l by fastforce
  have "is_bytes_left s3 < is_bytes_left s" if ok3 using that takingD [OF assms(2)] 3 l by fastforce
  then have "pointer_packed k n env func it al s3 h \<noteq> None" if ok3 for h using that Suc by (intro Suc.IH) auto
  then show ?case using assms(3)
    unfolding pointer_packed.simps Let_def grow_def [symmetric] al_def [symmetric] a prod.case item_def [symmetric] h2 option.case 3
    by (simp del: not_None_eq)
qed simp

lemma static_total:
  assumes "decodable_types env rank" "decodable_field rank r (it_field it)" "2 * r \<le> n"
    "subs_total b rank r noinit" "is_bytes_left s \<le> b"
  shows "decode_static_field n env noinit wire_type it s h \<noteq> None"
proof -
  define func where "func = PB_DECODERS n env noinit (PB_LTYPE (pf_type (it_field it))) (it_field it)"
  have tot: "total_below b (func p)" for p unfolding func_def by (rule PB_DECODERS_total [OF assms(1-4)])
  have func: "func p s h \<noteq> None" for p h by (rule total_belowD [OF tot assms(5)])
  have packed: "(case pb_make_string_substream s of (None, s) \<Rightarrow> Some (False, s, h)
     | (Some sub, s) \<Rightarrow> (case static_packed (Suc (is_bytes_left sub)) func it sub h of None \<Rightarrow> None
         | Some (status, sub, h) \<Rightarrow> if is_bytes_left sub \<noteq> 0 then dec_error ''array overflow'' s h
             else Some (close_with s status sub h))) \<noteq> None"
    if l: "PB_LTYPE (pf_type (it_field it)) \<le> PB_LTYPE_LAST_PACKABLE"
  proof (rule make_total)
    fix sub s1 :: istream assume "is_bytes_left sub < is_bytes_left s"
    then have "static_packed (Suc (is_bytes_left sub)) func it sub h \<noteq> None"
      using assms(5) by (intro static_packed_total [OF tot]) (simp_all add: func_def taking_PB_DECODERS [OF l])
    then show "(case static_packed (Suc (is_bytes_left sub)) func it sub h of None \<Rightarrow> None
         | Some (status, sub, h) \<Rightarrow> if is_bytes_left sub \<noteq> 0 then dec_error ''array overflow'' s1 h
             else Some (close_with s1 status sub h)) \<noteq> None"
      by (simp add: dec_error_def option.case_eq_if case_prod_beta del: not_None_eq static_packed.simps)
  qed
  have "pb_message_set_to_defaults n env (pf_ptr (it_field it)) p h \<noteq> None"
    if "PB_LTYPE (pf_type (it_field it)) = PB_LTYPE_SUBMESSAGE" for p h
    using decodable_sub [OF assms(2) that] assms(3) by (intro defaults_total(2) [OF assms(1)]) simp
  then show ?thesis using func packed
    unfolding decode_static_field_def Let_def func_def [symmetric] dec_error_def
    by (simp add: option.case_eq_if del: not_None_eq)
qed

lemma pointer_single_total:
  assumes "decodable_types env rank" "decodable_field rank r (it_field it)" "2 * r + 1 \<le> n"
    "subs_total b rank r noinit" "is_bytes_left s \<le> b"
  shows "decode_pointer_single n env noinit it s h \<noteq> None"
proof -
  have n: "2 * r \<le> n" using assms(3) by simp
  define func where "func = PB_DECODERS n env noinit (PB_LTYPE (pf_type (it_field it))) (it_field it)"
  have func: "func p s h \<noteq> None" if "is_bytes_left s \<le> b" for p s h
    unfolding func_def by (rule total_belowD [OF PB_DECODERS_total [OF assms(1,2) n assms(4)] that])
  show ?thesis using release_total(1) [OF assms(1-3)] initialize_total [OF assms(1,2) n] assms(5) allocate_left
    unfolding decode_pointer_single_def Let_def func_def [symmetric]
    by (simp add: option.case_eq_if case_prod_beta func del: not_None_eq)
qed

lemma pointer_total:
  assumes "decodable_types env rank" "decodable_field rank r (it_field it)" "2 * r + 1 \<le> n"
    "subs_total b rank r noinit" "is_bytes_left s \<le> b" "PB_ATYPE (pf_type (it_field it)) = PB_ATYPE_POINTER"
  shows "decode_pointer_field n env noinit wire_type it s h \<noteq> None"
proof -
  have n: "2 * r \<le> n" using assms(3) by simp
  define func where "func = PB_DECODERS n env noinit (PB_LTYPE (pf_type (it_field it))) (it_field it)"
  have tot: "total_below b (func p)" for p unfolding func_def by (rule PB_DECODERS_total [OF assms(1,2) n assms(4)])
  have func: "func p s h \<noteq> None" if "is_bytes_left s \<le> b" for p s h by (rule total_belowD [OF tot that])
  note init = initialize_total [OF assms(1,2) n]
  have d: "pf_data_size (it_field it) \<noteq> 0" using assms(2,6) by (simp add: decodable_field_def)
  have packed: "(case pb_make_string_substream s of (None, s) \<Rightarrow> Some (False, s, h)
     | (Some sub, s) \<Rightarrow> (case pointer_packed (Suc (is_bytes_left sub)) n env func it al sub h of None \<Rightarrow> None
         | Some (too_many, status, sub, h) \<Rightarrow>
             Some (close_with (if too_many then s\<lparr>is_errmsg := Some ''too many array entries''\<rparr> else s) status sub h))) \<noteq> None"
    if l: "PB_LTYPE (pf_type (it_field it)) \<le> PB_LTYPE_LAST_PACKABLE" for al
  proof (rule make_total)
    fix sub s1 :: istream assume "is_bytes_left sub < is_bytes_left s"
    then have "pointer_packed (Suc (is_bytes_left sub)) n env func it al sub h \<noteq> None"
      using assms(5) by (intro pointer_packed_total [OF tot _ d init]) (simp_all add: func_def taking_PB_DECODERS [OF l])
    then show "(case pointer_packed (Suc (is_bytes_left sub)) n env func it al sub h of None \<Rightarrow> None
         | Some (too_many, status, sub, h) \<Rightarrow>
             Some (close_with (if too_many then s1\<lparr>is_errmsg := Some ''too many array entries''\<rparr> else s1) status sub h)) \<noteq> None"
      by (simp add: option.case_eq_if case_prod_beta del: not_None_eq pointer_packed.simps)
  qed
  then show ?thesis using pointer_single_total [OF assms(1-5)] init assms(5) allocate_left
    unfolding decode_pointer_field_def Let_def func_def [symmetric] dec_error_def
    by (simp add: option.case_eq_if case_prod_beta func del: not_None_eq)
qed

text \<open>
  A callback of a field of the message types stalls where it accepts a stream that is not empty and
  takes nothing of it. Nothing in \<open>pb.h\<close> forbids it, and the loop that calls the callback until the
  stream is empty has no other exit.
\<close>

definition stalls :: "dec_env \<Rightarrow> bool" where
  "stalls env \<longleftrightarrow> (\<exists>fds f fn arg s h. f \<in> set (de_fields env fds) \<and> PB_ATYPE (pf_type f) = PB_ATYPE_CALLBACK \<and>
     is_bytes_left s \<noteq> 0 \<and> fst (de_decode env fn f arg s h) \<and>
     is_bytes_left (fst (snd (de_decode env fn f arg s h))) = is_bytes_left s)"

lemma stalling_callback_stuck:
  assumes "is_bytes_left sub \<noteq> 0" "\<And>h. cb sub h = (True, sub, h)"
  shows "callback_loop k cb sub h = None"
  by (induction k) (simp_all add: assms)

lemma callback_loop_total:
  assumes "\<And>s h. within s (cb s h)" "\<And>s h. fst (cb s h) \<Longrightarrow> is_bytes_left s \<noteq> 0 \<Longrightarrow> is_bytes_left (fst (snd (cb s h))) < is_bytes_left s"
  shows "is_bytes_left s < k \<Longrightarrow> callback_loop k cb s h \<noteq> None"
proof (induction k arbitrary: s h)
  case (Suc k)
  obtain ok s1 h1 where cb: "cb s h = (ok, s1, h1)" by (metis prod_cases3)
  then have "is_bytes_left s1 \<le> is_bytes_left s" using assms(1) [of s h] by (simp add: within_def eats_left)
  then have "callback_loop k cb s1 h1 \<noteq> None" if ok "is_bytes_left s1 \<noteq> 0"
    using that assms(2) [of s h] cb Suc.prems by (intro Suc.IH) simp
  then show ?case by (simp add: cb del: not_None_eq)
qed simp

lemma callback_total:
  assumes "well_behaved env" "\<not> stalls env" "is_bytes_left s < n"
    and "it_field it \<in> set (de_fields env fds)" "PB_ATYPE (pf_type (it_field it)) = PB_ATYPE_CALLBACK"
  shows "decode_callback_field n env wire_type it s h \<noteq> None"
proof -
  define cb where "cb = de_decode env (ld64 (h_mem h) (it_pData it)) (it_field it) (it_pData it + 8)"
  have within: "within s (cb s h)" for s h using assms(1) by (simp add: cb_def well_behaved_def)
  have "(case pb_make_string_substream s of (None, s) \<Rightarrow> Some (False, s, h)
      | (Some sub, s) \<Rightarrow> (case callback_loop n cb sub h of None \<Rightarrow> None | Some (ok, sub, h) \<Rightarrow>
          if \<not> ok then dec_error ''callback failed'' s h else Some (close_with s True sub h))) \<noteq> None"
  proof (rule make_total)
    fix sub s1 :: istream assume "is_bytes_left sub < is_bytes_left s"
    moreover have "is_bytes_left (fst (snd (cb s h))) < is_bytes_left s" if "fst (cb s h)" "is_bytes_left s \<noteq> 0" for s h
      using assms(2,4,5) that eats_left [of True s] within [of s h] unfolding cb_def stalls_def within_def by fastforce
    ultimately have "callback_loop n cb sub h \<noteq> None"
      using assms(3) within by (intro callback_loop_total) auto
    then show "(case callback_loop n cb sub h of None \<Rightarrow> None | Some (ok, sub, h) \<Rightarrow>
          if \<not> ok then dec_error ''callback failed'' s1 h else Some (close_with s1 True sub h)) \<noteq> None"
      by (simp add: dec_error_def option.case_eq_if case_prod_beta del: not_None_eq)
  qed
  then show ?thesis unfolding decode_callback_field_def Let_def cb_def [symmetric]
    by (auto split: prod.split option.split simp del: not_None_eq)
qed

subsection \<open>Messages\<close>

lemma field_total:
  assumes "decodable_types env rank" "well_behaved env" "\<not> stalls env"
    "it_start it = de_fields env fds" "2 * rank fds + 1 \<le> n" "subs_total b rank (rank fds) noinit" "is_bytes_left s \<le> b" "b < n"
  shows "decode_field n env noinit wire_type it s h \<noteq> None"
proof -
  obtain ok1 it1 s1 h1 where u: "(if PB_HTYPE (pf_type (it_field it)) = PB_HTYPE_ONEOF then pb_release_union_field n env it s h
         else Some (True, it, s, h)) = Some (ok1, it1, s1, h1)"
    using release_union_total [OF assms(1,4,5), of s h] that
    by (cases "PB_HTYPE (pf_type (it_field it)) = PB_HTYPE_ONEOF") auto
  then have start: "it_start it1 = de_fields env fds" and "eats ok1 s s1"
    using assms(4) by (auto split: if_splits dest: release_union_eats release_union_start)
  then have b: "is_bytes_left s1 \<le> b" "is_bytes_left s1 < n" using eats_left [of ok1 s s1] assms(7,8) by simp_all
  note d = decodable_it [OF assms(1) start]
  have f: "it_field it1 \<in> set (de_fields env fds)" if "PB_ATYPE (pf_type (it_field it1)) = PB_ATYPE_CALLBACK"
    using that start by (auto simp: it_field_def field_at_def PB_LAST_FIELD_def PB_ATYPE_def pb_consts split: if_splits)
  have n: "2 * rank fds \<le> n" using assms(5) by simp
  show ?thesis
    using static_total [OF assms(1) d n assms(6) b(1)] pointer_total [OF assms(1) d assms(5,6) b(1)]
      callback_total [OF assms(2,3) b(2) f]
    unfolding decode_field_def u option.case prod.case
    by (simp add: Let_def dec_error_def option.map_disc_iff del: not_None_eq)
qed

lemma field_start:
  "decode_field n env noinit wire_type it s h = Some (ok, it', s', h') \<Longrightarrow> it_start it' = it_start it"
  by (auto simp: decode_field_def dest: release_union_start split: option.splits if_splits)

lemma known_start:
  "decode_known_field n env noinit wire_type l s h = Some (ok, l', s', h') \<Longrightarrow> it_start (dl_iter l') = it_start (dl_iter l)"
  by (auto simp: decode_known_field_def Let_def dest!: field_start split: if_splits)

lemma unknown_start:
  "decode_unknown_field n env noinit tag wire_type l s h = Some (ok, l', s', h') \<Longrightarrow> it_start (dl_iter l') = it_start (dl_iter l)"
  by (auto simp: decode_unknown_field_def Let_def skip_unknown_def find_extension_field_def case_prod_beta split: if_splits option.splits)

lemma no_extension:
  assumes "decodable_types env rank" "it_start it = de_fields env fds"
  shows "\<not> fst (find_extension_field it)"
proof
  assume "fst (find_extension_field it)"
  then have "PB_LTYPE (pf_type (it_field (snd (find_extension_field it)))) = PB_LTYPE_EXTENSION"
    unfolding find_extension_field_def by (rule find_loop_wanted)
  moreover have "decodable_field rank (rank fds) (it_field (snd (find_extension_field it)))"
    by (rule decodable_it [OF assms(1)]) (simp add: find_extension_field_def assms(2))
  ultimately show False using decodable_ext by blast
qed

text \<open>A field number has 29 bits, so that it is below the start of an extension range that was not found.\<close>

lemma tag_bits: "pb_decode_tag s = ((Some (wire_type, tag), eof), s') \<Longrightarrow> tag < - 1"
proof -
  assume "pb_decode_tag s = ((Some (wire_type, tag), eof), s')"
  then obtain temp :: u32 where "tag = drop_bit 3 temp" by (auto simp: pb_decode_tag_def split: prod.splits option.splits if_splits)
  then have "unat tag = unat temp div 8" by (simp add: drop_bit_eq_div unat_div)
  moreover have "unat temp < 2 ^ 29 * 8" by (rule less_le_trans [OF unat_bound]) simp
  ultimately have "unat tag < 2 ^ 29" by (simp add: less_mult_imp_div_less)
  then show ?thesis by (simp add: word_less_nat_alt unsigned_minus_1_eq_mask mask_numeral)
qed

lemma loop_total:
  assumes "decodable_types env rank" "well_behaved env" "\<not> stalls env" "confined noinit"
    "2 * rank fds + 1 \<le> n" "subs_total b rank (rank fds) noinit" "b < n"
  shows "it_start (dl_iter l) = de_fields env fds \<Longrightarrow> is_bytes_left s < k \<Longrightarrow> is_bytes_left s \<le> b \<Longrightarrow>
    decode_loop k n env noinit l s h \<noteq> None"
proof (induction k arbitrary: l s h)
  case (Suc k)
  obtain r eof s1 where t: "pb_decode_tag s = ((r, eof), s1)" by (metis prod.exhaust)
  show ?case
  proof (cases r)
    case None
    then show ?thesis by (simp add: t del: not_None_eq)
  next
    case (Some x)
    then obtain wt tag where r: "r = Some (wt, tag)" by (cases x) auto
    have s1: "is_bytes_left s1 < is_bytes_left s" using tag_left t r by blast
    obtain found it where f: "pb_field_iter_find tag (dl_iter l) = (found, it)" by (metis prod.exhaust)
    define l1 where "l1 = l\<lparr>dl_iter := it\<rparr>"
    have st: "it_start (dl_iter l1) = de_fields env fds" using Suc.prems(1) f find_start [of tag "dl_iter l"] by (simp add: l1_def)
    have known: "decode_known_field n env noinit wt l1 s1 h \<noteq> None"
      unfolding decode_known_field_def Let_def
      using field_total [OF assms(1-3) _ assms(5,6) _ assms(7), of _ s1] s1 Suc.prems(3) st
      by (simp add: option.map_disc_iff del: not_None_eq)
    have unknown: "decode_unknown_field n env noinit tag wt l1 s1 h \<noteq> None"
      unfolding decode_unknown_field_def Let_def using no_extension [OF assms(1) st] tag_bits [OF t [unfolded r]]
      by (auto simp: case_prod_beta skip_unknown_def)
    obtain ok2 l2 s2 h2 where 2: "(if found then decode_known_field n env noinit wt l1 s1 h
        else decode_unknown_field n env noinit tag wt l1 s1 h) = Some (ok2, l2, s2, h2)"
      using known unknown by (cases found) auto
    have "it_start (dl_iter l2) = de_fields env fds" "is_bytes_left s2 \<le> is_bytes_left s1"
      using 2 st known_start unknown_start eats_left [OF decode_known_eats [OF assms(2,4)]] eats_left [OF decode_unknown_eats [OF assms(2,4)]]
      by (auto split: if_splits)
    then have "decode_loop k n env noinit l2 s2 h2 \<noteq> None" using s1 Suc.prems by (intro Suc.IH) simp_all
    then show ?thesis unfolding decode_loop.simps t r option.case prod.case f Let_def l1_def [symmetric] 2
      by (simp del: not_None_eq)
  qed
qed simp

lemma noinit_total:
  assumes "decodable_types env rank" "well_behaved env" "\<not> stalls env"
  shows "2 * rank fds + b + 2 \<le> n \<Longrightarrow> total_below b (pb_decode_noinit n env fds dest)"
proof (induction n arbitrary: fds dest)
  case (Suc n)
  have sub: "subs_total b rank (rank fds) (pb_decode_noinit n env)"
    unfolding subs_total_def using Suc.prems by (auto intro!: Suc.IH)
  show ?case unfolding total_below_def
  proof (intro allI impI)
    fix s :: istream and h assume "is_bytes_left s \<le> b"
    then have "decode_loop (Suc (is_bytes_left s)) n env (pb_decode_noinit n env) l s h' \<noteq> None"
      if "it_start (dl_iter l) = de_fields env fds" for l h'
      using that Suc.prems by (intro loop_total [OF assms confined_noinit [OF assms(2)] _ sub]) auto
    then show "pb_decode_noinit (Suc n) env fds dest s h \<noteq> None"
      by (simp add: noinit_body_def Let_def option.case_eq_if case_prod_beta dec_error_def del: not_None_eq decode_loop.simps)
  qed
qed simp

lemma decode_total:
  assumes "decodable_types env rank" "well_behaved env" "\<not> stalls env" "2 * rank fds + is_bytes_left s + 2 \<le> n"
  shows "pb_decode n env fds dest s h \<noteq> None"
  unfolding pb_decode_def
proof (rule total_belowD)
  have "total_below (is_bytes_left s) (pb_decode_noinit n env fds dest)" by (rule noinit_total [OF assms])
  then show "total_below (is_bytes_left s) (pb_decode_with n env (pb_decode_noinit n env) fds dest)"
    using assms(4) by (intro decode_with_total [OF assms(1)]) simp_all
qed simp

end
