(* ===== verification/Pb_Field_Codec.thy ===== *)
theory Pb_Field_Codec
  imports Pb_Decode Pb_Codec
begin

text \<open>
  From memory to memory: a field that the encoder has written from one structure is what the decoder
  stores in another one. The lemmas on loads and stores of the little-endian memory are here, too.
\<close>

subsection \<open>Loads and stores\<close>

lemma length_le_bytes [simp]: "length (le_bytes n v) = n"
  by (induction n arbitrary: v) simp_all

lemma le_nat_bound: "le_nat bs < 256 ^ length bs"
proof (induction bs)
  case (Cons b bs)
  have "unat b < 256" using unat_bound [of b] by simp
  with Cons have "unat b + 256 * le_nat bs < 256 * 256 ^ length bs" by linarith
  then show ?case by simp
qed simp

lemma le_bytes_le_nat: "le_bytes (length bs) (le_nat bs) = bs"
proof (induction bs)
  case (Cons b bs)
  have b: "unat b < 256" using unat_bound [of b] by simp
  then have "(unat b + 256 * le_nat bs) mod 256 = unat b" "(unat b + 256 * le_nat bs) div 256 = le_nat bs" by simp_all
  then show ?case using Cons by (simp add: word_unat_eq_iff)
qed simp

lemma le_bytes_mod: "le_bytes n (v mod 256 ^ n) = le_bytes n v"
proof (induction n arbitrary: v)
  case (Suc n)
  have "(v mod 256 ^ Suc n) mod 256 = v mod 256" by (simp add: mod_mod_cancel)
  moreover have "(v mod 256 ^ Suc n) div 256 = (v div 256) mod 256 ^ n"
    by (simp add: mod_mult2_eq)
  ultimately show ?case using Suc [of "v div 256"] by simp
qed simp

lemma le_nat_le_bytes: "le_nat (le_bytes n v) = v mod 256 ^ n"
  using le_bytes_le_nat by (induction n arbitrary: v) (simp_all add: mod_mult2_eq)

lemma st_bytes_outside:
  "(\<And>i. i < length bs \<Longrightarrow> q \<noteq> p + of_nat i) \<Longrightarrow> st_bytes p bs m q = m q"
proof (induction p bs m rule: st_bytes.induct)
  case (2 p b bs m)
  have "st_bytes (p + 1) bs (m(p := b)) q = (m(p := b)) q"
  proof (rule "2.IH")
    fix i assume "i < length bs"
    then show "q \<noteq> p + 1 + of_nat i" using 2(2) [of "Suc i"] by (simp add: add.assoc)
  qed
  then show ?case using 2(2) [of 0] by simp
qed simp

text \<open>A run of bytes that does not wrap around is read back.\<close>

lemma st_bytes_inside:
  "length bs \<le> 2 ^ 64 \<Longrightarrow> i < length bs \<Longrightarrow> st_bytes p bs m (p + of_nat i) = bs ! i"
proof (induction p bs m arbitrary: i rule: st_bytes.induct)
  case (2 p b bs m)
  show ?case
  proof (cases i)
    case 0
    have "p \<noteq> p + 1 + of_nat j" if "j < length bs" for j
    proof
      assume "p = p + 1 + of_nat j"
      then have "(of_nat (Suc j) :: u64) = 0" by (simp add: add.assoc)
      then have "2 ^ 64 dvd Suc j" unfolding word_of_nat_eq_0_iff by simp
      then show False using that 2(2) by (auto dest: dvd_imp_le)
    qed
    then show ?thesis using 0 st_bytes_outside [of bs p "p + 1"] by simp
  next
    case (Suc j)
    then show ?thesis using 2(1) [of j] 2(2,3) by (simp add: add.assoc fun_upd_def)
  qed
qed simp

lemma mem_bytes_st: "length bs \<le> 2 ^ 64 \<Longrightarrow> mem_bytes (st_bytes p bs m) p (length bs) = bs"
  by (rule nth_equalityI) (simp_all add: mem_bytes_def st_bytes_inside)

lemma ld64_poke64 [simp]: "ld64 (h_mem (poke64 p v h)) p = v"
proof -
  have "mem_bytes (st_bytes p (le_bytes 8 (unat v)) (h_mem h)) p 8 = le_bytes 8 (unat v)"
    using mem_bytes_st [of "le_bytes 8 (unat v)"] by simp
  moreover have "unat v < 256 ^ 8" using unat_bound [of v] by simp
  ultimately show ?thesis by (simp add: ld64_def poke64_def poke_def le_nat_le_bytes)
qed

subsection \<open>Allocation\<close>

text \<open>The division guards the multiplication.\<close>

lemma no_overflow:
  fixes a d :: u64
  assumes "a \<noteq> 0"
  shows "- 1 div a < d \<longleftrightarrow> 2 ^ 64 \<le> unat a * unat d"
proof -
  have a: "0 < unat a" using assms by (simp add: unat_gt_0)
  have "unat (- 1 div a) = (2 ^ 64 - 1) div unat a" by (simp add: unat_div unsigned_minus_1_eq_mask mask_eq_exp_minus_1)
  then have "- 1 div a < d \<longleftrightarrow> (2 ^ 64 - 1) div unat a < unat d" by (simp add: word_less_nat_alt)
  also have "\<dots> \<longleftrightarrow> 2 ^ 64 - 1 < unat d * unat a" using a by (rule div_less_iff_less_mult)
  also have "\<dots> \<longleftrightarrow> 2 ^ 64 \<le> unat a * unat d" by (simp add: mult.commute) linarith
  finally show ?thesis .
qed

lemma small_product:
  fixes a d :: u64
  assumes "\<not> d \<ge> push_bit 32 1" "\<not> a \<ge> push_bit 32 1"
  shows "unat a * unat d < 2 ^ 64"
proof -
  have "unat (push_bit 32 1 :: u64) = 2 ^ 32" by (simp add: push_bit_eq_mult)
  then have "unat a < 2 ^ 32" "unat d < 2 ^ 32" using assms by (simp_all add: word_le_nat_alt not_le)
  then have "unat a * unat d < 2 ^ 32 * 2 ^ 32" by (intro mult_strict_mono) simp_all
  then show ?thesis by simp
qed

lemma allocate_request:
  assumes "allocate_field env pData data_size array_size s h = (ok, s', h')"
  defines "nbytes \<equiv> unat array_size * unat data_size"
  shows "if ok then 0 < nbytes \<and> nbytes < 2 ^ 64 \<and> s' = s \<and> de_realloc env (ld64 (h_mem h) pData) nbytes (h_live h) \<noteq> 0 \<and>
        ld64 (h_mem h') pData = de_realloc env (ld64 (h_mem h) pData) nbytes (h_live h) \<and>
        map_of (h_live h') (ld64 (h_mem h') pData) = Some nbytes
      else h' = h \<and> (nbytes = 0 \<or> 2 ^ 64 \<le> nbytes \<or> de_realloc env (ld64 (h_mem h) pData) nbytes (h_live h) = 0)"
proof -
  let ?bad = "(data_size \<ge> push_bit 32 1 \<or> array_size \<ge> push_bit 32 1) \<and> (- 1 div array_size < data_size)"
  show ?thesis
  proof (cases "data_size = 0 \<or> array_size = 0")
    case True
    then show ?thesis using assms(1) by (auto simp: allocate_field_def Let_def nbytes_def)
  next
    case False
    then have nz: "0 < nbytes" by (simp add: nbytes_def unat_gt_0)
    have bad: "?bad \<longleftrightarrow> 2 ^ 64 \<le> nbytes"
      using small_product [of data_size array_size] no_overflow [of array_size data_size] False
      unfolding nbytes_def by (metis linorder_not_le)
    show ?thesis
    proof (cases ?bad)
      case True
      then show ?thesis using assms(1) False bad by (auto simp: allocate_field_def Let_def)
    next
      case ok: False
      then have lt: "nbytes < 2 ^ 64" using bad linorder_not_le by blast
      have t: "unat (array_size * data_size) = nbytes" using lt by (simp add: nbytes_def unat_word_ariths)
      have "poke64 p v x = x\<lparr>h_mem := h_mem (poke64 p v x)\<rparr>" for p v x by (simp add: poke64_def poke_def)
      then have live: "h_live (poke64 p v x) = h_live x" for p v x by (simp add: poke64_def poke_def)
      show ?thesis using assms(1) False ok nz lt
        unfolding allocate_field_def Let_def pb_realloc_def t
        by (auto simp: live split: if_splits)
    qed
  qed
qed

subsection \<open>Integer fields\<close>

text \<open>The types and sizes that the generator gives to integer fields.\<close>

definition integer_field :: "pb_field \<Rightarrow> bool" where
  "integer_field f \<longleftrightarrow>
    PB_LTYPE (pf_type f) \<in> {PB_LTYPE_VARINT, PB_LTYPE_UVARINT, PB_LTYPE_SVARINT} \<and> pf_data_size f \<in> {1, 2, 4, 8} \<or>
    PB_LTYPE (pf_type f) = PB_LTYPE_FIXED32 \<and> pf_data_size f = 4 \<or>
    PB_LTYPE (pf_type f) = PB_LTYPE_FIXED64 \<and> pf_data_size f = 8"

lemma ld_bytes:
  "le_bytes 1 (unat (ld8 m p)) = mem_bytes m p 1" "le_bytes 2 (unat (ld16 m p)) = mem_bytes m p 2"
  "le_bytes 4 (unat (ld32 m p)) = mem_bytes m p 4" "le_bytes 8 (unat (ld64 m p)) = mem_bytes m p 8"
proof -
  have "le_nat (mem_bytes m p n) < 256 ^ n" for n using le_nat_bound [of "mem_bytes m p n"] by simp
  from this [of 2] this [of 4] this [of 8]
  have "unat (ld16 m p) = le_nat (mem_bytes m p 2)" "unat (ld32 m p) = le_nat (mem_bytes m p 4)"
    "unat (ld64 m p) = le_nat (mem_bytes m p 8)"
    by (simp_all add: ld16_def ld32_def ld64_def unat_of_nat)
  then show "le_bytes 1 (unat (ld8 m p)) = mem_bytes m p 1" "le_bytes 2 (unat (ld16 m p)) = mem_bytes m p 2"
      "le_bytes 4 (unat (ld32 m p)) = mem_bytes m p 4" "le_bytes 8 (unat (ld64 m p)) = mem_bytes m p 8"
    using le_bytes_le_nat [of "mem_bytes m p 2"] le_bytes_le_nat [of "mem_bytes m p 4"] le_bytes_le_nat [of "mem_bytes m p 8"]
    by (simp_all add: ld8_def mem_bytes_def)
qed

lemma ucast_scast_back [simp]:
  "(ucast (scast (x :: u32) :: u64) :: u32) = x" "(ucast (scast (y :: u16) :: u64) :: u16) = y"
  "(ucast (scast (z :: u8) :: u64) :: u8) = z" "(ucast (ucast x :: u64) :: u32) = x"
  "(ucast (ucast y :: u64) :: u16) = y" "(ucast (ucast z :: u64) :: u8) = z"
  "(scast (ucast (scast y :: u64) :: u32) :: u64) = scast y" "(scast (ucast (scast z :: u64) :: u32) :: u64) = scast z"
  by (rule bit_word_eqI; auto simp: bit_simps min_def not_le le_less_Suc_eq less_Suc_eq_le dest: le_antisym)+

lemma le_bytes_ucast:
  fixes v :: u64
  shows "le_bytes 1 (unat v) = le_bytes 1 (unat (ucast v :: u8))" "le_bytes 2 (unat v) = le_bytes 2 (unat (ucast v :: u16))"
    "le_bytes 4 (unat v) = le_bytes 4 (unat (ucast v :: u32))"
  using le_bytes_mod [of 1 "unat v"] le_bytes_mod [of 2 "unat v"] le_bytes_mod [of 4 "unat v"]
  by (simp_all add: unsigned_ucast_eq take_bit_eq_mod)

declare le_bytes.simps [simp del]

lemmas one_byte = ld_bytes(1) [unfolded One_nat_def] le_bytes_ucast(1) [unfolded One_nat_def]

lemma signed_field:
  assumes "ld_signed m d src = Some v"
  shows "clamp_signed d v = Some v" "(if d = 8 then v else scast (ucast v :: u32)) = v"
    "le_bytes (unat d) (unat v) = mem_bytes m src (unat d)"
  using assms ld_bytes [of m src]
  by (auto simp: ld_signed_def clamp_signed_def le_bytes_ucast one_byte split: if_splits)

lemma unsigned_field:
  assumes "ld_unsigned m d src = Some v"
  shows "clamp_unsigned d v = Some v" "le_bytes (unat d) (unat v) = mem_bytes m src (unat d)"
  using assms ld_bytes [of m src]
  by (auto simp: ld_unsigned_def clamp_unsigned_def le_bytes_ucast one_byte split: if_splits)

lemma integer_sizes: "d \<in> {1, 2, 4, 8} \<Longrightarrow> ld_signed m d p \<noteq> None \<and> ld_unsigned m d p \<noteq> None"
  by (auto simp: ld_signed_def ld_unsigned_def)

text \<open>\<open>enc\<close> writes a field in such a way that \<open>dec\<close> stores its \<open>n\<close> bytes.\<close>

definition copies :: "(ostream \<Rightarrow> enc_result) \<Rightarrow> (istream \<Rightarrow> heap \<Rightarrow> dec_result) \<Rightarrow> (heap \<Rightarrow> heap) \<Rightarrow> bool" where
  "copies enc dec upd \<longleftrightarrow> (\<exists>out. emits enc out \<and>
     (\<forall>s h rest. over_buffer s \<and> view s = out @ rest \<longrightarrow> dec s h = Some (True, advance (length out) s, upd h)))"

lemma copies_varint:
  "ld_signed m (pf_data_size f) src = Some v \<Longrightarrow> copies (\<lambda>s. Some (pb_enc_varint m f src s))
     (\<lambda>s h. Some (pb_dec_varint f dest s h)) (poke dest (mem_bytes m src (unat (pf_data_size f))))"
  unfolding copies_def pb_enc_varint_def pb_dec_varint_def
  by (rule exI [of _ "varint_bytes v"])
    (auto simp: emits_varint varint_reads store_clamped_def signed_field Let_def)

lemma copies_uvarint:
  "ld_unsigned m (pf_data_size f) src = Some v \<Longrightarrow> copies (\<lambda>s. Some (pb_enc_uvarint m f src s))
     (\<lambda>s h. Some (pb_dec_uvarint f dest s h)) (poke dest (mem_bytes m src (unat (pf_data_size f))))"
  unfolding copies_def pb_enc_uvarint_def pb_dec_uvarint_def
  by (rule exI [of _ "varint_bytes v"])
    (auto simp: emits_varint varint_reads store_clamped_def unsigned_field Let_def)

lemma svarint_reads:
  assumes "over_buffer s" "view s = varint_bytes (zigzag v) @ rest"
  shows "pb_decode_svarint s = (Some v, advance (length (varint_bytes (zigzag v))) s)"
  unfolding pb_decode_svarint_def varint_reads [OF assms] by (simp add: svarint_of_zigzag)

lemma copies_svarint:
  "ld_signed m (pf_data_size f) src = Some v \<Longrightarrow> copies (\<lambda>s. Some (pb_enc_svarint m f src s))
     (\<lambda>s h. Some (pb_dec_svarint f dest s h)) (poke dest (mem_bytes m src (unat (pf_data_size f))))"
  unfolding copies_def pb_enc_svarint_def pb_dec_svarint_def pb_encode_svarint_def
  by (rule exI [of _ "varint_bytes (zigzag v)"])
    (auto simp: emits_varint svarint_reads store_clamped_def signed_field Let_def)

lemma fixed_reads_back:
  "over_buffer s \<Longrightarrow> view s = fixed32_bytes v @ rest \<Longrightarrow> pb_decode_fixed32 s = (Some v, advance 4 s)"
  "over_buffer s \<Longrightarrow> view s = fixed64_bytes w @ rest \<Longrightarrow> pb_decode_fixed64 s = (Some w, advance 8 s)"
  using length_view [of s] fixed32_reads [of s] fixed64_reads [of s]
  by (simp_all add: fixed_bytes_split(1) [symmetric] fixed_bytes_split(2) [symmetric],
      simp_all add: fixed_bytes_split le_or_split take_bit_word_eq_self)

lemma copies_fixed:
  "copies (\<lambda>s. Some (pb_enc_fixed32 m f src s)) (\<lambda>s h. Some (pb_dec_fixed32 f dest s h)) (poke dest (mem_bytes m src 4))"
  "copies (\<lambda>s. Some (pb_enc_fixed64 m f src s)) (\<lambda>s h. Some (pb_dec_fixed64 f dest s h)) (poke dest (mem_bytes m src 8))"
  unfolding copies_def pb_enc_fixed32_def pb_dec_fixed32_def pb_enc_fixed64_def pb_dec_fixed64_def
  by (rule exI [of _ "fixed32_bytes (ld32 m src)"],
      auto simp: emits_fixed32_bytes fixed_reads_back poke32_def ld_bytes,
      rule exI [of _ "fixed64_bytes (ld64 m src)"],
      auto simp: emits_fixed64_bytes fixed_reads_back poke64_def ld_bytes)

lemma copies_integer:
  assumes "integer_field f"
  shows "copies (PB_ENCODERS enc m (PB_LTYPE (pf_type f)) f src) (PB_DECODERS n env noinit (PB_LTYPE (pf_type f)) f dest)
     (poke dest (mem_bytes m src (unat (pf_data_size f))))"
proof -
  note t = PB_ENCODERS_def [abs_def] PB_DECODERS_def [abs_def]
  consider (v) "PB_LTYPE (pf_type f) \<in> {PB_LTYPE_VARINT, PB_LTYPE_UVARINT, PB_LTYPE_SVARINT}" "pf_data_size f \<in> {1, 2, 4, 8}"
    | (f32) "PB_LTYPE (pf_type f) = PB_LTYPE_FIXED32" "pf_data_size f = 4"
    | (f64) "PB_LTYPE (pf_type f) = PB_LTYPE_FIXED64" "pf_data_size f = 8"
    using assms unfolding integer_field_def by blast
  then show ?thesis
  proof cases
    case v
    from integer_sizes [OF v(2), of m src] obtain x y where
      "ld_signed m (pf_data_size f) src = Some x" "ld_unsigned m (pf_data_size f) src = Some y" by blast
    with v(1) show ?thesis using copies_varint copies_uvarint copies_svarint by (auto simp: t pb_consts)
  next
    case f32
    then show ?thesis using copies_fixed(1) [of m f src dest] by (simp add: t pb_consts)
  next
    case f64
    then show ?thesis using copies_fixed(2) [of m f src dest] by (simp add: t pb_consts)
  qed
qed

subsection \<open>Strings\<close>

lemma size_max: "\<not> n > PB_SIZE_MAX"
  by (simp add: PB_SIZE_MAX_def not_less)

lemma pb_read_to_buffer:
  "over_buffer s \<Longrightarrow> view s = data @ rest \<Longrightarrow> pb_read_to p (length data) s h = (True, advance (length data) s, poke p data h)"
  using length_view [of s] by (simp add: pb_read_to_def pb_read_buffer)

lemma string_prefix:
  fixes n :: u32
  assumes "over_buffer s" "view s = (varint_bytes (ucast n) @ data) @ rest"
  defines "k \<equiv> length (varint_bytes (ucast n))"
  shows "pb_decode_varint32 s = (Some n, advance k s)" "over_buffer (advance k s)" "view (advance k s) = data @ rest"
  using varint32_reads [OF assms(1), of n "data @ rest"] assms by simp_all

lemma copies_bytes:
  assumes "PB_ATYPE (pf_type f) = PB_ATYPE_STATIC" "src \<noteq> 0" "unat (ld32 m src) + 4 \<le> unat (pf_data_size f)"
  shows "copies (\<lambda>s. Some (pb_enc_bytes m f src s)) (\<lambda>s h. Some (pb_dec_bytes env f dest s h))
    (\<lambda>h. poke (dest + 4) (mem_bytes m (src + 4) (unat (ld32 m src))) (poke32 dest (ld32 m src) h))"
proof -
  let ?n = "ld32 m src" and ?d = "pf_data_size f"
  let ?data = "mem_bytes m (src + 4) (unat ?n)"
  have "unat ?n + 4 < 18446744073709551616" using unat_u32_less [of ?n] by linarith
  then have n: "unat (ucast ?n + 4 :: u64) = unat ?n + 4" by (simp add: unat_word_ariths)
  have d: "unat (ucast ?d - 4 :: u64) = unat ?d - 4" using assms(3) by (simp add: unat_sub word_le_nat_alt)
  have "\<not> (ucast ?n :: u64) > ucast ?d - 4" using assms(3) d by (simp add: word_less_nat_alt)
  then have e: "emits (\<lambda>s. Some (pb_enc_bytes m f src s)) (varint_bytes (ucast ?n) @ ?data)"
    using assms(2) by (simp add: pb_enc_bytes_def emits_string)
  have p: "PB_ATYPE (pf_type f) \<noteq> PB_ATYPE_POINTER" using assms(1) by (simp add: pb_consts)
  have c: "\<not> (ucast ?n :: u64) > ucast ?n + 4" "\<not> (ucast ?n + 4 :: u64) > ucast ?d" "\<not> ?n > PB_SIZE_MAX"
    using n assms(3) size_max by (simp_all add: word_less_nat_alt)
  have "pb_dec_bytes env f dest s h = (True, advance (length (varint_bytes (ucast ?n) @ ?data)) s, poke (dest + 4) ?data (poke32 dest ?n h))"
    if s: "over_buffer s" "view s = (varint_bytes (ucast ?n) @ ?data) @ rest" for s h rest
    using pb_read_to_buffer [OF string_prefix(2,3) [OF s], of "dest + 4" "poke32 dest ?n h"] p c
    unfolding pb_dec_bytes_def string_prefix(1) [OF s] by (simp add: add.commute)
  with e show ?thesis unfolding copies_def by blast
qed

lemma copies_string:
  assumes "PB_ATYPE (pf_type f) = PB_ATYPE_STATIC" "src \<noteq> 0" "string_length m src (unat (pf_data_size f)) < unat (pf_data_size f)"
  defines "n \<equiv> string_length m src (unat (pf_data_size f))"
  shows "copies (\<lambda>s. Some (pb_enc_string m f src s)) (\<lambda>s h. Some (pb_dec_string env f dest s h))
    (\<lambda>h. poke (dest + of_nat n) [0] (poke dest (mem_bytes m src n) h))"
proof -
  let ?w = "of_nat n :: u32" and ?d = "pf_data_size f"
  let ?data = "mem_bytes m src n"
  have b: "n + 1 < 4294967296" using assms(3) unat_u32_less [of ?d] unfolding n_def by linarith
  then have w: "unat ?w = n" "ucast ?w = (of_nat n :: u64)"
    by (simp_all add: unat_of_nat word_unat_eq_iff)
  have p: "PB_ATYPE (pf_type f) \<noteq> PB_ATYPE_POINTER" using assms(1) by (simp add: pb_consts)
  have e: "emits (\<lambda>s. Some (pb_enc_string m f src s)) (varint_bytes (ucast ?w) @ ?data)"
    using p assms(2) b by (simp add: pb_enc_string_def n_def [symmetric] emits_string unat_of_nat w(2))
  have w1: "unat (?w + 1) = n + 1" using b w(1) by (simp add: unat_word_ariths)
  have c: "\<not> (ucast (?w + 1) :: u64) < ucast ?w" "\<not> (ucast (?w + 1) :: u64) > ucast ?d"
    using w(1) w1 assms(3) unfolding word_less_nat_alt unat_ucast_u32_u64 n_def by simp_all
  have "pb_dec_string env f dest s h = (True, advance (length (varint_bytes (ucast ?w) @ ?data)) s, poke (dest + of_nat n) [0] (poke dest ?data h))"
    if s: "over_buffer s" "view s = (varint_bytes (ucast ?w) @ ?data) @ rest" for s h rest
    using pb_read_to_buffer [OF string_prefix(2,3) [OF s], of dest h] p c
    unfolding pb_dec_string_def string_prefix(1) [OF s] by (simp add: add.commute read_string_to_def w)
  with e show ?thesis unfolding copies_def by blast
qed

lemma copies_fixed_length:
  "copies (\<lambda>s. Some (pb_enc_fixed_length_bytes m f src s)) (\<lambda>s h. Some (pb_dec_fixed_length_bytes f dest s h))
    (poke dest (mem_bytes m src (unat (pf_data_size f))))"
proof -
  let ?d = "pf_data_size f"
  let ?data = "mem_bytes m src (unat ?d)"
  have e: "emits (\<lambda>s. Some (pb_enc_fixed_length_bytes m f src s)) (varint_bytes (ucast ?d) @ ?data)"
    unfolding pb_enc_fixed_length_bytes_def by (rule emits_string) simp
  have "pb_dec_fixed_length_bytes f dest s h = (True, advance (length (varint_bytes (ucast ?d) @ ?data)) s, poke dest ?data h)"
    if s: "over_buffer s" "view s = (varint_bytes (ucast ?d) @ ?data) @ rest" for s h rest
    using pb_read_to_buffer [OF string_prefix(2,3) [OF s], of dest h] size_max
    unfolding pb_dec_fixed_length_bytes_def string_prefix(1) [OF s]
    by (auto simp: add.commute memset0_def mem_bytes_def)
  with e show ?thesis unfolding copies_def by blast
qed

lemma copies_bool:
  "copies (\<lambda>s. Some (pb_enc_bool m f src s)) (\<lambda>s h. Some (pb_dec_bool f dest s h)) (poke dest [if m src \<noteq> 0 then 1 else 0])"
proof -
  let ?v = "if m src \<noteq> 0 then 1 else 0 :: u32"
  have "emits (\<lambda>s. Some (pb_enc_bool m f src s)) (varint_bytes (ucast ?v))"
    using emits_varint [of "ucast ?v"] by (simp add: pb_enc_bool_def safe_read_bool_def ld8_def if_distrib cong: if_cong)
  moreover have "pb_dec_bool f dest s h = (True, advance (length (varint_bytes (ucast ?v))) s, poke dest [if m src \<noteq> 0 then 1 else 0] h)"
    if "over_buffer s" "view s = varint_bytes (ucast ?v) @ rest" for s h rest
    unfolding pb_dec_bool_def varint32_reads [OF that] by simp
  ultimately show ?thesis unfolding copies_def by blast
qed

subsection \<open>Static fields\<close>

text \<open>The structure at \<open>src\<close> holds a value of the type of the field, and what a copy of it is.\<close>

definition holds_value :: "mem \<Rightarrow> pb_field \<Rightarrow> addr \<Rightarrow> bool" where
  "holds_value m f src \<longleftrightarrow>
    (let l = PB_LTYPE (pf_type f) in
     l = PB_LTYPE_BOOL \<or> l = PB_LTYPE_FIXED_LENGTH_BYTES \<or> integer_field f \<or>
     l = PB_LTYPE_BYTES \<and> src \<noteq> 0 \<and> unat (ld32 m src) + 4 \<le> unat (pf_data_size f) \<or>
     l = PB_LTYPE_STRING \<and> src \<noteq> 0 \<and> string_length m src (unat (pf_data_size f)) < unat (pf_data_size f))"

definition copy_field :: "mem \<Rightarrow> pb_field \<Rightarrow> addr \<Rightarrow> addr \<Rightarrow> heap \<Rightarrow> heap" where
  "copy_field m f src dest h =
    (let l = PB_LTYPE (pf_type f); n = string_length m src (unat (pf_data_size f)) in
     if l = PB_LTYPE_BOOL then poke dest [if m src \<noteq> 0 then 1 else 0] h
     else if l = PB_LTYPE_BYTES
     then poke (dest + 4) (mem_bytes m (src + 4) (unat (ld32 m src))) (poke32 dest (ld32 m src) h)
     else if l = PB_LTYPE_STRING then poke (dest + of_nat n) [0] (poke dest (mem_bytes m src n) h)
     else poke dest (mem_bytes m src (unat (pf_data_size f))) h)"

lemma copies_static:
  assumes "PB_ATYPE (pf_type f) = PB_ATYPE_STATIC" "holds_value m f src"
  shows "copies (PB_ENCODERS enc m (PB_LTYPE (pf_type f)) f src) (PB_DECODERS n env noinit (PB_LTYPE (pf_type f)) f dest)
     (copy_field m f src dest)"
proof -
  note t = PB_ENCODERS_def [abs_def] PB_DECODERS_def [abs_def] copy_field_def [abs_def]
  show ?thesis
  proof (cases "integer_field f")
    case True
    then have "copy_field m f src dest = poke dest (mem_bytes m src (unat (pf_data_size f)))"
      by (rule_tac ext) (auto simp: copy_field_def integer_field_def pb_consts)
    then show ?thesis using copies_integer [OF True] by simp
  next
    case False
    then show ?thesis using assms copies_bool [of m f src dest] copies_bytes [OF assms(1), of src m env dest]
        copies_string [OF assms(1), of src m env dest] copies_fixed_length [of m f src dest]
      by (auto simp: holds_value_def t pb_consts Let_def)
  qed
qed

end
