(* ===== verification/Pb_Required.thy ===== *)
theory Pb_Required
  imports Pb_Decode
begin

text \<open>
  The bookkeeping of required fields in \<open>pb_decode_noinit\<close>: the bit field \<open>fields_seen\<close> is the set of
  the indices that have been marked, and the check at the end holds when that set is complete.
\<close>

definition seen_index :: "u32 list \<Rightarrow> nat \<Rightarrow> bool" where
  "seen_index seen i \<longleftrightarrow> bit (seen ! (i div 32)) (i mod 32)"

lemma unat_low5: "unat (i AND 31 :: u32) = unat i mod 32"
proof -
  have "i AND 31 = take_bit 5 i" by (simp add: take_bit_eq_mask mask_numeral)
  then show ?thesis by (simp add: take_bit_eq_mod unat_mod)
qed

lemma unat_high5: "unat (drop_bit 5 i :: u32) = unat i div 32"
  by (simp add: drop_bit_eq_div unat_div)

lemma mark_length [simp]: "length (mark_seen idx seen) = length seen"
  by (simp add: mark_seen_def)

lemma seen_mark:
  assumes "length seen = 2" "unat idx < 64" "i < 64"
  shows "seen_index (mark_seen idx seen) i \<longleftrightarrow> i = unat idx \<or> seen_index seen i"
proof -
  have "i = unat idx \<longleftrightarrow> i div 32 = unat idx div 32 \<and> i mod 32 = unat idx mod 32"
    by (metis div_mult_mod_eq)
  moreover have "unat idx div 32 < 2" using assms(2) by (simp add: less_mult_imp_div_less)
  moreover have "i mod 32 < 32" by simp
  ultimately show ?thesis using assms(1)
    by (auto simp: seen_index_def mark_seen_def unat_low5 unat_high5 nth_list_update bit_or_iff bit_exp_iff)
qed

lemma seen_fold:
  assumes "list_all (\<lambda>i. unat i < 64) idxs" "length seen = 2" "i < 64"
  shows "seen_index (fold mark_seen idxs seen) i \<longleftrightarrow> i \<in> unat ` set idxs \<or> seen_index seen i"
  using assms(1,2)
proof (induction idxs arbitrary: seen)
  case (Cons idx idxs)
  then show ?case using seen_mark [of seen idx i] assms(3) Cons.IH [of "mark_seen idx seen"] by auto
qed simp

lemma all_ones_iff: "(w :: u32) = - 1 \<longleftrightarrow> (\<forall>k < 32. bit w k)"
  by (auto simp: bit_eq_iff)

lemma low_ones_iff: "r \<le> 32 \<Longrightarrow> (w :: u32) = drop_bit (32 - r) (- 1) \<longleftrightarrow> (\<forall>k < 32. bit w k \<longleftrightarrow> k < r)"
  by (auto simp: bit_eq_iff bit_simps)

lemma seen_index_at: "k < 32 \<Longrightarrow> seen_index seen (32 * q + k) \<longleftrightarrow> bit (seen ! q) k"
  by (simp add: seen_index_def)

lemma words_full: "list_all (\<lambda>i. seen ! i = - 1) [0..<q] \<longleftrightarrow> (\<forall>i < 32 * q. seen_index seen i)"
proof -
  have "(\<forall>w < q. \<forall>k < 32. bit (seen ! w) k) \<longleftrightarrow> (\<forall>i < 32 * q. seen_index seen i)"
  proof (intro iffI allI impI)
    fix i assume "\<forall>w < q. \<forall>k < 32. bit (seen ! w) k" "i < 32 * q"
    then show "seen_index seen i" by (simp add: seen_index_def less_mult_imp_div_less mult.commute)
  next
    fix w k assume a: "\<forall>i < 32 * q. seen_index seen i" "w < q" "k < (32 :: nat)"
    then have "32 * w + k < 32 * q" by linarith
    then show "bit (seen ! w) k" using a seen_index_at by blast
  qed
  then show ?thesis by (auto simp: list_all_iff all_ones_iff)
qed

text \<open>Only indices below the number of required fields are marked.\<close>

lemma required_iff:
  assumes "\<And>i. i < 64 \<Longrightarrow> seen_index seen i \<Longrightarrow> i < unat count" "unat count \<le> 64"
  shows "required_present count seen \<longleftrightarrow> (\<forall>i < unat count. seen_index seen i)"
proof -
  let ?q = "unat count div 32" and ?r = "unat count mod 32"
  have c: "unat count = 32 * ?q + ?r" by simp
  have r: "?r < 32" by simp
  have r0: "count AND 31 \<noteq> 0 \<longleftrightarrow> ?r \<noteq> 0" by (simp add: word_unat_eq_iff unat_low5)
  have sub: "unat (32 - (count AND 31)) = 32 - ?r" using r by (simp add: unat_sub word_le_nat_alt unat_low5)
  have last: "seen ! ?q = drop_bit (unat (32 - (count AND 31))) (- 1) \<longleftrightarrow> (\<forall>k < ?r. seen_index seen (32 * ?q + k))" if "?r \<noteq> 0"
  proof -
    have "\<not> 2 \<le> ?q" using that assms(2) c by linarith
    then have "32 * ?q + k < 64" if "k < 32" for k using that by linarith
    then have "32 * ?q + k < unat count" if "seen_index seen (32 * ?q + k)" "k < 32" for k using assms(1) that by blast
    then have k: "k < ?r" if "seen_index seen (32 * ?q + k)" "k < 32" for k using that c by (metis add_less_cancel_left)
    have "(\<forall>k < 32. bit (seen ! ?q) k \<longleftrightarrow> k < ?r) \<longleftrightarrow> (\<forall>k < ?r. bit (seen ! ?q) k)"
    proof -
      have "k < ?r" if "bit (seen ! ?q) k" "k < 32" for k using that k seen_index_at by blast
      then show ?thesis using r by (meson order.strict_trans)
    qed
    also have "\<dots> \<longleftrightarrow> (\<forall>k < ?r. seen_index seen (32 * ?q + k))"
      using r seen_index_at [of _ seen ?q] by (meson order.strict_trans)
    finally show ?thesis unfolding sub using low_ones_iff [of ?r "seen ! ?q"] r by simp
  qed
  have "(\<forall>i < unat count. seen_index seen i) \<longleftrightarrow>
      (\<forall>i < 32 * ?q. seen_index seen i) \<and> (\<forall>k < ?r. seen_index seen (32 * ?q + k))"
  proof (intro iffI conjI allI impI)
    fix i assume a: "\<forall>i < unat count. seen_index seen i" "i < 32 * ?q"
    then show "seen_index seen i" using c by (intro a(1) [rule_format]) linarith
  next
    fix k assume a: "\<forall>i < unat count. seen_index seen i" "k < ?r"
    have "32 * ?q + k < unat count" using a(2) c by (metis add_less_cancel_left)
    then show "seen_index seen (32 * ?q + k)" using a(1) by blast
  next
    fix i assume a: "(\<forall>i < 32 * ?q. seen_index seen i) \<and> (\<forall>k < ?r. seen_index seen (32 * ?q + k))" "i < unat count"
    show "seen_index seen i"
    proof (cases "i < 32 * ?q")
      case False
      then have "i = 32 * ?q + (i - 32 * ?q)" by simp
      moreover from this have "i - 32 * ?q < ?r" using a(2) c by (metis add_less_cancel_left)
      ultimately show ?thesis using a(1) by metis
    qed (use a(1) in blast)
  qed
  then show ?thesis unfolding required_present_def unat_high5 words_full r0 using last by (cases "?r = 0") auto
qed

text \<open>The indices that were marked, in any order.\<close>

lemma required_marked:
  assumes "list_all (\<lambda>i. i < count) idxs" "count \<le> PB_MAX_REQUIRED_FIELDS"
  shows "required_present count (fold mark_seen idxs [0, 0]) \<longleftrightarrow> (\<forall>i < count. i \<in> set idxs)"
proof -
  have c: "unat count \<le> 64" using assms(2) by (simp add: PB_MAX_REQUIRED_FIELDS_def word_le_nat_alt)
  have l: "list_all (\<lambda>i. unat i < 64) idxs"
    using assms(1) c by (auto simp: list_all_iff word_less_nat_alt)
  have "\<not> seen_index [0, 0] i" if "i < 64" for i
  proof -
    have "i div 32 < 2" using that by (simp add: less_mult_imp_div_less)
    then have "i div 32 = 0 \<or> i div 32 = 1" by linarith
    then show ?thesis by (auto simp: seen_index_def)
  qed
  then have f: "seen_index (fold mark_seen idxs [0, 0]) i \<longleftrightarrow> i \<in> unat ` set idxs" if "i < 64" for i
    using seen_fold [OF l _ that, of "[0, 0]"] that by simp
  have "required_present count (fold mark_seen idxs [0, 0]) \<longleftrightarrow> (\<forall>i < unat count. i \<in> unat ` set idxs)"
  proof -
    have "i < unat count" if "i < 64" "seen_index (fold mark_seen idxs [0, 0]) i" for i
      using that f assms(1) by (auto simp: list_all_iff word_less_nat_alt)
    then have "required_present count (fold mark_seen idxs [0, 0]) \<longleftrightarrow> (\<forall>i < unat count. seen_index (fold mark_seen idxs [0, 0]) i)"
      using c by (intro required_iff) blast+
    then show ?thesis using f c by auto
  qed
  also have "\<dots> \<longleftrightarrow> (\<forall>i < count. i \<in> set idxs)"
  proof (intro iffI allI impI)
    fix i assume "\<forall>i < unat count. i \<in> unat ` set idxs" "i < count"
    then have "unat i \<in> unat ` set idxs" by (simp add: word_less_nat_alt)
    then show "i \<in> set idxs" using word_unat_eq_iff by (metis imageE)
  next
    fix i assume a: "\<forall>i < count. i \<in> set idxs" "i < unat count"
    then have "i < 2 ^ 32" using c by simp
    then have "unat (of_nat i :: u32) = i" by (simp add: unat_of_nat)
    then show "i \<in> unat ` set idxs" using a by (intro image_eqI [of _ _ "of_nat i"]) (simp_all add: word_less_nat_alt)
  qed
  finally show ?thesis .
qed

end
