(* ===== verification/Lhash.thy ===== *)
theory Lhash
  imports C_Prelude "HOL-Library.Multiset"
begin

text \<open>
  The hash table of \<open>crypto/lhash/lhash.c\<close>. A chain of \<open>LHASH_ITEM\<close>s is the list of its items, and
  a pointer to a \<open>next\<close> pointer is a bucket and a position in its chain. Whether \<open>OPENSSL_malloc\<close> succeeds is a parameter.
\<close>

subsection \<open>Hash tables\<close>

definition kMinNumBuckets :: nat where "kMinNumBuckets = 16"
definition kMaxAverageChainLength :: nat where "kMaxAverageChainLength = 2"
definition kMinAverageChainLength :: nat where "kMinAverageChainLength = 1"

record 'a lhash_item =
  li_data :: 'a
  li_hash :: u32

record 'a lhash =
  lh_num_items :: nat
  lh_buckets :: "'a lhash_item list list"
  lh_num_buckets :: nat
  lh_callback_depth :: u32
  lh_comp :: "'a \<Rightarrow> 'a \<Rightarrow> int"
  lh_hash :: "'a \<Rightarrow> u32"

text \<open>A table and its array of buckets take 48 and 8 times 16 bytes.\<close>

definition OPENSSL_lh_new :: "(nat \<Rightarrow> bool) \<Rightarrow> ('a \<Rightarrow> u32) \<Rightarrow> ('a \<Rightarrow> 'a \<Rightarrow> int) \<Rightarrow> 'a lhash option" where
  "OPENSSL_lh_new malloc hash cmp =
    (if \<not> malloc 48 \<or> \<not> malloc (8 * kMinNumBuckets) then None
     else Some \<lparr>lh_num_items = 0, lh_buckets = replicate kMinNumBuckets [], lh_num_buckets = kMinNumBuckets,
       lh_callback_depth = 0, lh_comp = cmp, lh_hash = hash\<rparr>)"

definition OPENSSL_lh_num_items :: "'a lhash \<Rightarrow> nat" where
  "OPENSSL_lh_num_items lh = lh_num_items lh"

text \<open>The position of the first item of a chain whose data satisfy the comparison, or its end.\<close>

fun chain_find :: "('a \<Rightarrow> bool) \<Rightarrow> 'a lhash_item list \<Rightarrow> nat" where
  "chain_find eq [] = 0"
| "chain_find eq (cur # next) = (if eq (li_data cur) then 0 else Suc (chain_find eq next))"

definition get_next_ptr_and_hash :: "'a lhash \<Rightarrow> 'a \<Rightarrow> u32 \<times> nat \<times> nat" where
  "get_next_ptr_and_hash lh data =
    (let hash = lh_hash lh data; b = unat hash mod lh_num_buckets lh
     in (hash, b, chain_find (\<lambda>d. lh_comp lh d data = 0) (lh_buckets lh ! b)))"

definition get_next_ptr_by_key :: "'a lhash \<Rightarrow> 'k \<Rightarrow> u32 \<Rightarrow> ('k \<Rightarrow> 'a \<Rightarrow> int) \<Rightarrow> nat \<times> nat" where
  "get_next_ptr_by_key lh key key_hash cmp_key =
    (let b = unat key_hash mod lh_num_buckets lh
     in (b, chain_find (\<lambda>d. cmp_key key d = 0) (lh_buckets lh ! b)))"

text \<open>\<open>*next_ptr\<close>, where \<open>None\<close> is the null pointer.\<close>

definition deref_next :: "'a lhash \<Rightarrow> nat \<Rightarrow> nat \<Rightarrow> 'a lhash_item option" where
  "deref_next lh b i = (let chain = lh_buckets lh ! b in if i < length chain then Some (chain ! i) else None)"

definition OPENSSL_lh_retrieve :: "'a lhash \<Rightarrow> 'a \<Rightarrow> 'a option" where
  "OPENSSL_lh_retrieve lh data =
    (let (_, b, i) = get_next_ptr_and_hash lh data in map_option li_data (deref_next lh b i))"

definition OPENSSL_lh_retrieve_key :: "'a lhash \<Rightarrow> 'k \<Rightarrow> u32 \<Rightarrow> ('k \<Rightarrow> 'a \<Rightarrow> int) \<Rightarrow> 'a option" where
  "OPENSSL_lh_retrieve_key lh key key_hash cmp_key =
    (let (b, i) = get_next_ptr_by_key lh key key_hash cmp_key in map_option li_data (deref_next lh b i))"

text \<open>Every item is moved to the front of its new chain, with the hash value that it caches.\<close>

definition push_item :: "nat \<Rightarrow> 'a lhash_item \<Rightarrow> 'a lhash_item list list \<Rightarrow> 'a lhash_item list list" where
  "push_item new_num_buckets cur new_buckets =
    (let new_bucket = unat (li_hash cur) mod new_num_buckets
     in new_buckets[new_bucket := cur # new_buckets ! new_bucket])"

definition lh_rebucket :: "(nat \<Rightarrow> bool) \<Rightarrow> 'a lhash \<Rightarrow> nat \<Rightarrow> 'a lhash" where
  "lh_rebucket malloc lh new_num_buckets =
    (let alloc_size = 8 * new_num_buckets mod SIZE_MOD in
     if alloc_size div 8 \<noteq> new_num_buckets then lh
     else if \<not> malloc alloc_size then lh
     else lh\<lparr>lh_num_buckets := new_num_buckets,
       lh_buckets := fold (fold (push_item new_num_buckets)) (lh_buckets lh) (replicate new_num_buckets [])\<rparr>)"

definition lh_maybe_resize :: "(nat \<Rightarrow> bool) \<Rightarrow> 'a lhash \<Rightarrow> 'a lhash" where
  "lh_maybe_resize malloc lh =
    (if lh_callback_depth lh > 0 then lh
     else
       let avg_chain_length = lh_num_items lh div lh_num_buckets lh in
       if avg_chain_length > kMaxAverageChainLength then
         let new_num_buckets = lh_num_buckets lh * 2 mod SIZE_MOD in
         if new_num_buckets > lh_num_buckets lh then lh_rebucket malloc lh new_num_buckets else lh
       else if avg_chain_length < kMinAverageChainLength \<and> lh_num_buckets lh > kMinNumBuckets then
         lh_rebucket malloc lh (max kMinNumBuckets (lh_num_buckets lh div 2))
       else lh)"

text \<open>The results are the status, \<open>*old_data\<close> and the table; an item takes 24 bytes.\<close>

definition OPENSSL_lh_insert :: "(nat \<Rightarrow> bool) \<Rightarrow> 'a lhash \<Rightarrow> 'a \<Rightarrow> bool \<times> 'a option \<times> 'a lhash" where
  "OPENSSL_lh_insert malloc lh data =
    (let (hash, b, i) = get_next_ptr_and_hash lh data; chain = lh_buckets lh ! b in
     case deref_next lh b i of
       Some item \<Rightarrow>
         (True, Some (li_data item), lh\<lparr>lh_buckets := (lh_buckets lh)[b := chain[i := item\<lparr>li_data := data\<rparr>]]\<rparr>)
     | None \<Rightarrow>
         if \<not> malloc 24 then (False, None, lh)
         else
           let item = \<lparr>li_data = data, li_hash = hash\<rparr>;
               lh = lh\<lparr>lh_buckets := (lh_buckets lh)[b := chain @ [item]], lh_num_items := szadd (lh_num_items lh) 1\<rparr>
           in (True, None, lh_maybe_resize malloc lh))"

definition OPENSSL_lh_delete :: "(nat \<Rightarrow> bool) \<Rightarrow> 'a lhash \<Rightarrow> 'a \<Rightarrow> 'a option \<times> 'a lhash" where
  "OPENSSL_lh_delete malloc lh data =
    (let (_, b, i) = get_next_ptr_and_hash lh data; chain = lh_buckets lh ! b in
     case deref_next lh b i of
       None \<Rightarrow> (None, lh)
     | Some item \<Rightarrow>
         let lh = lh\<lparr>lh_buckets := (lh_buckets lh)[b := take i chain @ drop (Suc i) chain],
               lh_num_items := szadd (lh_num_items lh) (SIZE_MOD - 1)\<rparr>
         in (Some (li_data item), lh_maybe_resize malloc lh))"

text \<open>A callback that does not change the table; the counter of the depth saturates.\<close>

definition OPENSSL_lh_doall_arg :: "(nat \<Rightarrow> bool) \<Rightarrow> ('a \<Rightarrow> 'b \<Rightarrow> 'b) \<Rightarrow> 'a lhash \<Rightarrow> 'b \<Rightarrow> 'b \<times> 'a lhash" where
  "OPENSSL_lh_doall_arg malloc func lh arg =
    (let lh = (if lh_callback_depth lh < - 1 then lh\<lparr>lh_callback_depth := lh_callback_depth lh + 1\<rparr> else lh);
         arg = fold (fold (\<lambda>cur. func (li_data cur))) (lh_buckets lh) arg;
         lh = (if lh_callback_depth lh < - 1 then lh\<lparr>lh_callback_depth := lh_callback_depth lh - 1\<rparr> else lh)
     in (arg, lh_maybe_resize malloc lh))"

subsection \<open>Chains and buckets\<close>

lemma chain_find_filter:
  "(if chain_find eq chain < length chain then Some (chain ! chain_find eq chain) else None) =
   (case filter (\<lambda>it. eq (li_data it)) chain of [] \<Rightarrow> None | it # _ \<Rightarrow> Some it)"
  by (induction chain) auto

lemma concat_only:
  assumes "b < length xss" "\<And>j. j < length xss \<Longrightarrow> j \<noteq> b \<Longrightarrow> xss ! j = []"
  shows "concat xss = xss ! b"
proof -
  have "concat (take b xss) = []" using assms by (auto simp: in_set_conv_nth)
  moreover have "drop (Suc b) xss ! j = []" if "j < length (drop (Suc b) xss)" for j
    using that assms(2) [of "Suc b + j"] by simp
  then have "concat (drop (Suc b) xss) = []" by (metis concat_eq_Nil_conv in_set_conv_nth)
  moreover have "concat xss = concat (take b xss) @ xss ! b @ concat (drop (Suc b) xss)"
    using arg_cong [OF id_take_nth_drop [OF assms(1)], of concat] by simp
  ultimately show ?thesis by (simp only: append_Nil append_Nil2)
qed

lemma mset_concat_update:
  "b < length xss \<Longrightarrow> mset (concat (xss[b := ys])) + mset (xss ! b) = mset (concat xss) + mset ys"
  using arg_cong [OF id_take_nth_drop [of b xss], of "mset \<circ> concat"] by (simp add: upd_conv_take_nth_drop)

text \<open>Every item is in the bucket of its hash value, which is the one of its data.\<close>

definition placed :: "('a \<Rightarrow> u32) \<Rightarrow> nat \<Rightarrow> 'a lhash_item list list \<Rightarrow> bool" where
  "placed hash n bs \<longleftrightarrow> length bs = n \<and>
     (\<forall>b < n. list_all (\<lambda>it. li_hash it = hash (li_data it) \<and> b = unat (li_hash it) mod n) (bs ! b))"

lemma placedD: "placed hash n bs \<Longrightarrow> b < n \<Longrightarrow> it \<in> set (bs ! b) \<Longrightarrow> li_hash it = hash (li_data it) \<and> b = unat (li_hash it) mod n"
  unfolding placed_def list_all_iff by blast

lemma placed_update:
  "placed hash n bs \<Longrightarrow> list_all (\<lambda>it. li_hash it = hash (li_data it) \<and> b = unat (li_hash it) mod n) chain \<Longrightarrow>
   placed hash n (bs[b := chain])"
  by (cases "b < length bs") (auto simp: placed_def nth_list_update)

lemma placed_hash: "placed hash n bs \<Longrightarrow> it \<in> set (concat bs) \<Longrightarrow> li_hash it = hash (li_data it)"
  by (auto simp: in_set_conv_nth placed_def list_all_length)

lemma push_items:
  assumes "0 < n" "\<And>it. it \<in> set its \<Longrightarrow> li_hash it = hash (li_data it)" "placed hash n bs"
  shows "placed hash n (fold (push_item n) its bs) \<and> mset (concat (fold (push_item n) its bs)) = mset its + mset (concat bs)"
  using assms(2,3)
proof (induction its arbitrary: bs)
  case (Cons it its)
  let ?b = "unat (li_hash it) mod n" and ?bs = "push_item n it bs"
  have b: "?b < length bs" using assms(1) Cons.prems(2) by (simp add: placed_def)
  have "placed hash n ?bs" unfolding push_item_def Let_def
  proof (rule placed_update [OF Cons.prems(2)])
    have "?b < n" using assms(1) by simp
    then show "list_all (\<lambda>it'. li_hash it' = hash (li_data it') \<and> ?b = unat (li_hash it') mod n) (it # bs ! ?b)"
      using Cons.prems(1) placedD [OF Cons.prems(2)] unfolding list_all_iff by (metis set_ConsD list.set_intros(1))
  qed
  moreover have "mset (concat ?bs) = add_mset it (mset (concat bs))"
    using mset_concat_update [OF b, of "it # bs ! ?b"] by (simp add: push_item_def Let_def)
  ultimately show ?case using Cons.IH [of ?bs] Cons.prems(1) by simp
qed simp

lemma fold_fold_concat: "fold (fold f) xss a = fold f (concat xss) a"
  by (induction xss arbitrary: a) simp_all

subsection \<open>The contract of the functions\<close>

text \<open>
  The comparison is 0 for an equivalence relation, and data that it identifies have the same hash value.
\<close>

locale hash_contract =
  fixes hash :: "'a \<Rightarrow> u32" and cmp :: "'a \<Rightarrow> 'a \<Rightarrow> int"
  assumes same_refl: "cmp x x = 0"
    and same_sym: "cmp x y = 0 \<Longrightarrow> cmp y x = 0"
    and same_trans: "cmp x y = 0 \<Longrightarrow> cmp y z = 0 \<Longrightarrow> cmp x z = 0"
    and same_hash: "cmp x y = 0 \<Longrightarrow> hash x = hash y"

text \<open>No two elements are the same, for the comparison.\<close>

definition apart :: "('a \<Rightarrow> 'a \<Rightarrow> int) \<Rightarrow> 'a multiset \<Rightarrow> bool" where
  "apart cmp M \<longleftrightarrow> (\<forall>d. size {#x \<in># M. cmp x d = 0#} \<le> 1)"

text \<open>The contents of a table, and the abstract lookup in it.\<close>

definition lh_data :: "'a lhash \<Rightarrow> 'a multiset" where
  "lh_data lh = image_mset li_data (mset (concat (lh_buckets lh)))"

definition lh_lookup :: "'a lhash \<Rightarrow> 'a \<Rightarrow> 'a option" where
  "lh_lookup lh d = (case filter (\<lambda>it. lh_comp lh (li_data it) d = 0) (concat (lh_buckets lh)) of
     [] \<Rightarrow> None | it # _ \<Rightarrow> Some (li_data it))"

definition lh_inv :: "'a lhash \<Rightarrow> bool" where
  "lh_inv lh \<longleftrightarrow> placed (lh_hash lh) (lh_num_buckets lh) (lh_buckets lh) \<and> kMinNumBuckets \<le> lh_num_buckets lh \<and>
     lh_num_items lh = size (lh_data lh) \<and> apart (lh_comp lh) (lh_data lh)"

lemma lookup_Some:
  assumes "apart (lh_comp lh) (lh_data lh)"
  shows "lh_lookup lh d = Some x \<longleftrightarrow> x \<in># lh_data lh \<and> lh_comp lh x d = 0"
proof -
  let ?f = "filter (\<lambda>it. lh_comp lh (li_data it) d = 0) (concat (lh_buckets lh))"
  have "mset (map li_data ?f) = {#x \<in># lh_data lh. lh_comp lh x d = 0#}"
    by (simp add: lh_data_def filter_mset_image_mset mset_filter [symmetric] del: mset_filter)
  then have m: "set (map li_data ?f) = {x \<in> set_mset (lh_data lh). lh_comp lh x d = 0}" "length ?f \<le> 1"
    using assms mset_eq_setD unfolding apart_def by (metis set_mset_filter set_mset_mset, metis length_map size_mset)
  show ?thesis
  proof (cases ?f)
    case Nil
    then show ?thesis using m(1) by (auto simp: lh_lookup_def)
  next
    case (Cons a as)
    then have "{li_data a} = {x \<in> set_mset (lh_data lh). lh_comp lh x d = 0}" using m by simp
    from eqset_imp_iff [OF this, of x] have "li_data a = x \<longleftrightarrow> x \<in># lh_data lh \<and> lh_comp lh x d = 0" by auto
    then show ?thesis by (simp add: lh_lookup_def Cons)
  qed
qed

lemma lookup_cong:
  assumes "apart (lh_comp lh) (lh_data lh)" "lh_data lh' = lh_data lh" "lh_comp lh' = lh_comp lh"
  shows "lh_lookup lh' = lh_lookup lh"
proof
  fix d
  have "lh_lookup lh' d = Some x \<longleftrightarrow> lh_lookup lh d = Some x" for x using assms by (simp add: lookup_Some)
  then show "lh_lookup lh' d = lh_lookup lh d" by (metis not_None_eq)
qed

subsection \<open>Resizing\<close>

text \<open>Resizing is invisible: the contents are the same, and the invariant holds.\<close>

definition same_contents :: "'a lhash \<Rightarrow> 'a lhash \<Rightarrow> bool" where
  "same_contents lh lh' \<longleftrightarrow> lh_data lh' = lh_data lh \<and> lh_comp lh' = lh_comp lh \<and> lh_hash lh' = lh_hash lh \<and>
     lh_num_items lh' = lh_num_items lh \<and> lh_callback_depth lh' = lh_callback_depth lh"

lemma same_contents_refl [simp]: "same_contents lh lh"
  by (simp add: same_contents_def)

lemma rebucket_contents:
  assumes "lh_inv lh" "kMinNumBuckets \<le> n"
  shows "lh_inv (lh_rebucket malloc lh n) \<and> same_contents lh (lh_rebucket malloc lh n)"
proof -
  let ?bs = "fold (fold (push_item n)) (lh_buckets lh) (replicate n [])"
  have "placed (lh_hash lh) n (replicate n [])" by (simp add: placed_def)
  moreover have "0 < n" using assms(2) by (simp add: kMinNumBuckets_def)
  moreover have "li_hash it = lh_hash lh (li_data it)" if "it \<in> set (concat (lh_buckets lh))" for it
    using placed_hash [OF _ that, of "lh_hash lh" "lh_num_buckets lh"] assms(1) by (simp add: lh_inv_def)
  ultimately have "placed (lh_hash lh) n ?bs \<and> mset (concat ?bs) = mset (concat (lh_buckets lh))"
    using push_items [of n "concat (lh_buckets lh)" "lh_hash lh" "replicate n []"] by (simp add: fold_fold_concat)
  then have "placed (lh_hash lh) n ?bs" "mset (concat ?bs) = mset (concat (lh_buckets lh))" by blast+
  with mset_eq_length [OF this(2)] assms show ?thesis
    by (simp add: lh_rebucket_def lh_inv_def same_contents_def lh_data_def Let_def)
qed

lemma resize_contents:
  "lh_inv lh \<Longrightarrow> lh_inv (lh_maybe_resize malloc lh) \<and> same_contents lh (lh_maybe_resize malloc lh)"
proof -
  assume a: "lh_inv lh"
  then have "kMinNumBuckets \<le> lh_num_buckets lh" by (simp add: lh_inv_def)
  then show ?thesis using a rebucket_contents [OF a] by (simp add: lh_maybe_resize_def Let_def)
qed

subsection \<open>Operations\<close>

lemma apart_subset: "apart cmp M \<Longrightarrow> N \<subseteq># M \<Longrightarrow> apart cmp N"
  unfolding apart_def by (meson multiset_filter_mono order_trans size_mset_mono)

context hash_contract
begin

lemma apart_add: "apart cmp M \<Longrightarrow> (\<And>x. x \<in># M \<Longrightarrow> cmp x a \<noteq> 0) \<Longrightarrow> apart cmp (add_mset a M)"
  unfolding apart_def
proof
  fix d assume a: "\<forall>d. size {#x \<in># M. cmp x d = 0#} \<le> 1" "\<And>x. x \<in># M \<Longrightarrow> cmp x a \<noteq> 0"
  have "{#x \<in># M. cmp x d = 0#} = {#}" if "cmp a d = 0"
    using a(2) same_trans [OF _ same_sym [OF that]] by (subst set_mset_eq_empty_iff [symmetric]) auto
  then show "size {#x \<in># add_mset a M. cmp x d = 0#} \<le> 1" using a(1) by auto
qed

lemma apart_other: "apart cmp (add_mset a M) \<Longrightarrow> x \<in># M \<Longrightarrow> cmp x a \<noteq> 0"
  unfolding apart_def
proof
  assume a: "\<forall>d. size {#x \<in># add_mset a M. cmp x d = 0#} \<le> 1" "x \<in># M" "cmp x a = 0"
  have "size {#x \<in># add_mset a M. cmp x a = 0#} \<le> 1" using a(1) by blast
  then show False using same_refl [of a] a(2,3) by simp
qed

lemma apart_replace: "apart cmp (add_mset a M) \<Longrightarrow> cmp a b = 0 \<Longrightarrow> apart cmp (add_mset b M)"
  by (rule apart_add, erule apart_subset) (auto dest: apart_other same_trans [OF _ same_sym])

text \<open>All items that are the same as the data are in the bucket that is searched.\<close>

lemma bucket_filter:
  assumes "placed hash n bs" "0 < n"
  shows "filter (\<lambda>it. cmp (li_data it) d = 0) (concat bs) = filter (\<lambda>it. cmp (li_data it) d = 0) (bs ! (unat (hash d) mod n))"
proof -
  let ?b = "unat (hash d) mod n" and ?P = "\<lambda>it. cmp (li_data it) d = 0"
  have b: "?b < length (map (filter ?P) bs)" using assms by (simp add: placed_def)
  have "filter ?P (bs ! j) = []" if "j < n" "j \<noteq> ?b" for j
    unfolding filter_empty_conv using that placedD [OF assms(1) that(1)] same_hash by metis
  then show ?thesis using concat_only [OF b] b assms(1) by (simp add: filter_concat placed_def)
qed

lemma searched:
  assumes "lh_inv lh" "lh_hash lh = hash" "lh_comp lh = cmp" "get_next_ptr_and_hash lh d = (h, b, i)"
  shows "b < lh_num_buckets lh" "h = hash d" "b = unat h mod lh_num_buckets lh" "map_option li_data (deref_next lh b i) = lh_lookup lh d"
proof -
  have n: "0 < lh_num_buckets lh" using assms(1) by (simp add: lh_inv_def kMinNumBuckets_def)
  have p: "placed hash (lh_num_buckets lh) (lh_buckets lh)" using assms(1,2) by (simp add: lh_inv_def)
  have g: "h = hash d" "b = unat h mod lh_num_buckets lh" "i = chain_find (\<lambda>x. cmp x d = 0) (lh_buckets lh ! b)"
    using assms(2-4) by (auto simp: get_next_ptr_and_hash_def Let_def)
  then show "b < lh_num_buckets lh" "h = hash d" "b = unat h mod lh_num_buckets lh" using n by simp_all
  have "deref_next lh b i = (case filter (\<lambda>it. cmp (li_data it) d = 0) (lh_buckets lh ! b) of [] \<Rightarrow> None | it # _ \<Rightarrow> Some it)"
    unfolding deref_next_def Let_def g(3) by (rule chain_find_filter)
  then show "map_option li_data (deref_next lh b i) = lh_lookup lh d"
    unfolding lh_lookup_def assms(3) bucket_filter [OF p n, of d] g(1,2) by (simp split: list.split)
qed

lemma retrieve_lookup:
  assumes "lh_inv lh" "lh_hash lh = hash" "lh_comp lh = cmp"
  shows "OPENSSL_lh_retrieve lh d = lh_lookup lh d"
  using searched(4) [OF assms] by (auto simp: OPENSSL_lh_retrieve_def split: prod.split)

lemma retrieve_key_lookup:
  assumes "lh_inv lh" "lh_hash lh = hash" "lh_comp lh = cmp" "key_hash = hash d" "\<And>x. cmp_key key x = 0 \<longleftrightarrow> cmp x d = 0"
  shows "OPENSSL_lh_retrieve_key lh key key_hash cmp_key = lh_lookup lh d"
  using retrieve_lookup [OF assms(1-3), of d] assms
  by (simp add: OPENSSL_lh_retrieve_def OPENSSL_lh_retrieve_key_def get_next_ptr_by_key_def get_next_ptr_and_hash_def Let_def)

text \<open>The contents after a change of one chain.\<close>

lemma data_update:
  assumes "b < length (lh_buckets lh)"
  shows "lh_data (lh\<lparr>lh_buckets := (lh_buckets lh)[b := chain]\<rparr>) + image_mset li_data (mset (lh_buckets lh ! b)) =
    lh_data lh + image_mset li_data (mset chain)"
  using arg_cong [OF mset_concat_update [OF assms, of chain], of "image_mset li_data"] by (simp add: lh_data_def)

lemma deref_data:
  "deref_next lh b i = Some item \<Longrightarrow> item \<in> set (lh_buckets lh ! b) \<and> i < length (lh_buckets lh ! b) \<and> lh_buckets lh ! b ! i = item"
  by (auto simp: deref_next_def Let_def split: if_splits)

lemma lookup_update:
  assumes "apart cmp (lh_data lh)" "lh_comp lh = cmp" "lh_comp lh' = cmp" "apart cmp (lh_data lh')"
    and "\<And>x. x \<in># lh_data lh' \<longleftrightarrow> x = d \<or> (x \<in># lh_data lh \<and> cmp x d \<noteq> 0)"
  shows "lh_lookup lh' = (\<lambda>d'. if cmp d d' = 0 then Some d else lh_lookup lh d')"
proof
  fix d'
  have "lh_lookup lh' d' = Some x \<longleftrightarrow> (if cmp d d' = 0 then Some d else lh_lookup lh d') = Some x" for x
    using lookup_Some [of lh' d' x] lookup_Some [of lh d' x] assms same_trans [of x d' d] same_sym [of d d'] same_sym [of x d]
      same_trans [of d x d'] by auto
  then show "lh_lookup lh' d' = (if cmp d d' = 0 then Some d else lh_lookup lh d')" by (metis not_None_eq)
qed

lemma replace_contents:
  assumes "lh_inv lh" "lh_hash lh = hash" "lh_comp lh = cmp" "b < lh_num_buckets lh" "i < length (lh_buckets lh ! b)"
    "cmp (li_data (lh_buckets lh ! b ! i)) d = 0"
  defines "lh' \<equiv> lh\<lparr>lh_buckets := (lh_buckets lh)[b := (lh_buckets lh ! b)[i := (lh_buckets lh ! b ! i)\<lparr>li_data := d\<rparr>]]\<rparr>"
  shows "lh_inv lh' \<and> lh_lookup lh' = (\<lambda>d'. if cmp d d' = 0 then Some d else lh_lookup lh d')"
proof -
  let ?chain = "lh_buckets lh ! b"
  let ?item = "?chain ! i" and ?new = "(?chain ! i)\<lparr>li_data := d\<rparr>"
  have p: "placed hash (lh_num_buckets lh) (lh_buckets lh)" and ap: "apart cmp (lh_data lh)"
    using assms(1-3) by (simp_all add: lh_inv_def)
  have b: "b < length (lh_buckets lh)" using p assms(4) by (simp add: placed_def)
  obtain M where M: "mset ?chain = add_mset ?item M" using assms(5) by (metis insert_DiffM nth_mem set_mset_mset)
  have "mset (?chain[i := ?new]) = add_mset ?new M" using assms(5) M by (simp add: mset_update)
  then have data: "add_mset (li_data ?item) (lh_data lh') = add_mset d (lh_data lh)"
    using data_update [OF b, of "?chain[i := ?new]"] M by (simp add: lh'_def)
  have "li_data ?item \<in># lh_data lh"
    using nth_mem [OF assms(5)] nth_mem [OF b] unfolding lh_data_def by (auto intro!: imageI)
  then obtain N where N: "lh_data lh = add_mset (li_data ?item) N" by (metis insert_DiffM)
  then have N': "lh_data lh' = add_mset d N" using data by (simp add: add_mset_commute)
  have ap': "apart cmp (lh_data lh')" unfolding N' by (rule apart_replace [OF _ assms(6)]) (use ap N in simp)
  have "x \<in># lh_data lh' \<longleftrightarrow> x = d \<or> (x \<in># lh_data lh \<and> cmp x d \<noteq> 0)" for x
    using apart_other [of "li_data ?item" N x] ap N N' assms(6) same_trans [OF _ same_sym [OF assms(6)], of x] by auto
  with lookup_update [OF ap assms(3) _ ap'] have l: "lh_lookup lh' = (\<lambda>d'. if cmp d d' = 0 then Some d else lh_lookup lh d')"
    using assms(3) by (simp add: lh'_def)
  have new: "li_hash ?new = li_hash ?item" by simp
  have "li_hash ?new = hash d" "b = unat (li_hash ?new) mod lh_num_buckets lh"
    unfolding new using placedD [OF p assms(4) nth_mem [OF assms(5)]] same_hash [OF assms(6)] by metis+
  then have "list_all (\<lambda>it. li_hash it = hash (li_data it) \<and> b = unat (li_hash it) mod lh_num_buckets lh) (?chain[i := ?new])"
    using placedD [OF p assms(4)] set_update_subset_insert [of ?chain i ?new] unfolding list_all_iff by fastforce
  then have "placed hash (lh_num_buckets lh) (lh_buckets lh')" using placed_update [OF p] by (simp add: lh'_def)
  moreover have "size (lh_data lh') = size (lh_data lh)" unfolding N N' by simp
  ultimately show ?thesis using l ap' assms(1-3) by (simp add: lh_inv_def lh'_def)
qed

lemma append_contents:
  assumes "lh_inv lh" "lh_hash lh = hash" "lh_comp lh = cmp" "lh_lookup lh d = None" "Suc (lh_num_items lh) < SIZE_MOD"
  defines "b \<equiv> unat (hash d) mod lh_num_buckets lh"
  defines "lh' \<equiv> lh\<lparr>lh_buckets := (lh_buckets lh)[b := lh_buckets lh ! b @ [\<lparr>li_data = d, li_hash = hash d\<rparr>]],
    lh_num_items := szadd (lh_num_items lh) 1\<rparr>"
  shows "lh_inv lh' \<and> lh_lookup lh' = (\<lambda>d'. if cmp d d' = 0 then Some d else lh_lookup lh d')"
proof -
  let ?chain = "lh_buckets lh ! b" and ?item = "\<lparr>li_data = d, li_hash = hash d\<rparr>"
  have p: "placed hash (lh_num_buckets lh) (lh_buckets lh)" and ap: "apart cmp (lh_data lh)"
    using assms(1-3) by (simp_all add: lh_inv_def)
  have bn: "b < lh_num_buckets lh" using assms(1) by (simp add: b_def lh_inv_def kMinNumBuckets_def)
  then have b: "b < length (lh_buckets lh)" using p by (simp add: placed_def)
  have data: "lh_data lh' = add_mset d (lh_data lh)"
    using data_update [OF b, of "?chain @ [?item]"] by (simp add: lh'_def lh_data_def)
  have other: "cmp x d \<noteq> 0" if "x \<in># lh_data lh" for x
    using that assms(3,4) ap lookup_Some [of lh d x] by auto
  have ap': "apart cmp (lh_data lh')" unfolding data using other by (rule apart_add [OF ap])
  have "x \<in># lh_data lh' \<longleftrightarrow> x = d \<or> (x \<in># lh_data lh \<and> cmp x d \<noteq> 0)" for x using other data by auto
  with lookup_update [OF ap assms(3) _ ap'] have l: "lh_lookup lh' = (\<lambda>d'. if cmp d d' = 0 then Some d else lh_lookup lh d')"
    using assms(3) by (simp add: lh'_def)
  have "list_all (\<lambda>it. li_hash it = hash (li_data it) \<and> b = unat (li_hash it) mod lh_num_buckets lh) ?chain"
    using placedD [OF p bn] unfolding list_all_iff by blast
  then have "list_all (\<lambda>it. li_hash it = hash (li_data it) \<and> b = unat (li_hash it) mod lh_num_buckets lh) (?chain @ [?item])"
    by simp (simp add: b_def)
  from placed_update [OF p this] have "placed hash (lh_num_buckets lh) (lh_buckets lh')" by (simp add: lh'_def)
  then show ?thesis using l ap' data assms(1-3,5) by (simp add: lh_inv_def lh'_def szadd_exact)
qed

lemma insert_correct:
  assumes "lh_inv lh" "lh_hash lh = hash" "lh_comp lh = cmp" "Suc (lh_num_items lh) < SIZE_MOD"
    "OPENSSL_lh_insert malloc lh d = (ok, old, lh')"
  shows "lh_inv lh' \<and> lh_hash lh' = hash \<and> lh_comp lh' = cmp \<and>
    (if ok then old = lh_lookup lh d \<and> lh_lookup lh' = (\<lambda>d'. if cmp d d' = 0 then Some d else lh_lookup lh d')
     else lh' = lh \<and> old = None \<and> \<not> malloc 24)"
proof -
  obtain h b i where g: "get_next_ptr_and_hash lh d = (h, b, i)" by (metis prod_cases3)
  note s = searched [OF assms(1-3) g]
  have ap: "apart cmp (lh_data lh)" using assms(1,3) by (simp add: lh_inv_def)
  show ?thesis
  proof (cases "deref_next lh b i")
    case (Some item)
    have "cmp (li_data item) d = 0" "lh_lookup lh d = Some (li_data item)"
      using s(4) Some lookup_Some [of lh d "li_data item"] ap assms(3) by simp_all
    then show ?thesis
      using replace_contents [OF assms(1-3) s(1), of i d] deref_data [OF Some] assms(2,3,5)
      by (auto simp: OPENSSL_lh_insert_def g Some)
  next
    case None
    then have l: "lh_lookup lh d = None" using s(4) by simp
    let ?lh = "lh\<lparr>lh_buckets := (lh_buckets lh)[b := lh_buckets lh ! b @ [\<lparr>li_data = d, li_hash = h\<rparr>]],
      lh_num_items := szadd (lh_num_items lh) 1\<rparr>"
    note c = append_contents [OF assms(1-3) l assms(4), folded s(2), folded s(3)]
    have "lh_inv (lh_maybe_resize malloc ?lh) \<and> same_contents ?lh (lh_maybe_resize malloc ?lh)"
      using c by (intro resize_contents) simp
    moreover from this have "lh_lookup (lh_maybe_resize malloc ?lh) = lh_lookup ?lh"
      using c by (intro lookup_cong) (simp_all add: lh_inv_def same_contents_def)
    ultimately show ?thesis using c l assms(1-3,5)
      by (auto simp: OPENSSL_lh_insert_def g None same_contents_def Let_def split: if_splits)
  qed
qed

lemma remove_contents:
  assumes "lh_inv lh" "lh_hash lh = hash" "lh_comp lh = cmp" "b < lh_num_buckets lh" "i < length (lh_buckets lh ! b)"
    "cmp (li_data (lh_buckets lh ! b ! i)) d = 0" "lh_num_items lh < SIZE_MOD"
  defines "lh' \<equiv> lh\<lparr>lh_buckets := (lh_buckets lh)[b := take i (lh_buckets lh ! b) @ drop (Suc i) (lh_buckets lh ! b)],
    lh_num_items := szadd (lh_num_items lh) (SIZE_MOD - 1)\<rparr>"
  shows "lh_inv lh' \<and> lh_lookup lh' = (\<lambda>d'. if cmp d d' = 0 then None else lh_lookup lh d')"
proof -
  let ?chain = "lh_buckets lh ! b"
  let ?item = "?chain ! i" and ?rest = "take i ?chain @ drop (Suc i) ?chain"
  have p: "placed hash (lh_num_buckets lh) (lh_buckets lh)" and ap: "apart cmp (lh_data lh)"
    using assms(1-3) by (simp_all add: lh_inv_def)
  have b: "b < length (lh_buckets lh)" using p assms(4) by (simp add: placed_def)
  have "mset ?chain = add_mset ?item (mset ?rest)" using arg_cong [OF id_take_nth_drop [OF assms(5)], of mset] by simp
  then have data: "lh_data lh = add_mset (li_data ?item) (lh_data lh')"
    using data_update [OF b, of ?rest] by (simp add: lh'_def lh_data_def)
  then have ap': "apart cmp (lh_data lh')" by (intro apart_subset [OF ap]) (simp add: subset_mset.le_iff_add exI [of _ "{#li_data ?item#}"])
  have "lh_lookup lh' d' = Some x \<longleftrightarrow> (if cmp d d' = 0 then None else lh_lookup lh d') = Some x" for d' x
  proof -
    have "lh_lookup lh' d' = Some x \<longleftrightarrow> x \<in># lh_data lh' \<and> cmp x d' = 0"
      using lookup_Some [of lh' d' x] ap' assms(3) by (simp add: lh'_def)
    moreover have "lh_lookup lh d' = Some x \<longleftrightarrow> x \<in># lh_data lh \<and> cmp x d' = 0"
      using lookup_Some [of lh d' x] ap assms(3) by simp
    moreover have "cmp x (li_data ?item) \<noteq> 0" if "x \<in># lh_data lh'" using apart_other [OF _ that] ap data by simp
    moreover have "cmp x (li_data ?item) = 0" if "cmp x d' = 0" "cmp d d' = 0"
      using same_trans [OF that(1) same_trans [OF same_sym [OF that(2)] same_sym [OF assms(6)]]] .
    moreover have "cmp d d' = 0" if "cmp (li_data ?item) d' = 0" using same_trans [OF same_sym [OF assms(6)] that] .
    ultimately show ?thesis using data by auto
  qed
  then have l: "lh_lookup lh' = (\<lambda>d'. if cmp d d' = 0 then None else lh_lookup lh d')" by (intro ext) (metis not_None_eq)
  have "set ?rest \<subseteq> set ?chain" by (auto dest: in_set_takeD in_set_dropD)
  then have "list_all (\<lambda>it. li_hash it = hash (li_data it) \<and> b = unat (li_hash it) mod lh_num_buckets lh) ?rest"
    using placedD [OF p assms(4)] unfolding list_all_iff by blast
  from placed_update [OF p this] have "placed hash (lh_num_buckets lh) (lh_buckets lh')" by (simp add: lh'_def)
  moreover have "szadd (lh_num_items lh) (SIZE_MOD - 1) = size (lh_data lh')"
  proof -
    have n: "lh_num_items lh = Suc (size (lh_data lh'))" using assms(1) data by (simp add: lh_inv_def)
    then have "lh_num_items lh + (SIZE_MOD - 1) = size (lh_data lh') + SIZE_MOD" using assms(7) by simp
    then show ?thesis using n assms(7) by (simp add: szadd_def)
  qed
  ultimately show ?thesis using l ap' assms(1-3) by (simp add: lh_inv_def lh'_def)
qed

lemma delete_correct:
  assumes "lh_inv lh" "lh_hash lh = hash" "lh_comp lh = cmp" "lh_num_items lh < SIZE_MOD"
    "OPENSSL_lh_delete malloc lh d = (old, lh')"
  shows "lh_inv lh' \<and> lh_hash lh' = hash \<and> lh_comp lh' = cmp \<and> old = lh_lookup lh d \<and>
    lh_lookup lh' = (\<lambda>d'. if cmp d d' = 0 then None else lh_lookup lh d')"
proof -
  obtain h b i where g: "get_next_ptr_and_hash lh d = (h, b, i)" by (metis prod_cases3)
  note s = searched [OF assms(1-3) g]
  have ap: "apart cmp (lh_data lh)" using assms(1,3) by (simp add: lh_inv_def)
  show ?thesis
  proof (cases "deref_next lh b i")
    case None
    then have l: "lh_lookup lh d = None" using s(4) by simp
    have "lh_lookup lh d' = None" if "cmp d d' = 0" for d'
    proof (rule ccontr)
      assume "lh_lookup lh d' \<noteq> None"
      then obtain x where "x \<in># lh_data lh" "cmp x d' = 0" using lookup_Some [of lh d'] ap assms(3) by fastforce
      then have "lh_lookup lh d = Some x" using same_trans [OF _ same_sym [OF that]] lookup_Some [of lh d x] ap assms(3) by simp
      then show False using l by simp
    qed
    then show ?thesis using l assms by (auto simp: OPENSSL_lh_delete_def g None)
  next
    case (Some item)
    have "cmp (li_data item) d = 0" "lh_lookup lh d = Some (li_data item)"
      using s(4) Some lookup_Some [of lh d "li_data item"] ap assms(3) by simp_all
    let ?lh = "lh\<lparr>lh_buckets := (lh_buckets lh)[b := take i (lh_buckets lh ! b) @ drop (Suc i) (lh_buckets lh ! b)],
      lh_num_items := szadd (lh_num_items lh) (SIZE_MOD - 1)\<rparr>"
    have c: "lh_inv ?lh \<and> lh_lookup ?lh = (\<lambda>d'. if cmp d d' = 0 then None else lh_lookup lh d')"
      using remove_contents [OF assms(1-3) s(1), of i d] deref_data [OF Some] \<open>cmp (li_data item) d = 0\<close> assms(4) by simp
    have "lh_inv (lh_maybe_resize malloc ?lh) \<and> same_contents ?lh (lh_maybe_resize malloc ?lh)"
      using c by (intro resize_contents) simp
    moreover from this have "lh_lookup (lh_maybe_resize malloc ?lh) = lh_lookup ?lh"
      using c by (intro lookup_cong) (simp_all add: lh_inv_def same_contents_def)
    ultimately show ?thesis using c \<open>lh_lookup lh d = Some (li_data item)\<close> assms(2,3,5)
      by (auto simp: OPENSSL_lh_delete_def g Some same_contents_def Let_def)
  qed
qed

end

subsection \<open>Creation and iteration\<close>

lemma new_correct:
  "OPENSSL_lh_new malloc hash cmp = Some lh \<Longrightarrow> lh_inv lh \<and> lh_hash lh = hash \<and> lh_comp lh = cmp \<and> lh_lookup lh = Map.empty"
  by (auto simp: OPENSSL_lh_new_def lh_inv_def placed_def apart_def lh_data_def lh_lookup_def list_all_length split: if_splits)

lemma doall_correct:
  assumes "lh_inv lh" "OPENSSL_lh_doall_arg malloc func lh arg = (arg', lh')"
  shows "lh_inv lh' \<and> lh_hash lh' = lh_hash lh \<and> lh_comp lh' = lh_comp lh \<and> lh_lookup lh' = lh_lookup lh \<and>
    (\<exists>xs. mset xs = lh_data lh \<and> arg' = fold func xs arg)"
proof -
  define lh1 where "lh1 = (if lh_callback_depth lh < - 1 then lh\<lparr>lh_callback_depth := lh_callback_depth lh + 1\<rparr> else lh)"
  define lh2 where "lh2 = (if lh_callback_depth lh1 < - 1 then lh1\<lparr>lh_callback_depth := lh_callback_depth lh1 - 1\<rparr> else lh1)"
  have r: "lh' = lh_maybe_resize malloc lh2" "arg' = fold (fold (\<lambda>cur. func (li_data cur))) (lh_buckets lh1) arg"
    using assms(2) unfolding OPENSSL_lh_doall_arg_def Let_def lh1_def [symmetric] lh2_def [symmetric] by auto
  have i: "lh_inv lh2" "lh_data lh2 = lh_data lh" "lh_hash lh2 = lh_hash lh" "lh_comp lh2 = lh_comp lh" "lh_buckets lh1 = lh_buckets lh"
    using assms(1) by (auto simp: lh2_def lh1_def lh_inv_def lh_data_def)
  have "arg' = fold func (map li_data (concat (lh_buckets lh))) arg"
    by (simp add: r(2) i(5) fold_fold_concat fold_map comp_def)
  moreover have "mset (map li_data (concat (lh_buckets lh))) = lh_data lh" by (simp add: lh_data_def)
  moreover have c: "lh_inv lh' \<and> same_contents lh2 lh'" unfolding r(1) by (rule resize_contents [OF i(1)])
  moreover have "lh_lookup lh' = lh_lookup lh"
    using c i assms(1) by (intro lookup_cong) (simp_all add: lh_inv_def same_contents_def)
  ultimately show ?thesis using i
    by (auto simp: same_contents_def intro!: exI [of _ "map li_data (concat (lh_buckets lh))"])
qed

subsection \<open>Reachable tables\<close>

text \<open>
  The tables that the operations lead to, as long as the items, of 24 bytes each, fit into the address
  space; the results of the callbacks do not matter here. What \<open>malloc\<close> has to give may change from
  one call to the next, among the possibilities in \<open>mallocs\<close>.
\<close>

inductive lh_reachable :: "(nat \<Rightarrow> bool) set \<Rightarrow> ('a \<Rightarrow> u32) \<Rightarrow> ('a \<Rightarrow> 'a \<Rightarrow> int) \<Rightarrow> 'a lhash \<Rightarrow> bool"
  for mallocs hash cmp where
  new: "malloc \<in> mallocs \<Longrightarrow> OPENSSL_lh_new malloc hash cmp = Some lh \<Longrightarrow> lh_reachable mallocs hash cmp lh"
| insert: "malloc \<in> mallocs \<Longrightarrow> lh_reachable mallocs hash cmp lh \<Longrightarrow> 24 * Suc (lh_num_items lh) < SIZE_MOD \<Longrightarrow>
    OPENSSL_lh_insert malloc lh d = (ok, old, lh') \<Longrightarrow> lh_reachable mallocs hash cmp lh'"
| delete: "malloc \<in> mallocs \<Longrightarrow> lh_reachable mallocs hash cmp lh \<Longrightarrow>
    OPENSSL_lh_delete malloc lh d = (old, lh') \<Longrightarrow> lh_reachable mallocs hash cmp lh'"
| doall: "malloc \<in> mallocs \<Longrightarrow> lh_reachable mallocs hash cmp lh \<Longrightarrow>
    OPENSSL_lh_doall_arg malloc (\<lambda>_ (). ()) lh () = ((), lh') \<Longrightarrow> lh_reachable mallocs hash cmp lh'"

text \<open>Chains stay short: on average, they have fewer than three items.\<close>

definition lh_loaded :: "'a lhash \<Rightarrow> bool" where
  "lh_loaded lh \<longleftrightarrow> kMinNumBuckets \<le> lh_num_buckets lh \<and> lh_num_items lh < 3 * lh_num_buckets lh \<and> lh_callback_depth lh = 0"

lemma rebucket_size:
  "(\<And>n. malloc n) \<Longrightarrow> 8 * n < SIZE_MOD \<Longrightarrow> lh_num_buckets (lh_rebucket malloc lh n) = n"
  "lh_num_buckets (lh_rebucket malloc lh n) \<in> {n, lh_num_buckets lh}"
  "lh_num_items (lh_rebucket malloc lh n) = lh_num_items lh" "lh_callback_depth (lh_rebucket malloc lh n) = lh_callback_depth lh"
  by (simp_all add: lh_rebucket_def Let_def)

lemma resize_loaded:
  assumes "\<And>n. malloc n" "kMinNumBuckets \<le> lh_num_buckets lh" "lh_num_items lh \<le> 3 * lh_num_buckets lh"
    "lh_callback_depth lh = 0" "24 * lh_num_items lh < SIZE_MOD"
  shows "lh_loaded (lh_maybe_resize malloc lh)"
proof -
  let ?n = "lh_num_buckets lh" and ?k = "lh_num_items lh"
  have n: "16 \<le> ?n" using assms(2) by (simp add: kMinNumBuckets_def)
  consider (grow) "3 * ?n \<le> ?k" | (shrink) "?k < ?n" "16 < ?n" | (keep) "?k < 3 * ?n" "?n \<le> ?k \<or> ?n \<le> 16" by linarith
  then show ?thesis
  proof cases
    case grow
    then have a: "2 < ?k div ?n" using n by (simp add: less_eq_div_iff_mult_less_eq Suc_le_eq [symmetric])
    have "8 * (?n * 2) < SIZE_MOD" using grow assms(5) by linarith
    then have "?n * 2 mod SIZE_MOD = ?n * 2" by simp
    with a n show ?thesis using rebucket_size(1) [of malloc "?n * 2" lh] assms(1,3,4) \<open>8 * (?n * 2) < SIZE_MOD\<close>
      by (simp add: rebucket_size(3,4) lh_maybe_resize_def lh_loaded_def kMaxAverageChainLength_def kMinNumBuckets_def Let_def)
  next
    case shrink
    then have a: "?k div ?n = 0" by simp
    have "?k < 3 * max 16 (?n div 2)" using shrink by linarith
    with a shrink show ?thesis using rebucket_size(2) [of malloc lh "max 16 (?n div 2)"] assms(4)
      by (auto simp: lh_maybe_resize_def lh_loaded_def kMaxAverageChainLength_def kMinAverageChainLength_def kMinNumBuckets_def
          rebucket_size(3,4) Let_def)
  next
    case keep
    then have "?k div ?n < 3" by (intro less_mult_imp_div_less) simp
    moreover have "0 < ?k div ?n \<or> ?n \<le> 16" using keep(2) n by (auto simp: div_greater_zero_iff)
    ultimately have "lh_maybe_resize malloc lh = lh"
      by (auto simp: lh_maybe_resize_def kMaxAverageChainLength_def kMinAverageChainLength_def kMinNumBuckets_def)
    then show ?thesis using keep(1) assms(2,4) by (simp add: lh_loaded_def)
  qed
qed

lemma insert_loaded:
  assumes "\<And>n. malloc n" "lh_loaded lh" "24 * Suc (lh_num_items lh) < SIZE_MOD" "OPENSSL_lh_insert malloc lh d = (ok, old, lh')"
  shows "lh_loaded lh'"
proof -
  obtain h b i where g: "get_next_ptr_and_hash lh d = (h, b, i)" by (metis prod_cases3)
  have "szadd (lh_num_items lh) 1 = Suc (lh_num_items lh)" using assms(3) by (simp add: szadd_exact)
  then have "lh_loaded (lh_maybe_resize malloc (lh\<lparr>lh_buckets := bs, lh_num_items := szadd (lh_num_items lh) 1\<rparr>))" for bs
    using assms(1-3) by (intro resize_loaded) (simp_all add: lh_loaded_def)
  moreover have "lh_loaded (lh\<lparr>lh_buckets := bs\<rparr>)" for bs using assms(2) by (simp add: lh_loaded_def)
  moreover obtain bs where "lh' = lh\<lparr>lh_buckets := bs\<rparr> \<or> lh' = lh_maybe_resize malloc (lh\<lparr>lh_buckets := bs, lh_num_items := szadd (lh_num_items lh) 1\<rparr>)"
    using assms(1,4) that by (cases "deref_next lh b i") (simp_all add: OPENSSL_lh_insert_def g Let_def, metis+)
  ultimately show ?thesis by auto
qed

lemma delete_loaded:
  assumes "\<And>n. malloc n" "lh_loaded lh" "24 * lh_num_items lh < SIZE_MOD" "0 < lh_num_items lh" "OPENSSL_lh_delete malloc lh d = (old, lh')"
  shows "lh_loaded lh'"
proof -
  obtain h b i where g: "get_next_ptr_and_hash lh d = (h, b, i)" by (metis prod_cases3)
  have e: "lh_num_items lh + (SIZE_MOD - 1) = lh_num_items lh - 1 + SIZE_MOD" using assms(3,4) by simp
  have "szadd (lh_num_items lh) (SIZE_MOD - 1) = (lh_num_items lh - 1 + SIZE_MOD) mod SIZE_MOD" by (simp only: szadd_def e)
  also have "\<dots> = lh_num_items lh - 1" using assms(3) by simp
  finally have "szadd (lh_num_items lh) (SIZE_MOD - 1) = lh_num_items lh - 1" .
  then have "lh_loaded (lh_maybe_resize malloc (lh\<lparr>lh_buckets := bs, lh_num_items := szadd (lh_num_items lh) (SIZE_MOD - 1)\<rparr>))" for bs
    using assms(1-4) by (intro resize_loaded) (auto simp: lh_loaded_def)
  moreover obtain bs where "lh' = lh \<or> lh' = lh_maybe_resize malloc (lh\<lparr>lh_buckets := bs, lh_num_items := szadd (lh_num_items lh) (SIZE_MOD - 1)\<rparr>)"
    using assms(5) that by (cases "deref_next lh b i") (simp_all add: OPENSSL_lh_delete_def g Let_def, metis)
  ultimately show ?thesis using assms(2) by auto
qed

lemma doall_loaded:
  assumes "\<And>n. malloc n" "lh_loaded lh" "24 * lh_num_items lh < SIZE_MOD" "OPENSSL_lh_doall_arg malloc func lh arg = (arg', lh')"
  shows "lh_loaded lh'"
proof -
  have "lh_callback_depth lh = 0" using assms(2) by (simp add: lh_loaded_def)
  moreover have "(0 :: u32) < - 1" "(1 :: u32) < - 1"
    by (simp_all add: word_less_nat_alt unsigned_minus_1_eq_mask mask_numeral)
  ultimately have "lh' = lh_maybe_resize malloc (lh\<lparr>lh_callback_depth := 0\<rparr>)"
    using assms(4) by (auto simp: OPENSSL_lh_doall_arg_def Let_def)
  moreover have "lh_loaded (lh_maybe_resize malloc (lh\<lparr>lh_callback_depth := 0\<rparr>))"
    using assms(1-3) by (intro resize_loaded) (simp_all add: lh_loaded_def)
  ultimately show ?thesis by simp
qed

lemma resize_items [simp]: "lh_num_items (lh_maybe_resize malloc lh) = lh_num_items lh"
  by (simp add: lh_maybe_resize_def rebucket_size(3) Let_def)

context hash_contract
begin

lemma insert_items:
  assumes "OPENSSL_lh_insert malloc lh d = (ok, old, lh')" "Suc (lh_num_items lh) < SIZE_MOD"
  shows "lh_num_items lh' \<le> Suc (lh_num_items lh)"
proof -
  obtain h b i where g: "get_next_ptr_and_hash lh d = (h, b, i)" by (metis prod_cases3)
  show ?thesis using assms
    by (cases "deref_next lh b i") (auto simp: OPENSSL_lh_insert_def g Let_def szadd_exact split: if_splits)
qed

lemma delete_items:
  assumes "lh_inv lh" "lh_hash lh = hash" "lh_comp lh = cmp" "lh_num_items lh < SIZE_MOD" "OPENSSL_lh_delete malloc lh d = (old, lh')"
  shows "lh_num_items lh' \<le> lh_num_items lh" "lh_num_items lh = 0 \<Longrightarrow> lh' = lh"
proof -
  obtain h b i where g: "get_next_ptr_and_hash lh d = (h, b, i)" by (metis prod_cases3)
  have pos: "0 < lh_num_items lh" if "deref_next lh b i \<noteq> None"
  proof -
    from that obtain x where "lh_lookup lh d = Some x" using searched(4) [OF assms(1-3) g] by (metis option.exhaust option.map_disc_iff)
    then have "x \<in># lh_data lh" using lookup_Some [of lh d x] assms(1) by (simp add: lh_inv_def)
    then have "0 < size (lh_data lh)" by (metis empty_not_add_mset multi_member_split nonempty_has_size)
    then show ?thesis using assms(1) by (simp add: lh_inv_def)
  qed
  then show "lh_num_items lh = 0 \<Longrightarrow> lh' = lh"
    using assms(5) by (cases "deref_next lh b i") (auto simp: OPENSSL_lh_delete_def g Let_def)
  have "szadd (lh_num_items lh) (SIZE_MOD - 1) \<le> lh_num_items lh" if "0 < lh_num_items lh"
    using szadd_wraps [of "lh_num_items lh" "SIZE_MOD - 1"] assms(4) that by (simp add: SIZE_MOD_def)
  then show "lh_num_items lh' \<le> lh_num_items lh"
    using assms(5) pos by (cases "deref_next lh b i") (auto simp: OPENSSL_lh_delete_def g Let_def)
qed

lemma reachable_inv:
  "lh_reachable mallocs hash cmp lh \<Longrightarrow>
   lh_inv lh \<and> lh_hash lh = hash \<and> lh_comp lh = cmp \<and> 24 * lh_num_items lh < SIZE_MOD \<and> 
     (mallocs \<subseteq> {\<lambda>_. True} \<longrightarrow> lh_loaded lh)"
proof (induction rule: lh_reachable.induct)
  case (new malloc lh)
  then have "lh_num_items lh = 0 \<and> lh_loaded lh"
    by (auto simp: OPENSSL_lh_new_def lh_loaded_def kMinNumBuckets_def split: if_splits)
  then show ?case using new_correct [OF new(2)] by (simp add: SIZE_MOD_def)
next
  case (insert malloc lh d ok old lh')
  then have n: "Suc (lh_num_items lh) < SIZE_MOD" by simp
  have "lh_inv lh' \<and> lh_hash lh' = hash \<and> lh_comp lh' = cmp" using insert_correct [of lh malloc d ok old lh'] insert n by blast
  moreover have "24 * lh_num_items lh' < SIZE_MOD" using insert_items [OF insert(4) n] insert(3) by simp
  moreover have "lh_loaded lh'" if "mallocs \<subseteq> {\<lambda>_. True}" using insert_loaded [of malloc lh d ok old lh'] insert that by fastforce
  ultimately show ?case by blast
next
  case (delete malloc lh d old lh')
  then have n: "lh_num_items lh < SIZE_MOD" by simp
  have d: "lh_num_items lh' \<le> lh_num_items lh" "lh_num_items lh = 0 \<Longrightarrow> lh' = lh"
    using delete_items [of lh malloc d old lh'] delete n by blast+
  have "lh_inv lh' \<and> lh_hash lh' = hash \<and> lh_comp lh' = cmp" using delete_correct [of lh malloc d old lh'] delete n by blast
  moreover have "24 * lh_num_items lh' < SIZE_MOD" using d(1) delete.IH by simp
  moreover have "lh_loaded lh'" if "mallocs \<subseteq> {\<lambda>_. True}"
    using delete_loaded [of malloc lh d old lh'] d(2) delete that by (cases "lh_num_items lh = 0") auto
  ultimately show ?case by blast
next
  case (doall malloc lh lh')
  have "lh_num_items lh' = lh_num_items lh" using doall(3) by (auto simp: OPENSSL_lh_doall_arg_def Let_def)
  moreover have "lh_loaded lh'" if "mallocs \<subseteq> {\<lambda>_. True}" 
  proof (rule doall_loaded [OF _ _ _ doall(3)])
    show "malloc n" for n using doall(1) that by auto
  qed (use doall.IH that in simp_all)
  ultimately show ?case using doall_correct [OF _ doall(3)] doall.IH by simp
qed

end

end
