(* ===== verification/Cstring.thy ===== *)
theory Cstring
  imports C_Prelude Order
begin

text \<open>
  The byte and string functions of \<open>crypto/mem.c\<close>, with \<open>strcmp\<close> of the C library. A C string is the
  list of its bytes without the terminator, so that reading at the end of the list gives the
  terminator. \<open>char\<close> is signed. A null pointer is \<open>None\<close>, and whether \<open>OPENSSL_malloc\<close> succeeds is a parameter.
\<close>

subsection \<open>Functions\<close>

definition INT_MAX :: nat where "INT_MAX = 2147483647"

text \<open>What a pointer to bytes leads to, where it is followed.\<close>

definition at_ptr :: "bytes option \<Rightarrow> bytes" where
  "at_ptr p = (case p of None \<Rightarrow> [] | Some bs \<Rightarrow> bs)"

text \<open>\<open>strcmp\<close>: the difference of the first bytes that differ, as \<open>unsigned char\<close>s; \<open>memcmp\<close> on runs of the same length.\<close>

fun bytes_cmp :: "bytes \<Rightarrow> bytes \<Rightarrow> int" where
  "bytes_cmp [] [] = 0"
| "bytes_cmp [] (b # bs) = - 1"
| "bytes_cmp (a # as) [] = 1"
| "bytes_cmp (a # as) (b # bs) = (if a = b then bytes_cmp as bs else uint a - uint b)"

text \<open>Without a branch on the bytes, over the first \<open>len\<close> bytes of each run.\<close>

definition CRYPTO_memcmp :: "bytes \<Rightarrow> bytes \<Rightarrow> nat \<Rightarrow> u8" where
  "CRYPTO_memcmp a b len = fold (\<lambda>i x. x OR (a ! i XOR b ! i)) [0..<len] 0"

text \<open>FNV-1a.\<close>

definition OPENSSL_hash32 :: "bytes \<Rightarrow> u32" where
  "OPENSSL_hash32 bs = fold (\<lambda>b h. (h XOR ucast b) * 16777619) bs 2166136261"

definition OPENSSL_strhash :: "bytes \<Rightarrow> u32" where
  "OPENSSL_strhash s = OPENSSL_hash32 s"

text \<open>The run of memory that the pointer of \<open>OPENSSL_strnlen\<close> leads to, of at least \<open>len\<close> bytes or with a zero.\<close>

fun OPENSSL_strnlen :: "bytes \<Rightarrow> nat \<Rightarrow> nat" where
  "OPENSSL_strnlen s 0 = 0"
| "OPENSSL_strnlen [] (Suc len) = 0"
| "OPENSSL_strnlen (c # s) (Suc len) = (if c = 0 then 0 else Suc (OPENSSL_strnlen s len))"

definition OPENSSL_strdup :: "(nat \<Rightarrow> bool) \<Rightarrow> bytes option \<Rightarrow> bytes option" where
  "OPENSSL_strdup malloc s =
    (case s of None \<Rightarrow> None | Some s \<Rightarrow> let len = szadd (length s) 1 in if \<not> malloc len then None else Some s)"

definition OPENSSL_strndup :: "(nat \<Rightarrow> bool) \<Rightarrow> bytes \<Rightarrow> nat \<Rightarrow> bytes option" where
  "OPENSSL_strndup malloc str size' =
    (let size' = OPENSSL_strnlen str size'; alloc_size = szadd size' 1 in
     if alloc_size < size' then None
     else if \<not> malloc alloc_size then None
     else Some (take size' str))"

definition OPENSSL_tolower :: "int \<Rightarrow> int" where
  "OPENSSL_tolower c = (if c \<ge> 65 \<and> c \<le> 90 then c + (97 - 65) else c)"

definition cur_char :: "bytes \<Rightarrow> int" where
  "cur_char s = (case s of [] \<Rightarrow> 0 | c # _ \<Rightarrow> sint c)"

function OPENSSL_strcasecmp :: "bytes \<Rightarrow> bytes \<Rightarrow> int" where
  "OPENSSL_strcasecmp a b =
    (let aa = OPENSSL_tolower (cur_char a); bb = OPENSSL_tolower (cur_char b) in
     if aa < bb then - 1 else if aa > bb then 1 else if aa = 0 then 0
     else OPENSSL_strcasecmp (tl a) (tl b))"
  by pat_completeness auto
termination
  by (relation "measure (\<lambda>(a, b). length a)") (auto simp: OPENSSL_tolower_def cur_char_def split: list.splits)

fun OPENSSL_strncasecmp :: "bytes \<Rightarrow> bytes \<Rightarrow> nat \<Rightarrow> int" where
  "OPENSSL_strncasecmp a b 0 = 0"
| "OPENSSL_strncasecmp a b (Suc n) =
    (let aa = OPENSSL_tolower (cur_char a); bb = OPENSSL_tolower (cur_char b) in
     if aa < bb then - 1 else if aa > bb then 1 else if aa = 0 then 0
     else OPENSSL_strncasecmp (tl a) (tl b) n)"

text \<open>
  \<open>OPENSSL_strlcpy\<close>: the bytes that are written from \<open>dst\<close> on, and the result.
\<close>

fun strlcpy_loop :: "bytes \<Rightarrow> nat \<Rightarrow> nat \<Rightarrow> bytes \<times> nat" where
  "strlcpy_loop src dst_size l =
    (case src of
       c # src' \<Rightarrow>
         if dst_size > 1 then (let (out, r) = strlcpy_loop src' (dst_size - 1) (l + 1) in (c # out, r))
         else (if dst_size \<noteq> 0 then [0] else [], l + length src)
     | [] \<Rightarrow> (if dst_size \<noteq> 0 then [0] else [], l + length src))"

definition OPENSSL_strlcpy :: "bytes \<Rightarrow> nat \<Rightarrow> bytes \<times> nat" where
  "OPENSSL_strlcpy src dst_size = strlcpy_loop src dst_size 0"

text \<open>\<open>OPENSSL_strlcat\<close>, on the string at \<open>dst\<close>: the bytes at \<open>dst\<close> that it writes or passes over.\<close>

fun strlcat_loop :: "bytes \<Rightarrow> bytes \<Rightarrow> nat \<Rightarrow> nat \<Rightarrow> bytes \<times> nat" where
  "strlcat_loop dst src dst_size l =
    (case dst of
       c # dst' \<Rightarrow>
         if dst_size > 0 then (let (out, r) = strlcat_loop dst' src (dst_size - 1) (l + 1) in (c # out, r))
         else (let (out, r) = OPENSSL_strlcpy src dst_size in (out, l + r))
     | [] \<Rightarrow> (let (out, r) = OPENSSL_strlcpy src dst_size in (out, l + r)))"

definition OPENSSL_strlcat :: "bytes \<Rightarrow> bytes \<Rightarrow> nat \<Rightarrow> bytes \<times> nat" where
  "OPENSSL_strlcat dst src dst_size = strlcat_loop dst src dst_size 0"

definition OPENSSL_memdup :: "(nat \<Rightarrow> bool) \<Rightarrow> bytes \<Rightarrow> nat \<Rightarrow> bytes option" where
  "OPENSSL_memdup malloc data size' = (if size' = 0 then None else if \<not> malloc size' then None else Some (take size' data))"

declare OPENSSL_strcasecmp.simps [simp del] strlcpy_loop.simps [simp del] strlcat_loop.simps [simp del]

subsection \<open>The order of strings\<close>

lemma bytes_cmp_0 [simp]: "bytes_cmp a b = 0 \<longleftrightarrow> a = b"
  by (induction a b rule: bytes_cmp.induct) (auto dest: word_uint_eqI)

lemma bytes_cmp_opposite: "bytes_cmp b a = - bytes_cmp a b"
  by (induction a b rule: bytes_cmp.induct) auto

lemma bytes_cmp_trans: "bytes_cmp a b \<le> 0 \<Longrightarrow> bytes_cmp b c \<le> 0 \<Longrightarrow> bytes_cmp a c \<le> 0"
proof (induction a b arbitrary: c rule: bytes_cmp.induct)
  case (2 b bs)
  then show ?case by (cases c) simp_all
next
  case (4 a as b bs)
  then show ?case by (cases c) (auto split: if_splits dest: word_uint_eqI)
qed (auto split: if_splits elim: bytes_cmp.elims)

interpretation strings: strict_comparison bytes_cmp
proof
  show "bytes_cmp a b \<le> 0 \<or> bytes_cmp b a \<le> 0" for a b using bytes_cmp_opposite [of b a] by linarith
  show "bytes_cmp a b \<le> 0 \<Longrightarrow> bytes_cmp b a \<le> 0 \<Longrightarrow> a = b" for a b using bytes_cmp_opposite [of b a] by simp
qed (simp_all add: bytes_cmp_trans)

subsection \<open>Correctness\<close>

lemma xor_0_iff: "a XOR b = 0 \<longleftrightarrow> a = b" for a b :: "'a::len word"
  by (metis xor.assoc xor.right_neutral xor_self_eq)

lemma CRYPTO_memcmp_0: "len \<le> length a \<Longrightarrow> len \<le> length b \<Longrightarrow> CRYPTO_memcmp a b len = 0 \<longleftrightarrow> take len a = take len b"
proof (induction len)
  case (Suc len)
  then show ?case by (simp add: CRYPTO_memcmp_def take_Suc_conv_app_nth or_eq_0_iff xor_0_iff)
qed (simp add: CRYPTO_memcmp_def)

lemma strnlen_takeWhile: "OPENSSL_strnlen s n = length (takeWhile (\<lambda>c. c \<noteq> 0) (take n s))"
  by (induction s n rule: OPENSSL_strnlen.induct) auto

lemma strndup_takeWhile:
  assumes "OPENSSL_strndup malloc str n = Some s"
  shows "s = takeWhile (\<lambda>c. c \<noteq> 0) (take n str)"
proof -
  let ?t = "takeWhile (\<lambda>c. c \<noteq> 0) (take n str)"
  have "length ?t \<le> n" using length_takeWhile_le [of "\<lambda>c. c \<noteq> 0" "take n str"] by simp
  then have "take (length ?t) str = take (length ?t) (take n str)" by (simp add: min_absorb1)
  also have "\<dots> = ?t" by (rule takeWhile_eq_take [symmetric])
  finally show ?thesis using assms by (auto simp: OPENSSL_strndup_def strnlen_takeWhile Let_def split: if_splits)
qed

lemma strncasecmp_all: "length a < n \<Longrightarrow> OPENSSL_strncasecmp a b n = OPENSSL_strcasecmp a b"
proof (induction a b n rule: OPENSSL_strncasecmp.induct)
  case (2 a b n)
  show ?case
  proof (cases a)
    case Nil
    then show ?thesis by (subst OPENSSL_strcasecmp.simps) (simp add: cur_char_def OPENSSL_tolower_def Let_def)
  next
    case (Cons c cs)
    then show ?thesis using 2 by (subst OPENSSL_strcasecmp.simps) (simp add: Let_def)
  qed
qed simp

lemma tolower_0: "OPENSSL_tolower 0 = 0" "OPENSSL_tolower (sint (c :: u8)) = 0 \<longleftrightarrow> c = 0"
  by (auto simp: OPENSSL_tolower_def intro!: signed_word_eqI [of c 0])

text \<open>Two strings are the same for \<open>OPENSSL_strcasecmp\<close> if they are equal once in lower case.\<close>

lemma strcasecmp_0:
  "0 \<notin> set a \<Longrightarrow> 0 \<notin> set b \<Longrightarrow>
   OPENSSL_strcasecmp a b = 0 \<longleftrightarrow> map (\<lambda>c. OPENSSL_tolower (sint c)) a = map (\<lambda>c. OPENSSL_tolower (sint c)) b"
proof (induction a arbitrary: b)
  case Nil
  then show ?case by (subst OPENSSL_strcasecmp.simps) (cases b, auto simp: cur_char_def tolower_0 Let_def)
next
  case (Cons c a)
  then show ?case by (subst OPENSSL_strcasecmp.simps) (cases b, auto simp: cur_char_def tolower_0 Let_def)
qed

lemma strlcpy_truncates:
  "OPENSSL_strlcpy src n = (if n = 0 then [] else take (n - 1) src @ [0], length src)"
proof -
  have "strlcpy_loop src n l = (if n = 0 then [] else take (n - 1) src @ [0], l + length src)" for l
  proof (induction src arbitrary: n l)
    case (Cons c src)
    then show ?case by (subst strlcpy_loop.simps) (cases n, auto simp: take_Cons split: nat.split)
  qed (subst strlcpy_loop.simps, simp)
  then show ?thesis by (simp add: OPENSSL_strlcpy_def)
qed

end
