(* ===== verification/Obj.thy ===== *)
theory Obj
  imports Oid Lhash Cstring "HOL-Library.Monad_Syntax"
begin

text \<open>
  The registry of object identifiers of \<open>crypto/obj/obj.c\<close>, with the objects of \<open>crypto/asn1/a_object.c\<close>.
  The state is the counter of numbers and the four hash tables of the objects that are added at run
  time; the tables of \<open>obj_dat.h\<close>, which are generated, are a parameter. A null pointer is \<open>None\<close>, an
  \<open>int\<close> is its 32 bits, and strings have no terminator. The locks are left out: an operation is one step.
\<close>

subsection \<open>Objects\<close>

record asn1_object =
  ob_sn :: "bytes option"
  ob_ln :: "bytes option"
  ob_nid :: u32
  ob_length :: u32
  ob_data :: "bytes option"
  ob_flags :: u32

definition NID_undef :: u32 where "NID_undef = 0"
definition NUM_NID :: u32 where "NUM_NID = 963"
definition ASN1_OBJECT_FLAG_DYNAMIC :: u32 where "ASN1_OBJECT_FLAG_DYNAMIC = 1"
definition ASN1_OBJECT_FLAG_DYNAMIC_STRINGS :: u32 where "ASN1_OBJECT_FLAG_DYNAMIC_STRINGS = 4"
definition ASN1_OBJECT_FLAG_DYNAMIC_DATA :: u32 where "ASN1_OBJECT_FLAG_DYNAMIC_DATA = 8"

text \<open>The \<open>length\<close> bytes at \<open>data\<close>.\<close>

definition obj_bytes :: "asn1_object \<Rightarrow> bytes" where
  "obj_bytes obj = take (nat (sint (ob_length obj))) (at_ptr (ob_data obj))"

definition ASN1_OBJECT_new :: "mem_env \<Rightarrow> asn1_object option" where
  "ASN1_OBJECT_new env =
    (if \<not> env_malloc env 40 then None
     else Some \<lparr>ob_sn = None, ob_ln = None, ob_nid = 0, ob_length = 0, ob_data = None, ob_flags = ASN1_OBJECT_FLAG_DYNAMIC\<rparr>)"

text \<open>A null string is copied to a null string; otherwise \<open>None\<close> is a failure to allocate.\<close>

definition dup_name :: "mem_env \<Rightarrow> bytes option \<Rightarrow> bytes option option" where
  "dup_name env s =
    (if s \<noteq> None then (case OPENSSL_strdup (env_malloc env) s of None \<Rightarrow> None | Some s \<Rightarrow> Some (Some s)) else Some None)"

definition OBJ_dup :: "mem_env \<Rightarrow> asn1_object option \<Rightarrow> asn1_object option" where
  "OBJ_dup env obj =
    (case obj of
       None \<Rightarrow> None
     | Some ob \<Rightarrow>
         if ob_flags ob AND ASN1_OBJECT_FLAG_DYNAMIC = 0 then Some ob
         else (case ASN1_OBJECT_new env of
             None \<Rightarrow> None
           | Some r \<Rightarrow>
               let len = unat (scast (ob_length ob) :: u64) in
               if \<not> env_malloc env len then None
               else
                 let data = (if ob_data ob \<noteq> None then obj_bytes ob else map (env_uninit env) [0..<len]);
                     r = r\<lparr>ob_data := Some data, ob_length := ob_length ob, ob_nid := ob_nid ob\<rparr>
                 in case dup_name env (ob_ln ob) of
                      None \<Rightarrow> None
                    | Some ln \<Rightarrow> (case dup_name env (ob_sn ob) of
                        None \<Rightarrow> None
                      | Some sn \<Rightarrow> Some (r\<lparr>ob_sn := sn, ob_ln := ln,
                          ob_flags := ob_flags ob OR (ASN1_OBJECT_FLAG_DYNAMIC OR ASN1_OBJECT_FLAG_DYNAMIC_STRINGS
                            OR ASN1_OBJECT_FLAG_DYNAMIC_DATA)\<rparr>))))"

definition ASN1_OBJECT_create :: "mem_env \<Rightarrow> u32 \<Rightarrow> bytes \<Rightarrow> u32 \<Rightarrow> bytes option \<Rightarrow> bytes option \<Rightarrow> asn1_object option" where
  "ASN1_OBJECT_create env nid data len sn ln =
    OBJ_dup env (Some \<lparr>ob_sn = sn, ob_ln = ln, ob_nid = nid, ob_length = len, ob_data = Some data,
      ob_flags = ASN1_OBJECT_FLAG_DYNAMIC OR ASN1_OBJECT_FLAG_DYNAMIC_STRINGS OR ASN1_OBJECT_FLAG_DYNAMIC_DATA\<rparr>)"

definition OBJ_cmp :: "asn1_object \<Rightarrow> asn1_object \<Rightarrow> int" where
  "OBJ_cmp a b =
    (let ret = sint (ob_length a) - sint (ob_length b) in if ret \<noteq> 0 then ret else bytes_cmp (obj_bytes a) (obj_bytes b))"

definition OBJ_get0_data :: "asn1_object option \<Rightarrow> bytes option" where
  "OBJ_get0_data obj = (case obj of None \<Rightarrow> None | Some ob \<Rightarrow> ob_data ob)"

definition OBJ_length :: "asn1_object option \<Rightarrow> nat" where
  "OBJ_length obj = (case obj of None \<Rightarrow> 0 | Some ob \<Rightarrow> if sint (ob_length ob) < 0 then 0 else nat (sint (ob_length ob)))"

subsection \<open>The keys of the tables\<close>

definition hash_nid :: "asn1_object \<Rightarrow> u32" where "hash_nid obj = ob_nid obj"
definition cmp_nid :: "asn1_object \<Rightarrow> asn1_object \<Rightarrow> int" where "cmp_nid a b = sint (ob_nid a) - sint (ob_nid b)"

definition hash_data :: "asn1_object \<Rightarrow> u32" where "hash_data obj = OPENSSL_hash32 (obj_bytes obj)"
definition cmp_data :: "asn1_object \<Rightarrow> asn1_object \<Rightarrow> int" where
  "cmp_data a b =
    (let i = sint (ob_length a) - sint (ob_length b) in if i \<noteq> 0 then i else bytes_cmp (obj_bytes a) (obj_bytes b))"

definition hash_short_name :: "asn1_object \<Rightarrow> u32" where "hash_short_name obj = OPENSSL_strhash (at_ptr (ob_sn obj))"
definition cmp_short_name :: "asn1_object \<Rightarrow> asn1_object \<Rightarrow> int" where
  "cmp_short_name a b = bytes_cmp (at_ptr (ob_sn a)) (at_ptr (ob_sn b))"
definition hash_long_name :: "asn1_object \<Rightarrow> u32" where "hash_long_name obj = OPENSSL_strhash (at_ptr (ob_ln obj))"
definition cmp_long_name :: "asn1_object \<Rightarrow> asn1_object \<Rightarrow> int" where
  "cmp_long_name a b = bytes_cmp (at_ptr (ob_ln a)) (at_ptr (ob_ln b))"

subsection \<open>The registry\<close>

record obj_dat =
  kObjects :: "asn1_object list"
  kNIDsInOIDOrder :: "u16 list"
  kNIDsInShortNameOrder :: "u16 list"
  kNIDsInLongNameOrder :: "u16 list"

record obj_state =
  global_next_nid :: u32
  global_added_by_data :: "asn1_object lhash option"
  global_added_by_nid :: "asn1_object lhash option"
  global_added_by_short_name :: "asn1_object lhash option"
  global_added_by_long_name :: "asn1_object lhash option"

definition obj_init :: obj_state where
  "obj_init = \<lparr>global_next_nid = NUM_NID, global_added_by_data = None, global_added_by_nid = None,
    global_added_by_short_name = None, global_added_by_long_name = None\<rparr>"

definition obj_next_nid :: "obj_state \<Rightarrow> u32 \<times> obj_state" where
  "obj_next_nid st = (global_next_nid st, st\<lparr>global_next_nid := global_next_nid st + 1\<rparr>)"

text \<open>\<open>bsearch\<close> of the C library, where \<open>cmp\<close> compares the key with an element.\<close>

function bsearch_range :: "('b \<Rightarrow> int) \<Rightarrow> 'b list \<Rightarrow> nat \<Rightarrow> nat \<Rightarrow> 'b option" where
  "bsearch_range cmp xs lo hi =
    (if lo < hi then
       let mid = (lo + hi) div 2; r = cmp (xs ! mid) in
       if r < 0 then bsearch_range cmp xs lo mid
       else if r > 0 then bsearch_range cmp xs (mid + 1) hi
       else Some (xs ! mid)
     else None)"
  by pat_completeness auto
termination
  by (relation "measure (\<lambda>(_, _, lo, hi). hi - lo)") (auto simp: Let_def)

declare bsearch_range.simps [simp del]

definition bsearch :: "('b \<Rightarrow> int) \<Rightarrow> 'b list \<Rightarrow> 'b option" where
  "bsearch cmp xs = bsearch_range cmp xs 0 (length xs)"

definition obj_cmp :: "obj_dat \<Rightarrow> asn1_object \<Rightarrow> u16 \<Rightarrow> int" where
  "obj_cmp dat a nid =
    (let b = kObjects dat ! unat nid in
     if sint (ob_length a) < sint (ob_length b) then - 1
     else if sint (ob_length a) > sint (ob_length b) then 1
     else bytes_cmp (obj_bytes a) (obj_bytes b))"

definition short_name_cmp :: "obj_dat \<Rightarrow> bytes \<Rightarrow> u16 \<Rightarrow> int" where
  "short_name_cmp dat name nid = bytes_cmp name (at_ptr (ob_sn (kObjects dat ! unat nid)))"

definition long_name_cmp :: "obj_dat \<Rightarrow> bytes \<Rightarrow> u16 \<Rightarrow> int" where
  "long_name_cmp dat name nid = bytes_cmp name (at_ptr (ob_ln (kObjects dat ! unat nid)))"

text \<open>The object on the stack that a lookup uses as its key; the fields that are not set are not read.\<close>

definition template :: asn1_object where
  "template = \<lparr>ob_sn = None, ob_ln = None, ob_nid = 0, ob_length = 0, ob_data = None, ob_flags = 0\<rparr>"

text \<open>A lookup in a table that may not exist yet.\<close>

definition added_match :: "asn1_object lhash option \<Rightarrow> asn1_object \<Rightarrow> asn1_object option" where
  "added_match table key = (case table of None \<Rightarrow> None | Some lh \<Rightarrow> OPENSSL_lh_retrieve lh key)"

definition builtin_nid :: "obj_dat \<Rightarrow> u16 option \<Rightarrow> u32" where
  "builtin_nid dat nid_ptr = (case nid_ptr of None \<Rightarrow> NID_undef | Some nid \<Rightarrow> ob_nid (kObjects dat ! unat nid))"

definition OBJ_obj2nid :: "obj_dat \<Rightarrow> obj_state \<Rightarrow> asn1_object option \<Rightarrow> u32" where
  "OBJ_obj2nid dat st obj =
    (case obj of
       None \<Rightarrow> NID_undef
     | Some ob \<Rightarrow>
         if ob_nid ob \<noteq> 0 then ob_nid ob
         else (case added_match (global_added_by_data st) ob of
             Some match \<Rightarrow> ob_nid match
           | None \<Rightarrow> builtin_nid dat (bsearch (obj_cmp dat ob) (kNIDsInOIDOrder dat))))"

definition OBJ_cbs2nid :: "obj_dat \<Rightarrow> obj_state \<Rightarrow> cbs \<Rightarrow> u32" where
  "OBJ_cbs2nid dat st cbs =
    (if CBS_len cbs > INT_MAX then NID_undef
     else OBJ_obj2nid dat st (Some (template\<lparr>ob_data := Some cbs, ob_length := of_nat (CBS_len cbs)\<rparr>)))"

definition OBJ_sn2nid :: "obj_dat \<Rightarrow> obj_state \<Rightarrow> bytes \<Rightarrow> u32" where
  "OBJ_sn2nid dat st short_name =
    (case added_match (global_added_by_short_name st) (template\<lparr>ob_sn := Some short_name\<rparr>) of
       Some match \<Rightarrow> ob_nid match
     | None \<Rightarrow> builtin_nid dat (bsearch (short_name_cmp dat short_name) (kNIDsInShortNameOrder dat)))"

definition OBJ_ln2nid :: "obj_dat \<Rightarrow> obj_state \<Rightarrow> bytes \<Rightarrow> u32" where
  "OBJ_ln2nid dat st long_name =
    (case added_match (global_added_by_long_name st) (template\<lparr>ob_ln := Some long_name\<rparr>) of
       Some match \<Rightarrow> ob_nid match
     | None \<Rightarrow> builtin_nid dat (bsearch (long_name_cmp dat long_name) (kNIDsInLongNameOrder dat)))"

definition OBJ_nid2obj :: "obj_dat \<Rightarrow> obj_state \<Rightarrow> u32 \<Rightarrow> asn1_object option" where
  "OBJ_nid2obj dat st nid =
    (if sint nid \<ge> 0 \<and> sint nid < sint NUM_NID then
       (if nid \<noteq> NID_undef \<and> ob_nid (kObjects dat ! unat nid) = NID_undef then None else Some (kObjects dat ! unat nid))
     else added_match (global_added_by_nid st) (template\<lparr>ob_nid := nid\<rparr>))"

definition OBJ_nid2sn :: "obj_dat \<Rightarrow> obj_state \<Rightarrow> u32 \<Rightarrow> bytes option" where
  "OBJ_nid2sn dat st nid = (case OBJ_nid2obj dat st nid of None \<Rightarrow> None | Some obj \<Rightarrow> ob_sn obj)"

definition OBJ_nid2ln :: "obj_dat \<Rightarrow> obj_state \<Rightarrow> u32 \<Rightarrow> bytes option" where
  "OBJ_nid2ln dat st nid = (case OBJ_nid2obj dat st nid of None \<Rightarrow> None | Some obj \<Rightarrow> ob_ln obj)"

definition CBS_ASN1_OBJECT :: u32 where "CBS_ASN1_OBJECT = 6"

definition OBJ_nid2cbb :: "mem_env \<Rightarrow> obj_dat \<Rightarrow> obj_state \<Rightarrow> u32 \<Rightarrow> nat \<Rightarrow> cbb \<Rightarrow> bool \<times> cbb" where
  "OBJ_nid2cbb env dat st nid k out =
    (case OBJ_nid2obj dat st nid of
       None \<Rightarrow> (False, out)
     | Some obj \<Rightarrow>
         and_then (and_then (CBB_add_asn1 env CBS_ASN1_OBJECT k out) (CBB_add_bytes env (obj_bytes obj) (k + 1))) (CBB_flush env k))"

definition create_object_with_text_oid ::
    "mem_env \<Rightarrow> (obj_state \<Rightarrow> u32 \<times> obj_state) option \<Rightarrow> obj_state \<Rightarrow> bytes \<Rightarrow> bytes option \<Rightarrow> bytes option \<Rightarrow>
     asn1_object option \<times> obj_state" where
  "create_object_with_text_oid env get_nid st oid short_name long_name =
    (case CBB_init env 32 of
       (False, _) \<Rightarrow> (None, st)
     | (True, cbb) \<Rightarrow> (case CBB_add_asn1_oid_from_text env oid 0 cbb of
         (False, _) \<Rightarrow> (None, st)
       | (True, cbb) \<Rightarrow> (case CBB_finish env True 0 cbb of
           (None, _) \<Rightarrow> (None, st)
         | (Some buf, _) \<Rightarrow>
             let (nid, st) = (case get_nid of Some get \<Rightarrow> get st | None \<Rightarrow> (NID_undef, st))
             in (ASN1_OBJECT_create env nid buf (of_nat (length buf)) short_name long_name, st))))"

definition OBJ_txt2obj :: "mem_env \<Rightarrow> obj_dat \<Rightarrow> obj_state \<Rightarrow> bytes \<Rightarrow> bool \<Rightarrow> asn1_object option" where
  "OBJ_txt2obj env dat st s dont_search_names =
    (let nid = (if dont_search_names then NID_undef
           else let nid = OBJ_sn2nid dat st s in if nid = NID_undef then OBJ_ln2nid dat st s else nid)
     in if nid \<noteq> NID_undef then OBJ_nid2obj dat st nid
        else fst (create_object_with_text_oid env None st s None None))"

definition OBJ_txt2nid :: "mem_env \<Rightarrow> obj_dat \<Rightarrow> obj_state \<Rightarrow> bytes \<Rightarrow> u32" where
  "OBJ_txt2nid env dat st s = OBJ_obj2nid dat st (OBJ_txt2obj env dat st s False)"

text \<open>The results are the bytes that are written to \<open>out\<close> and the value that is returned.\<close>

definition strlcpy_int :: "bytes \<Rightarrow> int \<Rightarrow> bytes \<times> int" where
  "strlcpy_int src dst_size =
    (let (out, ret) = OPENSSL_strlcpy src (if dst_size < 0 then 0 else nat dst_size)
     in (out, if ret > INT_MAX then - 1 else int ret))"

definition OBJ_obj2txt :: "mem_env \<Rightarrow> obj_dat \<Rightarrow> obj_state \<Rightarrow> int \<Rightarrow> asn1_object option \<Rightarrow> bool \<Rightarrow> bytes \<times> int" where
  "OBJ_obj2txt env dat st out_len obj always_return_oid =
    (case obj of
       None \<Rightarrow> strlcpy_int [] out_len
     | Some ob \<Rightarrow>
         if ob_length ob = 0 then strlcpy_int [] out_len
         else
           let nid = OBJ_obj2nid dat st obj;
               name = (if always_return_oid \<or> nid = NID_undef then None
                 else (case OBJ_nid2ln dat st nid of Some name \<Rightarrow> Some name | None \<Rightarrow> OBJ_nid2sn dat st nid))
           in case name of
                Some name \<Rightarrow> strlcpy_int name out_len
              | None \<Rightarrow> (case CBS_asn1_oid_to_text env (obj_bytes ob) of
                  None \<Rightarrow> (if out_len > 0 then [0] else [], - 1)
                | Some txt \<Rightarrow> strlcpy_int (takeWhile (\<lambda>c. c \<noteq> 0) txt) out_len))"

text \<open>
  An insertion, where \<open>None\<close> is the access through a null pointer that follows if the table could not be
  allocated.
\<close>

definition added_insert :: "mem_env \<Rightarrow> asn1_object lhash option \<Rightarrow> asn1_object \<Rightarrow> (bool \<times> asn1_object lhash) option" where
  "added_insert env table obj =
    (case table of
       None \<Rightarrow> None
     | Some lh \<Rightarrow> let (ok, old_object, lh) = OPENSSL_lh_insert (env_malloc env) lh obj in Some (ok, lh))"

definition obj_add_object :: "mem_env \<Rightarrow> asn1_object \<Rightarrow> obj_state \<Rightarrow> (bool \<times> obj_state) option" where
  "obj_add_object env obj st =
    (let obj = obj\<lparr>ob_flags := ob_flags obj AND NOT (ASN1_OBJECT_FLAG_DYNAMIC OR ASN1_OBJECT_FLAG_DYNAMIC_STRINGS
           OR ASN1_OBJECT_FLAG_DYNAMIC_DATA)\<rparr>;
         st = (if global_added_by_nid st = None then
             st\<lparr>global_added_by_nid := OPENSSL_lh_new (env_malloc env) hash_nid cmp_nid,
               global_added_by_data := OPENSSL_lh_new (env_malloc env) hash_data cmp_data,
               global_added_by_short_name := OPENSSL_lh_new (env_malloc env) hash_short_name cmp_short_name,
               global_added_by_long_name := OPENSSL_lh_new (env_malloc env) hash_long_name cmp_long_name\<rparr>
           else st)
     in do {
       (ok, lh) \<leftarrow> added_insert env (global_added_by_nid st) obj;
       let st = st\<lparr>global_added_by_nid := Some lh\<rparr>;
       (ok, st) \<leftarrow> (if ob_length obj \<noteq> 0 \<and> ob_data obj \<noteq> None
         then do { (ok', lh) \<leftarrow> added_insert env (global_added_by_data st) obj; Some (ok \<and> ok', st\<lparr>global_added_by_data := Some lh\<rparr>) }
         else Some (ok, st));
       (ok, st) \<leftarrow> (if ob_sn obj \<noteq> None
         then do { (ok', lh) \<leftarrow> added_insert env (global_added_by_short_name st) obj; Some (ok \<and> ok', st\<lparr>global_added_by_short_name := Some lh\<rparr>) }
         else Some (ok, st));
       (if ob_ln obj \<noteq> None
         then do { (ok', lh) \<leftarrow> added_insert env (global_added_by_long_name st) obj; Some (ok \<and> ok', st\<lparr>global_added_by_long_name := Some lh\<rparr>) }
         else Some (ok, st))
     })"

definition OBJ_create :: "mem_env \<Rightarrow> obj_state \<Rightarrow> bytes \<Rightarrow> bytes option \<Rightarrow> bytes option \<Rightarrow> (u32 \<times> obj_state) option" where
  "OBJ_create env st oid short_name long_name =
    (case create_object_with_text_oid env (Some obj_next_nid) st oid short_name long_name of
       (None, st) \<Rightarrow> Some (NID_undef, st)
     | (Some op, st) \<Rightarrow> do {
         (ok, st) \<leftarrow> obj_add_object env op st;
         Some (if \<not> ok then NID_undef else ob_nid op, st)
       })"

end
