(* ===== verification/Obj_Correct.thy ===== *)
theory Obj_Correct
  imports Obj
begin

text \<open>
  The registry of object identifiers is a partial function from names, encodings and numbers to
  objects: its four hash tables agree with it, and \<open>OBJ_create\<close> extends it at a fresh number.
\<close>

subsection \<open>The keys\<close>

lemma cmp_0 [simp]:
  "cmp_nid a b = 0 \<longleftrightarrow> ob_nid a = ob_nid b"
  "cmp_data a b = 0 \<longleftrightarrow> ob_length a = ob_length b \<and> obj_bytes a = obj_bytes b"
  "cmp_short_name a b = 0 \<longleftrightarrow> at_ptr (ob_sn a) = at_ptr (ob_sn b)"
  "cmp_long_name a b = 0 \<longleftrightarrow> at_ptr (ob_ln a) = at_ptr (ob_ln b)"
  by (auto simp: cmp_nid_def cmp_data_def cmp_short_name_def cmp_long_name_def Let_def dest: signed_word_eqI)

interpretation by_nid: hash_contract hash_nid cmp_nid
  by unfold_locales (simp_all add: hash_nid_def)

interpretation by_data: hash_contract hash_data cmp_data
  by unfold_locales (simp_all add: hash_data_def)

interpretation by_short_name: hash_contract hash_short_name cmp_short_name
  by unfold_locales (simp_all add: hash_short_name_def)

interpretation by_long_name: hash_contract hash_long_name cmp_long_name
  by unfold_locales (simp_all add: hash_long_name_def)

subsection \<open>One table\<close>

definition table_ok :: "('a \<Rightarrow> u32) \<Rightarrow> ('a \<Rightarrow> 'a \<Rightarrow> int) \<Rightarrow> nat \<Rightarrow> 'a lhash option \<Rightarrow> bool" where
  "table_ok hash cmp n t \<longleftrightarrow>
    (case t of None \<Rightarrow> True | Some lh \<Rightarrow> lh_inv lh \<and> lh_hash lh = hash \<and> lh_comp lh = cmp \<and> lh_num_items lh \<le> n)"

lemma table_ok_None [simp]: "table_ok hash cmp n None"
  by (simp add: table_ok_def)

lemma table_ok_mono: "table_ok hash cmp n t \<Longrightarrow> n \<le> m \<Longrightarrow> table_ok hash cmp m t"
  by (auto simp: table_ok_def split: option.splits)

lemma new_table:
  assumes "alloc_ok env"
  obtains lh where "OPENSSL_lh_new (env_malloc env) hash cmp = Some lh" "table_ok hash cmp n (Some lh)"
    "\<And>key. added_match (Some lh) key = None"
proof -
  have "OPENSSL_lh_new (env_malloc env) hash cmp \<noteq> None" using assms by (simp add: OPENSSL_lh_new_def alloc_ok_def)
  then obtain lh where lh: "OPENSSL_lh_new (env_malloc env) hash cmp = Some lh" by blast
  then have b: "lh_num_items lh = 0" "lh_num_buckets lh = kMinNumBuckets" "lh_buckets lh = replicate kMinNumBuckets []"
    by (auto simp: OPENSSL_lh_new_def split: if_splits)
  then have "added_match (Some lh) key = None" for key
    by (simp add: added_match_def OPENSSL_lh_retrieve_def get_next_ptr_and_hash_def deref_next_def kMinNumBuckets_def Let_def)
  moreover have "table_ok hash cmp n (Some lh)" using new_correct [OF lh] b by (simp add: table_ok_def)
  ultimately show thesis using that lh by blast
qed

lemma insert_table:
  assumes "hash_contract hash cmp" "alloc_ok env" "table_ok hash cmp n (Some lh)" "Suc n < SIZE_MOD"
  obtains lh' where "added_insert env (Some lh) obj = Some (True, lh')" "table_ok hash cmp (Suc n) (Some lh')"
    "\<And>key. added_match (Some lh') key = (if cmp obj key = 0 then Some obj else added_match (Some lh) key)"
proof -
  obtain ok old lh' where i: "OPENSSL_lh_insert (env_malloc env) lh obj = (ok, old, lh')" by (metis prod_cases3)
  have t: "lh_inv lh" "lh_hash lh = hash" "lh_comp lh = cmp" "lh_num_items lh \<le> n" using assms(3) by (simp_all add: table_ok_def)
  have n: "Suc (lh_num_items lh) < SIZE_MOD" using t(4) assms(4) by simp
  note c = hash_contract.insert_correct [OF assms(1) t(1-3) n i]
  have ok: ok using c assms(2) by (auto simp: alloc_ok_def split: if_splits)
  have "table_ok hash cmp (Suc n) (Some lh')"
    using c hash_contract.insert_items [OF assms(1) i n] t(4) by (simp add: table_ok_def)
  moreover have "added_match (Some lh') key = (if cmp obj key = 0 then Some obj else added_match (Some lh) key)" for key
    using c ok t hash_contract.retrieve_lookup [OF assms(1)] by (simp add: added_match_def)
  ultimately show thesis using that [of lh'] i ok by (simp add: added_insert_def)
qed

subsection \<open>The objects that are created\<close>

lemma sint_of_nat_u32: "n \<le> INT_MAX \<Longrightarrow> sint (of_nat n :: u32) = int n"
  by (simp add: INT_MAX_def signed_of_nat signed_take_bit_eq_if_positive signed_take_bit_int_eq_self)

lemma obj_bytes_exact:
  "ob_data obj = Some bs \<Longrightarrow> ob_length obj = of_nat (length bs) \<Longrightarrow> length bs \<le> INT_MAX \<Longrightarrow> obj_bytes obj = bs"
  by (simp add: obj_bytes_def sint_of_nat_u32 at_ptr_def)

definition new_object :: "u32 \<Rightarrow> bytes \<Rightarrow> bytes option \<Rightarrow> bytes option \<Rightarrow> asn1_object" where
  "new_object nid bs sn ln = \<lparr>ob_sn = sn, ob_ln = ln, ob_nid = nid, ob_length = of_nat (length bs), ob_data = Some bs,
     ob_flags = ASN1_OBJECT_FLAG_DYNAMIC OR ASN1_OBJECT_FLAG_DYNAMIC_STRINGS OR ASN1_OBJECT_FLAG_DYNAMIC_DATA\<rparr>"

lemma ASN1_OBJECT_create_ok:
  assumes "alloc_ok env" "length bs \<le> INT_MAX"
  shows "ASN1_OBJECT_create env nid bs (of_nat (length bs)) sn ln = Some (new_object nid bs sn ln)"
proof -
  have m: "env_malloc env n" for n using assms(1) by (simp add: alloc_ok_def)
  have d: "dup_name env s = Some s" for s by (simp add: dup_name_def OPENSSL_strdup_def m split: option.split)
  show ?thesis
    using obj_bytes_exact [OF _ _ assms(2)]
    by (simp add: ASN1_OBJECT_create_def OBJ_dup_def ASN1_OBJECT_new_def m d new_object_def ASN1_OBJECT_FLAG_DYNAMIC_def
        ASN1_OBJECT_FLAG_DYNAMIC_STRINGS_def ASN1_OBJECT_FLAG_DYNAMIC_DATA_def)
qed

lemma create_object_ok:
  assumes "alloc_ok env" "10 * length oid \<le> INT_MAX"
  shows "create_object_with_text_oid env get_nid st oid sn ln =
    (case oid_of_text oid of
       None \<Rightarrow> (None, st)
     | Some bs \<Rightarrow> let (nid, st) = (case get_nid of Some get \<Rightarrow> get st | None \<Rightarrow> (NID_undef, st))
         in (Some (new_object nid bs sn ln), st))"
proof -
  have l: "10 * length oid < SIZE_MOD" using assms(2) by (simp add: INT_MAX_def SIZE_MOD_def)
  have "length bs \<le> INT_MAX" if o: "oid_of_text oid = Some bs" for bs
  proof -
    obtain cs where "oid = dotted cs" "bs = oid_contents cs" using o by (auto simp: oid_of_text_iff)
    then show ?thesis using assms(2) length_oid_contents(1) [of cs] length_components [of cs] by simp
  qed
  then have c: "ASN1_OBJECT_create env nid bs (of_nat (length bs)) sn ln = Some (new_object nid bs sn ln)"
    if "oid_of_text oid = Some bs" for bs nid using that ASN1_OBJECT_create_ok [OF assms(1)] by blast
  show ?thesis using oid_text_build [OF assms(1) l, of 32, symmetric] c
    by (auto simp: create_object_with_text_oid_def build_def Let_def split: prod.splits bool.splits option.splits)
qed

subsection \<open>The invariant of the registry\<close>

text \<open>
  The tables exist together, none has more objects than numbers were given out, and no object has a
  number that the counter has not reached.
\<close>

definition obj_inv :: "obj_state \<Rightarrow> bool" where
  "obj_inv st \<longleftrightarrow>
    (let n = unat (global_next_nid st) - unat NUM_NID in
     unat NUM_NID \<le> unat (global_next_nid st) \<and>
     table_ok hash_nid cmp_nid n (global_added_by_nid st) \<and> table_ok hash_data cmp_data n (global_added_by_data st) \<and>
     table_ok hash_short_name cmp_short_name n (global_added_by_short_name st) \<and>
     table_ok hash_long_name cmp_long_name n (global_added_by_long_name st)) \<and>
    (global_added_by_data st = None \<longleftrightarrow> global_added_by_nid st = None) \<and>
    (global_added_by_short_name st = None \<longleftrightarrow> global_added_by_nid st = None) \<and>
    (global_added_by_long_name st = None \<longleftrightarrow> global_added_by_nid st = None) \<and>
    (\<forall>nid. global_next_nid st \<le> nid \<longrightarrow> added_match (global_added_by_nid st) (template\<lparr>ob_nid := nid\<rparr>) = None)"

lemma obj_init_inv: "obj_inv obj_init"
  by (simp add: obj_inv_def obj_init_def added_match_def)

text \<open>The four tables as lookups, which are all that the queries see.\<close>

definition same_lookups :: "obj_state \<Rightarrow> obj_state \<Rightarrow> bool" where
  "same_lookups st st' \<longleftrightarrow>
    added_match (global_added_by_nid st') = added_match (global_added_by_nid st) \<and>
    added_match (global_added_by_data st') = added_match (global_added_by_data st) \<and>
    added_match (global_added_by_short_name st') = added_match (global_added_by_short_name st) \<and>
    added_match (global_added_by_long_name st') = added_match (global_added_by_long_name st)"

definition ensure_tables :: "mem_env \<Rightarrow> obj_state \<Rightarrow> obj_state" where
  "ensure_tables env st = (if global_added_by_nid st = None then
     st\<lparr>global_added_by_nid := OPENSSL_lh_new (env_malloc env) hash_nid cmp_nid,
       global_added_by_data := OPENSSL_lh_new (env_malloc env) hash_data cmp_data,
       global_added_by_short_name := OPENSSL_lh_new (env_malloc env) hash_short_name cmp_short_name,
       global_added_by_long_name := OPENSSL_lh_new (env_malloc env) hash_long_name cmp_long_name\<rparr>
   else st)"

lemma ensure_tables_ok:
  assumes "alloc_ok env" "obj_inv st"
  shows "obj_inv (ensure_tables env st) \<and> same_lookups st (ensure_tables env st) \<and> global_added_by_nid (ensure_tables env st) \<noteq> None \<and>
    global_next_nid (ensure_tables env st) = global_next_nid st"
proof (cases "global_added_by_nid st = None")
  case False
  then have "ensure_tables env st = st" by (auto simp: ensure_tables_def)
  then show ?thesis using assms(2) False by (simp add: same_lookups_def)
next
  case True
  let ?n = "unat (global_next_nid st) - unat NUM_NID"
  obtain n where n: "OPENSSL_lh_new (env_malloc env) hash_nid cmp_nid = Some n" "table_ok hash_nid cmp_nid ?n (Some n)"
    "\<And>key. added_match (Some n) key = None" using new_table [OF assms(1)] by metis
  obtain d where d: "OPENSSL_lh_new (env_malloc env) hash_data cmp_data = Some d" "table_ok hash_data cmp_data ?n (Some d)"
    "\<And>key. added_match (Some d) key = None" using new_table [OF assms(1)] by metis
  obtain s where s: "OPENSSL_lh_new (env_malloc env) hash_short_name cmp_short_name = Some s"
    "table_ok hash_short_name cmp_short_name ?n (Some s)" "\<And>key. added_match (Some s) key = None" using new_table [OF assms(1)] by metis
  obtain l where l: "OPENSSL_lh_new (env_malloc env) hash_long_name cmp_long_name = Some l"
    "table_ok hash_long_name cmp_long_name ?n (Some l)" "\<And>key. added_match (Some l) key = None" using new_table [OF assms(1)] by metis
  have none: "added_match None key = None" for key :: asn1_object by (simp add: added_match_def)
  show ?thesis using True assms(2) n d s l
    by (simp add: ensure_tables_def obj_inv_def same_lookups_def none fun_eq_iff Let_def)
qed

lemma ensure_tables_counter [simp]:
  "ensure_tables env (st\<lparr>global_next_nid := n\<rparr>) = (ensure_tables env st)\<lparr>global_next_nid := n\<rparr>"
  by (simp add: ensure_tables_def)

text \<open>The object without the flags that say that it is allocated.\<close>

definition added_object :: "u32 \<Rightarrow> bytes \<Rightarrow> bytes option \<Rightarrow> bytes option \<Rightarrow> asn1_object" where
  "added_object nid bs sn ln = (new_object nid bs sn ln)\<lparr>ob_flags := 0\<rparr>"

lemma added_object_keys [simp]:
  "ob_nid (added_object nid bs sn ln) = nid" "ob_sn (added_object nid bs sn ln) = sn" "ob_ln (added_object nid bs sn ln) = ln"
  "ob_length (added_object nid bs sn ln) = of_nat (length bs)" "ob_data (added_object nid bs sn ln) = Some bs"
  by (simp_all add: added_object_def new_object_def)

text \<open>The tables after an object is added to the tables for which it has a key.\<close>

definition registers :: "asn1_object \<Rightarrow> obj_state \<Rightarrow> obj_state \<Rightarrow> bool" where
  "registers obj st st' \<longleftrightarrow>
    (\<forall>key. added_match (global_added_by_nid st') key = (if cmp_nid obj key = 0 then Some obj else added_match (global_added_by_nid st) key) \<and>
      added_match (global_added_by_data st') key = (if cmp_data obj key = 0 then Some obj else added_match (global_added_by_data st) key) \<and>
      added_match (global_added_by_short_name st') key =
        (if ob_sn obj \<noteq> None \<and> cmp_short_name obj key = 0 then Some obj else added_match (global_added_by_short_name st) key) \<and>
      added_match (global_added_by_long_name st') key =
        (if ob_ln obj \<noteq> None \<and> cmp_long_name obj key = 0 then Some obj else added_match (global_added_by_long_name st) key))"

lemma insert_name:
  assumes "hash_contract hash cmp" "alloc_ok env" "table_ok hash cmp n (Some lh)" "Suc n < SIZE_MOD"
  obtains lh' where "name \<noteq> None \<Longrightarrow> added_insert env (Some lh) obj = Some (True, lh')" "name = None \<Longrightarrow> lh' = lh"
    "table_ok hash cmp (Suc n) (Some lh')"
    "\<And>key. added_match (Some lh') key = (if name \<noteq> None \<and> cmp obj key = 0 then Some obj else added_match (Some lh) key)"
proof (cases name)
  case None
  then show thesis using that [of lh] assms(3) by (simp add: table_ok_mono [of hash cmp n])
next
  case (Some s)
  then show thesis using that insert_table [OF assms, of obj] by (metis option.distinct(1))
qed

lemma obj_add_object_ok:
  assumes "alloc_ok env" "obj_inv st" "unat (global_next_nid st) < INT_MAX" "0 < length bs" "length bs \<le> INT_MAX"
  defines "nid \<equiv> global_next_nid st"
  obtains st' where "obj_add_object env (new_object nid bs sn ln) (st\<lparr>global_next_nid := nid + 1\<rparr>) = Some (True, st')"
    "obj_inv st'" "registers (added_object nid bs sn ln) st st'" "global_next_nid st' = nid + 1"
proof -
  let ?obj = "added_object nid bs sn ln" and ?st = "ensure_tables env st" and ?n = "unat nid - unat NUM_NID"
  have e: "obj_inv ?st" "same_lookups st ?st" "global_added_by_nid ?st \<noteq> None" "global_next_nid ?st = nid"
    using ensure_tables_ok [OF assms(1,2)] by (simp_all add: nid_def)
  then obtain tn td ts tl where t: "global_added_by_nid ?st = Some tn" "global_added_by_data ?st = Some td"
    "global_added_by_short_name ?st = Some ts" "global_added_by_long_name ?st = Some tl"
    unfolding obj_inv_def by fastforce
  have ok: "table_ok hash_nid cmp_nid ?n (Some tn)" "table_ok hash_data cmp_data ?n (Some td)"
    "table_ok hash_short_name cmp_short_name ?n (Some ts)" "table_ok hash_long_name cmp_long_name ?n (Some tl)" "unat NUM_NID \<le> unat nid"
    using e t by (simp_all add: obj_inv_def Let_def)
  have n: "Suc ?n < SIZE_MOD" "unat (nid + 1) = Suc (unat nid)" "Suc ?n = unat (nid + 1) - unat NUM_NID"
    using assms(3) ok(5) by (simp_all add: SIZE_MOD_def INT_MAX_def nid_def unat_word_ariths)
  obtain tn' where tn': "added_insert env (Some tn) ?obj = Some (True, tn')" "table_ok hash_nid cmp_nid (Suc ?n) (Some tn')"
    "\<And>key. added_match (Some tn') key = (if cmp_nid ?obj key = 0 then Some ?obj else added_match (Some tn) key)"
    using insert_table [OF by_nid.hash_contract_axioms assms(1) ok(1) n(1)] by metis
  obtain td' where td': "added_insert env (Some td) ?obj = Some (True, td')" "table_ok hash_data cmp_data (Suc ?n) (Some td')"
    "\<And>key. added_match (Some td') key = (if cmp_data ?obj key = 0 then Some ?obj else added_match (Some td) key)"
    using insert_table [OF by_data.hash_contract_axioms assms(1) ok(2) n(1)] by metis
  obtain ts' where ts': "sn \<noteq> None \<Longrightarrow> added_insert env (Some ts) ?obj = Some (True, ts')" "sn = None \<Longrightarrow> ts' = ts"
    "table_ok hash_short_name cmp_short_name (Suc ?n) (Some ts')"
    "\<And>key. added_match (Some ts') key = (if sn \<noteq> None \<and> cmp_short_name ?obj key = 0 then Some ?obj else added_match (Some ts) key)"
    using insert_name [OF by_short_name.hash_contract_axioms assms(1) ok(3) n(1), of sn ?obj] by blast
  obtain tl' where tl': "ln \<noteq> None \<Longrightarrow> added_insert env (Some tl) ?obj = Some (True, tl')" "ln = None \<Longrightarrow> tl' = tl"
    "table_ok hash_long_name cmp_long_name (Suc ?n) (Some tl')"
    "\<And>key. added_match (Some tl') key = (if ln \<noteq> None \<and> cmp_long_name ?obj key = 0 then Some ?obj else added_match (Some tl) key)"
    using insert_name [OF by_long_name.hash_contract_axioms assms(1) ok(4) n(1), of ln ?obj] by blast
  let ?st' = "?st\<lparr>global_next_nid := nid + 1, global_added_by_nid := Some tn', global_added_by_data := Some td',
    global_added_by_short_name := Some ts', global_added_by_long_name := Some tl'\<rparr>"
  have len: "(of_nat (length bs) :: u32) \<noteq> 0"
    using assms(4,5) sint_of_nat_u32 [OF assms(5)] by (metis length_0_conv length_greater_0_conv of_nat_eq_0_iff signed_0)
  have "obj_add_object env (new_object nid bs sn ln) (st\<lparr>global_next_nid := nid + 1\<rparr>) = Some (True, ?st')"
  proof -
    have f: "(new_object nid bs sn ln)\<lparr>ob_flags := ob_flags (new_object nid bs sn ln) AND NOT (ASN1_OBJECT_FLAG_DYNAMIC OR
        ASN1_OBJECT_FLAG_DYNAMIC_STRINGS OR ASN1_OBJECT_FLAG_DYNAMIC_DATA)\<rparr> = ?obj"
      by (simp add: added_object_def new_object_def ASN1_OBJECT_FLAG_DYNAMIC_def ASN1_OBJECT_FLAG_DYNAMIC_STRINGS_def
          ASN1_OBJECT_FLAG_DYNAMIC_DATA_def)
    have s: "ts' = ts" if "sn = None" using ts'(2) that by simp
    have l: "tl' = tl" if "ln = None" using tl'(2) that by simp
    show ?thesis unfolding obj_add_object_def f Let_def ensure_tables_def [symmetric] ensure_tables_counter
      using tn'(1) td'(1) ts'(1) tl'(1) len t s l by (cases sn; cases ln) simp_all
  qed
  moreover have "registers ?obj st ?st'" using tn'(3) td'(3) ts'(4) tl'(4) e(2) t by (simp add: registers_def same_lookups_def)
  moreover have "obj_inv ?st'"
  proof -
    have "added_match (Some tn) (template\<lparr>ob_nid := m\<rparr>) = None" "nid \<noteq> m" if "nid + 1 \<le> m" for m
      using e(1,4) t(1) that n(2) by (auto simp: obj_inv_def word_le_nat_alt)
    then show ?thesis using tn'(2,3) td'(2) ts'(3) tl'(3) n ok(5) by (simp add: obj_inv_def Let_def template_def)
  qed
  ultimately show thesis using that [of ?st'] by simp
qed

subsection \<open>Queries\<close>

lemma oid_bytes:
  assumes "oid_of_text oid = Some bs" "10 * length oid \<le> INT_MAX"
  shows "0 < length bs" "length bs \<le> INT_MAX"
proof -
  obtain cs where cs: "oid = dotted cs" "oid_valid cs" "bs = oid_contents cs" using assms(1) by (auto simp: oid_of_text_iff)
  then show "length bs \<le> INT_MAX" using assms(2) length_oid_contents(1) [of cs] length_components [of cs] by simp
  show "0 < length bs" using cs by (cases cs rule: oid_valid.cases) simp_all
qed

lemma registered_queries:
  assumes "registers (added_object nid bs sn ln) st st'" "length bs \<le> INT_MAX" "unat NUM_NID \<le> unat nid" "unat nid \<le> INT_MAX" "bs \<noteq> []"
  shows "OBJ_nid2obj dat st' m = (if m = nid then Some (added_object nid bs sn ln) else OBJ_nid2obj dat st m)"
    "length cbs \<le> INT_MAX \<Longrightarrow> OBJ_cbs2nid dat st' cbs = (if cbs = bs then nid else OBJ_cbs2nid dat st cbs)"
    "OBJ_sn2nid dat st' s = (if sn = Some s then nid else OBJ_sn2nid dat st s)"
    "OBJ_ln2nid dat st' s = (if ln = Some s then nid else OBJ_ln2nid dat st s)"
proof -
  have "sint nid = int (unat nid)" using sint_of_nat_u32 [OF assms(4)] by simp
  moreover have "sint NUM_NID = int (unat NUM_NID)" by (simp add: NUM_NID_def)
  ultimately have "\<not> sint nid < sint NUM_NID" using assms(3) by linarith
  then show "OBJ_nid2obj dat st' m = (if m = nid then Some (added_object nid bs sn ln) else OBJ_nid2obj dat st m)"
    using assms(1) by (auto simp: OBJ_nid2obj_def registers_def template_def)
  show "OBJ_sn2nid dat st' s = (if sn = Some s then nid else OBJ_sn2nid dat st s)"
    "OBJ_ln2nid dat st' s = (if ln = Some s then nid else OBJ_ln2nid dat st s)"
    using assms(1) by (auto simp: OBJ_sn2nid_def OBJ_ln2nid_def registers_def template_def at_ptr_def split: option.splits)
  assume c: "length cbs \<le> INT_MAX"
  let ?key = "template\<lparr>ob_data := Some cbs, ob_length := of_nat (length cbs)\<rparr>"
  have "obj_bytes ?key = cbs" "obj_bytes (added_object nid bs sn ln) = bs"
    using c assms(2) by (simp_all add: obj_bytes_exact)
  moreover have "ob_length ?key = of_nat (length cbs)" "ob_nid ?key = 0" by (simp_all add: template_def)
  ultimately have "cmp_data (added_object nid bs sn ln) ?key = 0 \<longleftrightarrow> cbs = bs" by auto
  then have "added_match (global_added_by_data st') ?key =
      (if cbs = bs then Some (added_object nid bs sn ln) else added_match (global_added_by_data st) ?key)"
    using assms(1) unfolding registers_def by metis
  then show "OBJ_cbs2nid dat st' cbs = (if cbs = bs then nid else OBJ_cbs2nid dat st cbs)"
    using c \<open>ob_nid ?key = 0\<close> by (simp add: OBJ_cbs2nid_def OBJ_obj2nid_def CBS_len_def)
qed

lemma create_registers:
  assumes "alloc_ok env" "obj_inv st" "unat (global_next_nid st) < INT_MAX" "10 * length oid \<le> INT_MAX" "oid_of_text oid = Some bs"
  obtains st' where "OBJ_create env st oid sn ln = Some (global_next_nid st, st')" "obj_inv st'"
    "registers (added_object (global_next_nid st) bs sn ln) st st'" "global_next_nid st' = global_next_nid st + 1"
proof -
  let ?nid = "global_next_nid st"
  note b = oid_bytes [OF assms(5,4)]
  obtain st' where st': "obj_add_object env (new_object ?nid bs sn ln) (st\<lparr>global_next_nid := ?nid + 1\<rparr>) = Some (True, st')"
    "obj_inv st'" "registers (added_object ?nid bs sn ln) st st'" "global_next_nid st' = ?nid + 1"
    using obj_add_object_ok [OF assms(1-3) b] by metis
  have "OBJ_create env st oid sn ln = Some (?nid, st')"
    using st'(1) create_object_ok [OF assms(1,4), of "Some obj_next_nid" st sn ln] assms(5)
    by (simp add: OBJ_create_def obj_next_nid_def new_object_def)
  then show thesis using that st' by blast
qed

lemma create_invalid:
  assumes "alloc_ok env" "10 * length oid \<le> INT_MAX" "oid_of_text oid = None"
  shows "OBJ_create env st oid sn ln = Some (NID_undef, st)"
  using create_object_ok [OF assms(1,2), of "Some obj_next_nid" st sn ln] assms(3) by (simp add: OBJ_create_def)

lemma decimal_nonzero: "0 \<notin> set (decimal n)"
proof (induction n rule: decimal.induct)
  case (1 n)
  have "(of_nat (48 + n mod 10) :: u8) \<noteq> 0"
    using mod_less_divisor [of 10 n] by (simp add: word_unat_eq_iff unat_of_nat del: of_nat_add)
  then show ?case using 1 by (subst decimal.simps) (auto simp del: of_nat_add)
qed

lemma dotted_nonzero: "0 \<notin> set (dotted cs)"
  by (induction cs) (auto simp: decimal_nonzero oid_rest_def)

text \<open>The text of an object is the one that it was created with.\<close>

lemma obj2txt_text:
  assumes "alloc_ok env" "oid_of_text oid = Some bs" "10 * length oid \<le> INT_MAX" "ob_data obj = Some bs" "ob_length obj = of_nat (length bs)"
  shows "OBJ_obj2txt env dat st n (Some obj) True = strlcpy_int oid n"
proof -
  note b = oid_bytes [OF assms(2,3)]
  obtain cs where cs: "oid = dotted cs" "oid_valid cs" "bs = oid_contents cs" using assms(2) by (auto simp: oid_of_text_iff)
  have "ob_length obj \<noteq> 0" using b assms(5) sint_of_nat_u32 [OF b(2)] by (metis length_greater_0_conv of_nat_eq_0_iff signed_0 length_0_conv)
  moreover have "CBS_asn1_oid_to_text env (obj_bytes obj) = Some (oid @ [0])"
    using oid_to_text_complete [of env cs] assms cs b by (simp add: obj_bytes_exact alloc_ok_def INT_MAX_def SIZE_MOD_def)
  moreover have "takeWhile (\<lambda>c. c \<noteq> 0) (oid @ [0]) = oid" proof -
    have "c \<noteq> 0" if "c \<in> set oid" for c using dotted_nonzero [of cs] cs(1) that by blast
    then show ?thesis by (subst takeWhile_append2) simp_all
  qed
  ultimately show ?thesis by (simp add: OBJ_obj2txt_def)
qed

text \<open>The number that the counter has is not in use.\<close>

lemma fresh_nid:
  assumes "obj_inv st" "unat (global_next_nid st) \<le> INT_MAX"
  shows "OBJ_nid2obj dat st (global_next_nid st) = None"
proof -
  have "sint (global_next_nid st) = int (unat (global_next_nid st))" using sint_of_nat_u32 [OF assms(2)] by simp
  moreover have "sint NUM_NID = int (unat NUM_NID)" by (simp add: NUM_NID_def)
  moreover have "unat NUM_NID \<le> unat (global_next_nid st)" using assms(1) by (simp add: obj_inv_def Let_def)
  ultimately have "\<not> sint (global_next_nid st) < sint NUM_NID" by linarith
  then show ?thesis using assms(1) by (simp add: OBJ_nid2obj_def obj_inv_def)
qed

end
