(* ===== verification/Obj_Builtin.thy ===== *)
theory Obj_Builtin
  imports Obj_Correct
begin

text \<open>
  The queries of the registry that reach the generated tables: \<open>bsearch\<close> with the comparison functions
  of \<open>obj.c\<close>. What they need of the tables, their order, is a hypothesis.
\<close>

text \<open>
  \<open>bsearch\<close> finds a match if there is one, in an array along which the comparison with the key
  goes from positive over 0 to negative.
\<close>

lemma bsearch_range_finds:
  assumes "\<And>i j. lo \<le> i \<Longrightarrow> i \<le> j \<Longrightarrow> j < hi \<Longrightarrow> sgn (cmp (xs ! j)) \<le> sgn (cmp (xs ! i))" "hi \<le> length xs"
  shows "case bsearch_range cmp xs lo hi of
      None \<Rightarrow> \<forall>i. lo \<le> i \<longrightarrow> i < hi \<longrightarrow> cmp (xs ! i) \<noteq> 0
    | Some x \<Rightarrow> x \<in> set xs \<and> cmp x = 0"
  using assms
proof (induction cmp xs lo hi rule: bsearch_range.induct)
  case (1 cmp xs lo hi)
  let ?mid = "(lo + hi) div 2"
  show ?case
  proof (cases "lo < hi")
    case True
    then have mid: "lo \<le> ?mid" "?mid < hi" by simp_all
    consider "cmp (xs ! ?mid) < 0" | "cmp (xs ! ?mid) > 0" | "cmp (xs ! ?mid) = 0" by linarith
    then show ?thesis
    proof cases
      assume r: "cmp (xs ! ?mid) < 0"
      have e: "bsearch_range cmp xs lo hi = bsearch_range cmp xs lo ?mid" using r True by (subst bsearch_range.simps) (simp add: Let_def)
      have "cmp (xs ! i) \<noteq> 0" if "?mid \<le> i" "i < hi" for i using "1.prems"(1) [of ?mid i] r that mid by (auto simp: sgn_if)
      moreover have "case bsearch_range cmp xs lo ?mid of None \<Rightarrow> \<forall>i. lo \<le> i \<longrightarrow> i < ?mid \<longrightarrow> cmp (xs ! i) \<noteq> 0 | Some x \<Rightarrow> x \<in> set xs \<and> cmp x = 0"
        using "1.IH"(1) [OF True refl refl r] "1.prems" mid by simp
      ultimately show ?thesis unfolding e by (auto split: option.splits)
    next
      assume r: "cmp (xs ! ?mid) > 0"
      then have e: "bsearch_range cmp xs lo hi = bsearch_range cmp xs (?mid + 1) hi" using True by (subst bsearch_range.simps) (simp add: Let_def)
      have "cmp (xs ! i) \<noteq> 0" if "lo \<le> i" "i < ?mid + 1" for i using "1.prems"(1) [of i ?mid] r that mid by (auto simp: sgn_if)
      moreover have "case bsearch_range cmp xs (?mid + 1) hi of None \<Rightarrow> \<forall>i. ?mid + 1 \<le> i \<longrightarrow> i < hi \<longrightarrow> cmp (xs ! i) \<noteq> 0 | Some x \<Rightarrow> x \<in> set xs \<and> cmp x = 0"
        using "1.IH"(2) [OF True refl refl] "1.prems" r mid by simp
      ultimately show ?thesis unfolding e by (auto split: option.splits) (meson not_less_eq_eq not_le less_Suc_eq_le)
    next
      assume r: "cmp (xs ! ?mid) = 0"
      then show ?thesis using True mid "1.prems"(2) by (subst bsearch_range.simps) (simp add: Let_def)
    qed
  qed (subst bsearch_range.simps, simp)
qed

text \<open>
  The generated table of short names is in the order of \<open>strcmp\<close>; then every built-in name that is not added
  again is found.
\<close>

definition names_sorted :: "(asn1_object \<Rightarrow> bytes option) \<Rightarrow> obj_dat \<Rightarrow> u16 list \<Rightarrow> bool" where
  "names_sorted name dat nids \<longleftrightarrow> ordered_by bytes_cmp (map (\<lambda>nid. at_ptr (name (kObjects dat ! unat nid))) nids)"

lemma bytes_cmp_key:
  assumes "bytes_cmp a b \<le> 0"
  shows "sgn (bytes_cmp p b) \<le> sgn (bytes_cmp p a)"
proof -
  have "bytes_cmp p b \<le> 0" if "bytes_cmp p a \<le> 0" using bytes_cmp_trans [OF that assms] .
  moreover have "0 \<le> bytes_cmp p a" if "0 \<le> bytes_cmp p b"
    using bytes_cmp_trans [OF assms, of p] that bytes_cmp_opposite [of b p] bytes_cmp_opposite [of a p] by simp
  ultimately show ?thesis by (simp add: sgn_if del: bytes_cmp_0) linarith
qed

lemma builtin_name_found:
  assumes "names_sorted name dat nids" "nid \<in> set nids" "at_ptr (name (kObjects dat ! unat nid)) = s"
    and "cmp = (\<lambda>nid. bytes_cmp s (at_ptr (name (kObjects dat ! unat nid))))"
  shows "\<exists>nid' \<in> set nids. bsearch cmp nids = Some nid' \<and> at_ptr (name (kObjects dat ! unat nid')) = s"
proof -
  let ?key = "\<lambda>nid. at_ptr (name (kObjects dat ! unat nid))"
  have "sgn (cmp (nids ! j)) \<le> sgn (cmp (nids ! i))" if "i \<le> j" "j < length nids" for i j
  proof (cases "i = j")
    case False
    then have "bytes_cmp (?key (nids ! i)) (?key (nids ! j)) \<le> 0"
      using assms(1) that by (auto simp: names_sorted_def ordered_by_def sorted_wrt_map sorted_wrt_iff_nth_less)
    then show ?thesis unfolding assms(4) by (rule bytes_cmp_key)
  qed simp
  from bsearch_range_finds [of 0 "length nids" cmp nids, OF this] have b: "case bsearch cmp nids of
      None \<Rightarrow> \<forall>i < length nids. cmp (nids ! i) \<noteq> 0 | Some x \<Rightarrow> x \<in> set nids \<and> cmp x = 0"
    by (simp add: bsearch_def split: option.splits)
  have "cmp nid = 0" using assms(3,4) by simp
  then show ?thesis using b assms(2,4) by (auto simp: in_set_conv_nth split: option.splits)
qed

lemma builtin_short_name:
  assumes "names_sorted ob_sn dat (kNIDsInShortNameOrder dat)" "nid \<in> set (kNIDsInShortNameOrder dat)"
    "ob_sn (kObjects dat ! unat nid) = Some s" "added_match (global_added_by_short_name st) (template\<lparr>ob_sn := Some s\<rparr>) = None"
  shows "\<exists>nid' :: u16. OBJ_sn2nid dat st s = ob_nid (kObjects dat ! unat nid') \<and> at_ptr (ob_sn (kObjects dat ! unat nid')) = s"
proof -
  have "at_ptr (ob_sn (kObjects dat ! unat nid)) = s" by (simp add: assms(3) at_ptr_def)
  then obtain nid' where "bsearch (short_name_cmp dat s) (kNIDsInShortNameOrder dat) = Some nid'" "at_ptr (ob_sn (kObjects dat ! unat nid')) = s"
    using builtin_name_found [OF assms(1,2), of s "short_name_cmp dat s"] by (auto simp: short_name_cmp_def fun_eq_iff)
  then show ?thesis using assms(4) by (intro exI [of _ nid']) (simp add: OBJ_sn2nid_def builtin_nid_def)
qed

lemma builtin_long_name:
  assumes "names_sorted ob_ln dat (kNIDsInLongNameOrder dat)" "nid \<in> set (kNIDsInLongNameOrder dat)"
    "ob_ln (kObjects dat ! unat nid) = Some s" "added_match (global_added_by_long_name st) (template\<lparr>ob_ln := Some s\<rparr>) = None"
  shows "\<exists>nid' :: u16. OBJ_ln2nid dat st s = ob_nid (kObjects dat ! unat nid') \<and> at_ptr (ob_ln (kObjects dat ! unat nid')) = s"
proof -
  have "at_ptr (ob_ln (kObjects dat ! unat nid)) = s" by (simp add: assms(3) at_ptr_def)
  then obtain nid' where "bsearch (long_name_cmp dat s) (kNIDsInLongNameOrder dat) = Some nid'" "at_ptr (ob_ln (kObjects dat ! unat nid')) = s"
    using builtin_name_found [OF assms(1,2), of s "long_name_cmp dat s"] by (auto simp: long_name_cmp_def fun_eq_iff)
  then show ?thesis using assms(4) by (intro exI [of _ nid']) (simp add: OBJ_ln2nid_def builtin_nid_def)
qed

end
