(* ===== verification/Stack.thy ===== *)
theory Stack
  imports C_Prelude Order
begin

text \<open>
  The pointer stack of \<open>crypto/stack/stack.c\<close>. An element is a pointer, \<open>None\<close> where it is null. The
  array has \<open>num_alloc\<close> slots, of which the first \<open>num\<close> are in use. A comparison function is an address,
  0 where there is none, and what is behind it is a parameter, as \<open>call_cmp_func\<close> is of \<open>sk_find\<close>. A
  null stack is \<open>None\<close>; the operations that change a stack return at once for it, so that they are
  modelled on a stack.
\<close>

subsection \<open>Operations\<close>

record 'a sk_stack =
  st_num :: nat
  st_data :: "'a option list"
  st_sorted :: bool
  st_num_alloc :: nat
  st_comp :: u64

text \<open>Whether \<open>malloc\<close> and \<open>realloc\<close> succeed, and what is in the slots that \<open>realloc\<close> adds.\<close>

record 'a sk_env =
  se_malloc :: "nat \<Rightarrow> bool"
  se_realloc :: "nat \<Rightarrow> bool"
  se_uninit :: "nat \<Rightarrow> 'a option"

definition kMinSize :: nat where "kMinSize = 4"

definition sk_new :: "'a sk_env \<Rightarrow> u64 \<Rightarrow> 'a sk_stack option" where
  "sk_new env cmp =
    (if \<not> se_malloc env 40 \<or> \<not> se_malloc env (8 * kMinSize) then None
     else Some \<lparr>st_num = 0, st_data = replicate kMinSize None, st_sorted = False, st_num_alloc = kMinSize, st_comp = cmp\<rparr>)"

definition sk_new_null :: "'a sk_env \<Rightarrow> 'a sk_stack option" where
  "sk_new_null env = sk_new env 0"

definition sk_num :: "'a sk_stack option \<Rightarrow> nat" where
  "sk_num sk = (case sk of None \<Rightarrow> 0 | Some sk \<Rightarrow> st_num sk)"

definition sk_zero :: "'a sk_stack \<Rightarrow> 'a sk_stack" where
  "sk_zero sk =
    (if st_num sk = 0 then sk
     else sk\<lparr>st_data := replicate (st_num sk) None @ drop (st_num sk) (st_data sk), st_num := 0, st_sorted := False\<rparr>)"

definition sk_value :: "'a sk_stack option \<Rightarrow> nat \<Rightarrow> 'a option" where
  "sk_value sk i = (case sk of None \<Rightarrow> None | Some sk \<Rightarrow> if i \<ge> st_num sk then None else st_data sk ! i)"

definition sk_set :: "'a sk_stack \<Rightarrow> nat \<Rightarrow> 'a option \<Rightarrow> 'a option \<times> 'a sk_stack" where
  "sk_set sk i v = (if i \<ge> st_num sk then (None, sk) else (v, sk\<lparr>st_data := (st_data sk)[i := v]\<rparr>))"

text \<open>The elements that \<open>call_free_func\<close> is called with, in order.\<close>

definition sk_pop_free_ex :: "'a sk_stack option \<Rightarrow> 'a list" where
  "sk_pop_free_ex sk = (case sk of None \<Rightarrow> [] | Some sk \<Rightarrow> List.map_filter id (take (st_num sk) (st_data sk)))"

text \<open>\<open>memmove\<close> of \<open>n\<close> slots within an array.\<close>

definition slots_move :: "nat \<Rightarrow> nat \<Rightarrow> nat \<Rightarrow> 'b list \<Rightarrow> 'b list" where
  "slots_move dst src n xs = take dst xs @ take n (drop src xs) @ drop (dst + n) xs"

text \<open>Room for one more element: the array doubles, or grows by one where the doubling wraps around.\<close>

definition sk_reserve :: "'a sk_env \<Rightarrow> 'a sk_stack \<Rightarrow> 'a sk_stack option" where
  "sk_reserve env sk =
    (if st_num_alloc sk \<le> szadd (st_num sk) 1 then
       let overflows = (\<lambda>new_alloc. new_alloc < st_num_alloc sk \<or> new_alloc * 8 mod SIZE_MOD div 8 \<noteq> new_alloc);
           doubled = st_num_alloc sk * 2 mod SIZE_MOD;
           new_alloc = (if overflows doubled then szadd (st_num_alloc sk) 1 else doubled)
       in if overflows new_alloc then None
          else if \<not> se_realloc env (new_alloc * 8 mod SIZE_MOD) then None
          else Some (sk\<lparr>st_data := st_data sk @ map (se_uninit env) [st_num_alloc sk..<new_alloc], st_num_alloc := new_alloc\<rparr>)
     else Some sk)"

text \<open>The result is the new number of elements, 0 on failure.\<close>

definition sk_insert :: "'a sk_env \<Rightarrow> 'a sk_stack \<Rightarrow> 'a option \<Rightarrow> nat \<Rightarrow> nat \<times> 'a sk_stack" where
  "sk_insert env sk p pos =
    (case sk_reserve env sk of
       None \<Rightarrow> (0, sk)
     | Some sk \<Rightarrow>
         let data = (if pos \<ge> st_num sk then (st_data sk)[st_num sk := p]
               else (slots_move (pos + 1) pos (st_num sk - pos) (st_data sk))[pos := p]);
             sk = sk\<lparr>st_data := data, st_num := szadd (st_num sk) 1, st_sorted := False\<rparr>
         in (st_num sk, sk))"

definition sk_delete :: "'a sk_stack \<Rightarrow> nat \<Rightarrow> 'a option \<times> 'a sk_stack" where
  "sk_delete sk pos =
    (if pos \<ge> st_num sk then (None, sk)
     else
       let data = (if pos \<noteq> st_num sk - 1 then slots_move pos (pos + 1) (st_num sk - pos - 1) (st_data sk) else st_data sk)
       in (st_data sk ! pos, sk\<lparr>st_data := data, st_num := st_num sk - 1\<rparr>))"

text \<open>The index of the first of the slots \<open>i\<close> to \<open>i + n - 1\<close> that satisfies a test.\<close>

fun first_slot :: "('b \<Rightarrow> bool) \<Rightarrow> 'b list \<Rightarrow> nat \<Rightarrow> nat \<Rightarrow> nat option" where
  "first_slot test data i 0 = None"
| "first_slot test data i (Suc n) = (if test (data ! i) then Some i else first_slot test data (Suc i) n)"

definition sk_delete_ptr :: "'a sk_stack \<Rightarrow> 'a option \<Rightarrow> 'a option \<times> 'a sk_stack" where
  "sk_delete_ptr sk p =
    (case first_slot (\<lambda>e. e = p) (st_data sk) 0 (st_num sk) of None \<Rightarrow> (None, sk) | Some i \<Rightarrow> sk_delete sk i)"

definition sk_is_sorted :: "'a sk_stack option \<Rightarrow> bool" where
  "sk_is_sorted sk = (case sk of None \<Rightarrow> True | Some sk \<Rightarrow> st_sorted sk)"

text \<open>The binary search on the half-open interval from \<open>lo\<close> to \<open>hi\<close>, biased towards \<open>lo\<close>.\<close>

function find_sorted :: "('b \<Rightarrow> int) \<Rightarrow> 'b list \<Rightarrow> nat \<Rightarrow> nat \<Rightarrow> nat option" where
  "find_sorted cmp_p data lo hi =
    (if lo < hi then
       let mid = lo + (hi - lo - 1) div 2; r = cmp_p (data ! mid) in
       if r > 0 then find_sorted cmp_p data (mid + 1) hi
       else if r < 0 then find_sorted cmp_p data lo mid
       else if hi - lo = 1 then Some mid
       else find_sorted cmp_p data lo (mid + 1)
     else None)"
  by pat_completeness auto

termination
proof (relation "measure (\<lambda>(_, _, lo, hi). hi - lo)", goal_cases)
  case (4 cmp_p data lo hi mid r)
  then show ?case by (simp add: Let_def)
qed (auto simp: Let_def)

declare find_sorted.simps [simp del]

definition sk_find :: "(u64 \<Rightarrow> 'a option \<Rightarrow> 'a option \<Rightarrow> int) \<Rightarrow> 'a sk_stack option \<Rightarrow> 'a option \<Rightarrow> nat option" where
  "sk_find call_cmp_func sk p =
    (case sk of
       None \<Rightarrow> None
     | Some sk \<Rightarrow>
         if st_comp sk = 0 then first_slot (\<lambda>e. e = p) (st_data sk) 0 (st_num sk)
         else if p = None then None
         else if \<not> st_sorted sk then first_slot (\<lambda>e. call_cmp_func (st_comp sk) p e = 0) (st_data sk) 0 (st_num sk)
         else find_sorted (call_cmp_func (st_comp sk) p) (st_data sk) 0 (st_num sk))"

definition sk_shift :: "'a sk_stack \<Rightarrow> 'a option \<times> 'a sk_stack" where
  "sk_shift sk = (if st_num sk = 0 then (None, sk) else sk_delete sk 0)"

definition sk_push :: "'a sk_env \<Rightarrow> 'a sk_stack \<Rightarrow> 'a option \<Rightarrow> nat \<times> 'a sk_stack" where
  "sk_push env sk p = sk_insert env sk p (st_num sk)"

definition sk_pop :: "'a sk_stack \<Rightarrow> 'a option \<times> 'a sk_stack" where
  "sk_pop sk = (if st_num sk = 0 then (None, sk) else sk_delete sk (st_num sk - 1))"

definition sk_dup :: "'a sk_env \<Rightarrow> 'a sk_stack option \<Rightarrow> 'a sk_stack option" where
  "sk_dup env sk =
    (case sk of
       None \<Rightarrow> None
     | Some sk \<Rightarrow>
         if \<not> se_malloc env 40 \<or> \<not> se_malloc env (8 * st_num_alloc sk mod SIZE_MOD) then None
         else Some (sk\<lparr>st_data := take (st_num sk) (st_data sk) @ map (se_uninit env) [st_num sk..<st_num_alloc sk]\<rparr>))"

definition sk_sort :: "(u64 \<Rightarrow> 'a option \<Rightarrow> 'a option \<Rightarrow> int) \<Rightarrow> 'a sk_stack \<Rightarrow> 'a sk_stack" where
  "sk_sort call sk =
    (if st_comp sk = 0 \<or> st_sorted sk then sk
     else
       let sk = (if st_num sk \<ge> 2
             then sk\<lparr>st_data := qsort (call (st_comp sk)) (take (st_num sk) (st_data sk)) @ drop (st_num sk) (st_data sk)\<rparr>
             else sk)
       in sk\<lparr>st_sorted := True\<rparr>)"

definition sk_set_cmp_func :: "'a sk_stack \<Rightarrow> u64 \<Rightarrow> u64 \<times> 'a sk_stack" where
  "sk_set_cmp_func sk cmp =
     (st_comp sk, (if st_comp sk \<noteq> cmp then sk\<lparr>st_sorted := False\<rparr> else sk)\<lparr>st_comp := cmp\<rparr>)"

text \<open>
  The copies of the elements \<open>i\<close>, \<open>i + 1\<close>, \<open>\<dots>\<close>; \<open>Inl\<close> with the copies that are freed again where
  \<open>call_copy_func\<close> returns a null pointer.
\<close>

fun copy_slots :: "('a \<Rightarrow> 'a option) \<Rightarrow> 'a option list \<Rightarrow> 'a option list \<Rightarrow> 'a list + 'a option list" where
  "copy_slots copy done [] = Inr done"
| "copy_slots copy done (e # es) =
    (case e of
       None \<Rightarrow> copy_slots copy (done @ [None]) es
     | Some x \<Rightarrow> (case copy x of
           None \<Rightarrow> Inl (List.map_filter id done)
         | Some y \<Rightarrow> copy_slots copy (done @ [Some y]) es))"

definition sk_deep_copy :: "'a sk_env \<Rightarrow> ('a \<Rightarrow> 'a option) \<Rightarrow> 'a sk_stack option \<Rightarrow> 'a list \<times> 'a sk_stack option" where
  "sk_deep_copy env copy sk =
    (case sk_dup env sk of
       None \<Rightarrow> ([], None)
     | Some ret \<Rightarrow>
         (case copy_slots copy [] (take (st_num ret) (st_data ret)) of
            Inl freed \<Rightarrow> (freed, None)
          | Inr copies \<Rightarrow> ([], Some (ret\<lparr>st_data := copies @ drop (st_num ret) (st_data ret)\<rparr>))))"

end
