(* ===== verification/Stack_Correct.thy ===== *)
theory Stack_Correct
  imports Stack
begin

text \<open>
  The pointer stack as a list: what every operation does to the elements in use, the invariant of the
  record, and the search. The flag \<open>sorted\<close> promises that the elements are in order, and the binary
  search relies on it.
\<close>

subsection \<open>Searching\<close>

text \<open>The linear search over a range that is split in two.\<close>

lemma first_slot_append:
  "first_slot test data i (m + n) =
    (case first_slot test data i m of Some k \<Rightarrow> Some k | None \<Rightarrow> first_slot test data (i + m) n)"
  by (induction m arbitrary: i) (auto split: option.split)

lemma first_slot_None: "first_slot test data i n = None \<longleftrightarrow> (\<forall>j. i \<le> j \<longrightarrow> j < i + n \<longrightarrow> \<not> test (data ! j))"
proof (induction n arbitrary: i)
  case (Suc n)
  have "(\<forall>j. i \<le> j \<longrightarrow> j < i + Suc n \<longrightarrow> \<not> test (data ! j)) \<longleftrightarrow>
    \<not> test (data ! i) \<and> (\<forall>j. Suc i \<le> j \<longrightarrow> j < Suc i + n \<longrightarrow> \<not> test (data ! j))"
    by (auto simp: Suc_le_eq) (metis le_neq_implies_less)
  then show ?case using Suc.IH [of "Suc i"] by simp
qed simp

lemma first_slot_Some:
  "first_slot test data i n = Some k \<longleftrightarrow>
    i \<le> k \<and> k < i + n \<and> test (data ! k) \<and> (\<forall>j. i \<le> j \<longrightarrow> j < k \<longrightarrow> \<not> test (data ! j))"
proof (induction n arbitrary: i)
  case (Suc n)
  show ?case
  proof (cases "test (data ! i)")
    case True
    then show ?thesis by (auto simp: order_le_less)
  next
    case False
    then have "i \<le> k \<and> test (data ! k) \<longleftrightarrow> Suc i \<le> k \<and> test (data ! k)" by (auto simp: Suc_le_eq order_le_less)
    moreover have "(\<forall>j. i \<le> j \<longrightarrow> j < k \<longrightarrow> \<not> test (data ! j)) \<longleftrightarrow> (\<forall>j. Suc i \<le> j \<longrightarrow> j < k \<longrightarrow> \<not> test (data ! j))"
      using False by (metis Suc_leD le_antisym not_less_eq_eq)
    ultimately show ?thesis using False Suc.IH [of "Suc i"] by auto
  qed
qed simp

text \<open>
  Where the sign of the comparison with the key does not increase along the array, the binary search
  finds what the linear search finds: the first match.
\<close>

lemma find_sorted_first:
  assumes "\<And>i j. lo \<le> i \<Longrightarrow> i \<le> j \<Longrightarrow> j < hi \<Longrightarrow> sgn (f (data ! j)) \<le> sgn (f (data ! i))"
  shows "find_sorted f data lo hi = first_slot (\<lambda>e. f e = 0) data lo (hi - lo)"
  using assms
proof (induction f data lo hi rule: find_sorted.induct)
  case (1 f data lo hi)
  let ?P = "\<lambda>e. f e = 0" and ?mid = "lo + (hi - lo - 1) div 2"
  show ?case
  proof (cases "lo < hi")
    case True
    then have mid: "lo \<le> ?mid" "?mid < hi" by simp_all
    note IH = "1.IH" [OF True refl refl]
    have split: "first_slot ?P data lo (hi - lo) =
      (case first_slot ?P data lo (m - lo) of Some k \<Rightarrow> Some k | None \<Rightarrow> first_slot ?P data m (hi - m))"
      if "lo \<le> m" "m \<le> hi" for m
      using first_slot_append [of ?P data lo "m - lo" "hi - m"] that by (simp split: option.split)
    consider "f (data ! ?mid) > 0" | "f (data ! ?mid) < 0" | "f (data ! ?mid) = 0" by linarith
    then show ?thesis
    proof cases
      assume r: "f (data ! ?mid) > 0"
      have "f (data ! j) \<noteq> 0" if "lo \<le> j" "j < Suc ?mid" for j
        using "1.prems" [of j ?mid] r that mid by (auto simp: sgn_if)
      then have "first_slot ?P data lo (Suc ?mid - lo) = None" by (simp add: first_slot_None)
      then show ?thesis using IH(1) "1.prems" r True mid split [of "Suc ?mid"]
        by (subst find_sorted.simps) (simp add: Let_def)
    next
      assume r: "f (data ! ?mid) < 0"
      have "f (data ! j) \<noteq> 0" if "?mid \<le> j" "j < hi" for j
        using "1.prems" [of ?mid j] r that mid by (auto simp: sgn_if)
      then have "first_slot ?P data ?mid (hi - ?mid) = None" by (simp add: first_slot_None)
      then show ?thesis using IH(2) "1.prems" r True mid split [of ?mid]
        by (subst find_sorted.simps) (simp add: Let_def split: option.split)
    next
      assume r: "f (data ! ?mid) = 0"
      then have "first_slot ?P data lo (Suc ?mid - lo) \<noteq> None"
        unfolding first_slot_None not_all not_imp not_not by (intro exI [of _ ?mid]) (use mid in simp)
      then show ?thesis using IH(3) "1.prems" r True mid split [of "Suc ?mid"]
        by (subst find_sorted.simps) (auto simp: Let_def)
    qed
  qed (subst find_sorted.simps, simp)
qed

subsection \<open>The invariant\<close>

definition sk_elems :: "'a sk_stack \<Rightarrow> 'a option list" where
  "sk_elems sk = take (st_num sk) (st_data sk)"

definition sk_inv :: "(u64 \<Rightarrow> 'a option \<Rightarrow> 'a option \<Rightarrow> int) \<Rightarrow> 'a sk_stack \<Rightarrow> bool" where
  "sk_inv call sk \<longleftrightarrow> length (st_data sk) = st_num_alloc sk \<and> st_num sk < st_num_alloc sk \<and> 8 * st_num_alloc sk < SIZE_MOD \<and>
     (st_sorted sk \<longrightarrow> st_comp sk \<noteq> 0 \<and> ordered_by (call (st_comp sk)) (sk_elems sk))"

lemma length_elems [simp]: "sk_inv call sk \<Longrightarrow> length (sk_elems sk) = st_num sk"
  by (simp add: sk_inv_def sk_elems_def)

lemma new_inv: "sk_new env cmp = Some sk \<Longrightarrow> sk_inv call sk \<and> sk_elems sk = [] \<and> st_comp sk = cmp"
  by (auto simp: sk_new_def sk_inv_def sk_elems_def kMinSize_def SIZE_MOD_def split: if_splits)

lemma zero_inv: "sk_inv call sk \<Longrightarrow> sk_inv call (sk_zero sk) \<and> sk_elems (sk_zero sk) = [] \<and> st_comp (sk_zero sk) = st_comp sk"
  by (auto simp: sk_zero_def sk_inv_def sk_elems_def)

lemma value_elems: "sk_inv call sk \<Longrightarrow> sk_value (Some sk) i = (if i < length (sk_elems sk) then sk_elems sk ! i else None)"
  by (simp add: sk_value_def) (simp add: sk_elems_def)

lemma doubling:
  assumes "8 * n < SIZE_MOD" "0 < n"
  shows "n * 2 mod SIZE_MOD = n * 2" "szadd n 1 = n + 1"
  using assms by (simp_all add: szadd_def)

lemma reserve_inv:
  assumes "sk_inv call sk" "sk_reserve env sk = Some sk'"
  shows "sk_inv call sk' \<and> sk_elems sk' = sk_elems sk \<and> st_num sk' = st_num sk \<and> st_comp sk' = st_comp sk \<and>
    st_sorted sk' = st_sorted sk \<and> Suc (st_num sk) < st_num_alloc sk'"
proof (cases "st_num_alloc sk \<le> szadd (st_num sk) 1")
  case False
  then show ?thesis using assms by (auto simp: sk_reserve_def sk_inv_def szadd_exact)
next
  case True
  let ?n = "st_num_alloc sk"
  let ?bad = "\<lambda>m. m < ?n \<or> m * 8 mod SIZE_MOD div 8 \<noteq> m"
  define m where "m = (if ?bad (?n * 2 mod SIZE_MOD) then szadd ?n 1 else ?n * 2 mod SIZE_MOD)"
  have n: "8 * ?n < SIZE_MOD" "0 < ?n" using assms(1) by (simp_all add: sk_inv_def)
  have sk': "sk' = sk\<lparr>st_data := st_data sk @ map (se_uninit env) [?n..<m], st_num_alloc := m\<rparr>" and m: "\<not> ?bad m"
    using assms(2) True by (auto simp: sk_reserve_def Let_def m_def split: if_splits)
  have "?n < m" using n doubling [OF n] by (simp add: m_def)
  moreover have "8 * m < SIZE_MOD"
  proof -
    have "m * 8 mod SIZE_MOD div 8 * 8 = m * 8" using m by simp
    moreover have "m * 8 mod SIZE_MOD div 8 * 8 \<le> m * 8 mod SIZE_MOD" by (rule div_times_less_eq_dividend)
    moreover have "m * 8 mod SIZE_MOD < SIZE_MOD" by (simp add: SIZE_MOD_def)
    ultimately show ?thesis by linarith
  qed
  moreover have "take (st_num sk) (st_data sk') = take (st_num sk) (st_data sk)" using assms(1) sk' by (simp add: sk_inv_def)
  ultimately show ?thesis using assms(1) sk' by (auto simp: sk_inv_def sk_elems_def)
qed

lemma reserve_fails:
  assumes "sk_inv call sk" "sk_reserve env sk = None"
  shows "(\<exists>n. \<not> se_realloc env n) \<or> SIZE_MOD \<le> 8 * Suc (st_num_alloc sk)"
proof (rule ccontr)
  assume a: "\<not> ?thesis"
  let ?n = "st_num_alloc sk"
  have n: "8 * ?n < SIZE_MOD" "0 < ?n" using assms(1) by (simp_all add: sk_inv_def)
  then have "szadd ?n 1 = Suc ?n" "Suc ?n * 8 mod SIZE_MOD = Suc ?n * 8" using a doubling(2) [OF n] by simp_all
  then show False using assms(2) a by (auto simp: sk_reserve_def Let_def split: if_splits)
qed

text \<open>An insertion beyond the end is one at the end.\<close>

lemma insert_inv:
  assumes "sk_inv call sk" "sk_insert env sk p pos = (n, sk')"
  shows "if n = 0 then sk' = sk \<and> ((\<exists>n. \<not> se_realloc env n) \<or> SIZE_MOD \<le> 8 * Suc (st_num_alloc sk))
    else sk_inv call sk' \<and> n = Suc (st_num sk) \<and> sk_elems sk' = take pos (sk_elems sk) @ p # drop pos (sk_elems sk) \<and>
      st_comp sk' = st_comp sk"
proof (cases "sk_reserve env sk")
  case None
  then show ?thesis using assms(2) reserve_fails [OF assms(1) None] by (auto simp: sk_insert_def)
next
  case (Some s)
  note r = reserve_inv [OF assms(1) Some]
  let ?num = "st_num s" and ?data = "st_data s"
  have len: "length ?data = st_num_alloc s" "Suc ?num < st_num_alloc s" "8 * st_num_alloc s < SIZE_MOD" using r by (simp_all add: sk_inv_def)
  have add: "szadd ?num (Suc 0) = Suc ?num" using len by (simp add: szadd_def)
  define d where "d = (if pos \<ge> ?num then ?data[?num := p] else (slots_move (pos + 1) pos (?num - pos) ?data)[pos := p])"
  have sk': "sk' = s\<lparr>st_data := d, st_num := Suc ?num, st_sorted := False\<rparr>" "n = Suc ?num"
    using assms(2) by (auto simp: sk_insert_def Some Let_def add d_def)
  have l: "length d = length ?data" using len by (auto simp: d_def slots_move_def)
  have "take (Suc ?num) d = take pos (take ?num ?data) @ p # drop pos (take ?num ?data)"
  proof (cases "pos \<ge> ?num")
    case True
    then show ?thesis using len by (simp add: d_def take_Suc_conv_app_nth)
  next
    case False
    then have "take pos (take ?num ?data) = take pos ?data" "drop pos (take ?num ?data) = take (?num - pos) (drop pos ?data)"
      by (simp_all add: drop_take min_absorb1)
    moreover have "d = take pos ?data @ p # take (?num - pos) (drop pos ?data) @ drop (Suc ?num) ?data"
      using False len by (simp add: d_def slots_move_def take_Suc_conv_app_nth list_update_append)
    ultimately show ?thesis using False len by (simp add: Suc_diff_le)
  qed
  moreover have "sk_elems sk = take ?num ?data" using r by (metis sk_elems_def)
  moreover have "sk_elems sk' = take (Suc ?num) d" using sk' by (simp add: sk_elems_def)
  ultimately have "sk_elems sk' = take pos (sk_elems sk) @ p # drop pos (sk_elems sk)" by simp
  moreover have "sk_inv call sk'" using r sk' len l by (simp add: sk_inv_def)
  ultimately show ?thesis using r sk' by simp
qed

lemma push_inv:
  assumes "sk_inv call sk" "sk_push env sk p = (n, sk')"
  shows "if n = 0 then sk' = sk \<and> ((\<exists>n. \<not> se_realloc env n) \<or> SIZE_MOD \<le> 8 * Suc (st_num_alloc sk))
    else sk_inv call sk' \<and> n = Suc (st_num sk) \<and> sk_elems sk' = sk_elems sk @ [p] \<and> st_comp sk' = st_comp sk"
proof -
  have "take (st_num sk) (sk_elems sk) = sk_elems sk" "drop (st_num sk) (sk_elems sk) = []"
    using length_elems [OF assms(1)] by simp_all
  then show ?thesis using insert_inv [OF assms(1) assms(2) [unfolded sk_push_def]] by (cases "n = 0") simp_all
qed

lemma ordered_remove: "ordered_by cmp xs \<Longrightarrow> ordered_by cmp (take i xs @ drop j xs)" if "i \<le> j"
proof -
  assume a: "ordered_by cmp xs"
  have "xs = take i xs @ take (j - i) (drop i xs) @ drop j xs" using that
    by (metis append.assoc append_take_drop_id le_add_diff_inverse take_add)
  then have "ordered_by cmp (take i xs @ take (j - i) (drop i xs) @ drop j xs)" using a by simp
  then show ?thesis by (simp only: ordered_by_def sorted_wrt_append) auto
qed

lemma delete_inv:
  assumes "sk_inv call sk" "pos < st_num sk"
  shows "fst (sk_delete sk pos) = sk_elems sk ! pos" "sk_inv call (snd (sk_delete sk pos))"
    "sk_elems (snd (sk_delete sk pos)) = take pos (sk_elems sk) @ drop (Suc pos) (sk_elems sk)"
    "st_comp (snd (sk_delete sk pos)) = st_comp sk"
proof -
  let ?num = "st_num sk" and ?data = "st_data sk"
  define d where "d = (if pos \<noteq> ?num - 1 then slots_move pos (pos + 1) (?num - pos - 1) ?data else ?data)"
  have sk': "sk_delete sk pos = (?data ! pos, sk\<lparr>st_data := d, st_num := ?num - 1\<rparr>)"
    using assms(2) by (simp add: sk_delete_def d_def Let_def)
  have len: "length ?data = st_num_alloc sk" "?num < st_num_alloc sk" using assms(1) by (simp_all add: sk_inv_def)
  have e: "take (?num - 1) d = take pos (take ?num ?data) @ drop (Suc pos) (take ?num ?data)"
    using assms(2) len by (auto simp: d_def slots_move_def drop_take min_absorb1)
  have l: "length d = length ?data" using assms(2) len by (auto simp: d_def slots_move_def)
  show "fst (sk_delete sk pos) = sk_elems sk ! pos" "sk_elems (snd (sk_delete sk pos)) = take pos (sk_elems sk) @ drop (Suc pos) (sk_elems sk)"
    "st_comp (snd (sk_delete sk pos)) = st_comp sk"
    using assms(2) e by (simp_all add: sk' sk_elems_def)
  then show "sk_inv call (snd (sk_delete sk pos))"
    using assms(1) l len ordered_remove [of pos "Suc pos" "call (st_comp sk)" "sk_elems sk"] by (auto simp: sk' sk_inv_def)
qed

lemma delete_out_of_range: "st_num sk \<le> pos \<Longrightarrow> sk_delete sk pos = (None, sk)"
  by (simp add: sk_delete_def)

lemma pop_inv:
  assumes "sk_inv call sk" "sk_elems sk = xs @ [x]"
  shows "fst (sk_pop sk) = x" "sk_inv call (snd (sk_pop sk))" "sk_elems (snd (sk_pop sk)) = xs"
proof -
  have n: "st_num sk = Suc (length xs)" using length_elems [OF assms(1)] assms(2) by simp
  show "fst (sk_pop sk) = x" "sk_inv call (snd (sk_pop sk))" "sk_elems (snd (sk_pop sk)) = xs"
    using delete_inv [OF assms(1), of "length xs"] assms(2) by (simp_all add: sk_pop_def n)
qed

lemma shift_inv:
  assumes "sk_inv call sk" "sk_elems sk = x # xs"
  shows "fst (sk_shift sk) = x" "sk_inv call (snd (sk_shift sk))" "sk_elems (snd (sk_shift sk)) = xs"
  using delete_inv [OF assms(1), of 0] length_elems [OF assms(1)] assms(2) by (simp_all add: sk_shift_def)

lemma set_cmp_func_inv:
  "sk_inv call sk \<Longrightarrow> sk_inv call (snd (sk_set_cmp_func sk c)) \<and> sk_elems (snd (sk_set_cmp_func sk c)) = sk_elems sk \<and>
   st_comp (snd (sk_set_cmp_func sk c)) = c"
  by (auto simp: sk_set_cmp_func_def sk_inv_def sk_elems_def)

lemma dup_inv:
  assumes "sk_inv call sk" "sk_dup env (Some sk) = Some sk'"
  shows "sk_inv call sk' \<and> sk_elems sk' = sk_elems sk \<and> st_comp sk' = st_comp sk \<and> st_sorted sk' = st_sorted sk"
  using assms by (auto simp: sk_dup_def sk_inv_def sk_elems_def split: if_splits)

subsection \<open>Sorting and searching\<close>

text \<open>
  What \<open>stack_cmp_func\<close> promises on elements that are not null: an order, in which the result of a
  call with the arguments exchanged has the opposite sign.
\<close>

locale element_order =
  fixes cmp :: "'a option \<Rightarrow> 'a option \<Rightarrow> int"
  assumes elem_refl: "cmp (Some a) (Some a) = 0"
    and elem_sign: "sgn (cmp (Some b) (Some a)) = - sgn (cmp (Some a) (Some b))"
    and elem_trans: "cmp (Some a) (Some b) \<le> 0 \<Longrightarrow> cmp (Some b) (Some c) \<le> 0 \<Longrightarrow> cmp (Some a) (Some c) \<le> 0"

lemma sgn_le_0: "sgn (x :: int) \<le> 0 \<longleftrightarrow> x \<le> 0"
  by (simp add: sgn_if)

lemma sgn_opposite: "sgn y = - sgn x \<Longrightarrow> y \<le> 0 \<longleftrightarrow> 0 \<le> x" for x y :: int
  by (auto simp: sgn_if split: if_splits)

sublocale element_order \<subseteq> elements: comparison "\<lambda>a b. cmp (Some a) (Some b)"
proof
  show "cmp (Some a) (Some b) \<le> 0 \<or> cmp (Some b) (Some a) \<le> 0" for a b
    using sgn_opposite [OF elem_sign [of b a]] by linarith
qed (fact elem_refl elem_trans)+

lemma qsort_map: "qsort cmp (map f xs) = map f (qsort (\<lambda>a b. cmp (f a) (f b)) xs)"
proof -
  have "qsort_insert cmp (f x) (map f ys) = map f (qsort_insert (\<lambda>a b. cmp (f a) (f b)) x ys)" for x ys
    by (induction ys) auto
  then show ?thesis unfolding qsort_def by (induction xs) simp_all
qed

lemma nonnull_map: "None \<notin> set xs \<Longrightarrow> \<exists>ys. xs = map Some ys"
proof (induction xs)
  case (Cons x xs)
  then obtain y ys where "x = Some y" "xs = map Some ys" by (cases x) auto
  then show ?case by (intro exI [of _ "y # ys"]) simp
qed simp

context element_order
begin

lemma qsort_elems: "None \<notin> set xs \<Longrightarrow> ordered_by cmp (qsort cmp xs)"
  using elements.qsort_ordered by (auto dest!: nonnull_map simp: qsort_map ordered_by_def sorted_wrt_map)

text \<open>Along elements in order, the comparison with a key goes from positive over 0 to negative.\<close>

lemma key_sign:
  assumes "cmp (Some a) (Some b) \<le> 0"
  shows "sgn (cmp (Some p) (Some b)) \<le> sgn (cmp (Some p) (Some a))"
proof -
  have 1: "cmp (Some p) (Some b) \<le> 0" if "cmp (Some p) (Some a) \<le> 0" using elem_trans [OF that assms] .
  have 2: "0 \<le> cmp (Some p) (Some a)" if "0 \<le> cmp (Some p) (Some b)"
    using elem_trans [OF assms, of p] that sgn_opposite [OF elem_sign [of b p]] sgn_opposite [OF elem_sign [of a p]] by simp
  show ?thesis using 1 2 by (simp add: sgn_if) linarith
qed

lemma binary_search:
  assumes "ordered_by cmp (take n data)" "n \<le> length data" "None \<notin> set (take n data)"
  shows "find_sorted (cmp (Some p)) data 0 n = first_slot (\<lambda>e. cmp (Some p) e = 0) data 0 n"
proof -
  have "sgn (cmp (Some p) (data ! j)) \<le> sgn (cmp (Some p) (data ! i))" if "i \<le> j" "j < n" for i j
  proof (cases "i = j")
    case False
    obtain ys where ys: "take n data = map Some ys" using nonnull_map [OF assms(3)] by blast
    then have l: "length ys = n" using assms(2) by (metis length_map length_take min.absorb2)
    then have e: "data ! k = Some (ys ! k)" if "k < n" for k using ys that by (metis nth_map nth_take)
    have "cmp (data ! i) (data ! j) \<le> 0"
      using assms(1,2) that False by (auto simp: ordered_by_def sorted_wrt_iff_nth_less)
    then show ?thesis using key_sign that by (simp add: e)
  qed simp
  from find_sorted_first [of 0 n "cmp (Some p)" data, OF this] show ?thesis by simp
qed

end

lemma sort_inv:
  assumes "sk_inv call sk" "st_comp sk \<noteq> 0 \<Longrightarrow> element_order (call (st_comp sk))" "None \<notin> set (sk_elems sk)"
  shows "sk_inv call (sk_sort call sk) \<and> mset (sk_elems (sk_sort call sk)) = mset (sk_elems sk) \<and>
    st_comp (sk_sort call sk) = st_comp sk \<and> (st_comp sk \<noteq> 0 \<longrightarrow> st_sorted (sk_sort call sk))"
proof (cases "st_comp sk = 0 \<or> st_sorted sk")
  case True
  then show ?thesis using assms(1) by (auto simp: sk_sort_def)
next
  case False
  let ?q = "qsort (call (st_comp sk)) (sk_elems sk)" and ?sk = "sk_sort call sk"
  have len: "length (sk_elems sk) = st_num sk" "st_num sk < length (st_data sk)" using assms(1) by (simp_all add: sk_inv_def sk_elems_def)
  have o: "ordered_by (call (st_comp sk)) ?q" using element_order.qsort_elems [OF assms(2,3)] False by simp
  have e: "sk_elems ?sk = (if st_num sk \<ge> 2 then ?q else sk_elems sk)"
    using False len by (simp add: sk_sort_def Let_def sk_elems_def)
  have "?q = sk_elems sk" if "st_num sk < 2"
    using that len(1) by (cases "sk_elems sk"; cases "tl (sk_elems sk)") (auto simp: qsort_def)
  then have "sk_elems ?sk = ?q" using e by simp
  then show ?thesis using o False assms(1) len by (simp add: sk_inv_def) (simp add: sk_sort_def Let_def)
qed

text \<open>\<open>sk_find\<close> returns the first match, whether the stack is sorted or not.\<close>

lemma find_first:
  assumes "sk_inv call sk" "st_comp sk \<noteq> 0 \<Longrightarrow> element_order (call (st_comp sk))" "None \<notin> set (sk_elems sk)"
  shows "sk_find call (Some sk) (Some p) =
    first_slot (\<lambda>e. if st_comp sk = 0 then e = Some p else call (st_comp sk) (Some p) e = 0) (st_data sk) 0 (st_num sk)"
proof -
  have "find_sorted (call (st_comp sk) (Some p)) (st_data sk) 0 (st_num sk) =
    first_slot (\<lambda>e. call (st_comp sk) (Some p) e = 0) (st_data sk) 0 (st_num sk)" if "st_comp sk \<noteq> 0" "st_sorted sk"
    using element_order.binary_search [OF assms(2) [OF that(1)], of "st_num sk" "st_data sk" p] assms(1,3) that
    by (simp add: sk_inv_def sk_elems_def)
  then show ?thesis by (simp add: sk_find_def)
qed

lemma find_null: "sk_find call None p = None" "st_comp sk \<noteq> 0 \<Longrightarrow> sk_find call (Some sk) None = None"
  by (simp_all add: sk_find_def)

subsection \<open>Copies\<close>

lemma copy_slots_copies:
  "copy_slots copy acc xs = Inr ys \<longleftrightarrow> (\<forall>x. Some x \<in> set xs \<longrightarrow> copy x \<noteq> None) \<and> ys = acc @ map (\<lambda>x. Option.bind x copy) xs"
  by (induction copy acc xs rule: copy_slots.induct) (auto split: option.split)

lemma deep_copy_elems:
  assumes "sk_inv call sk" "sk_deep_copy env copy (Some sk) = (freed, Some sk')"
  shows "sk_elems sk' = map (\<lambda>x. Option.bind x copy) (sk_elems sk) \<and> freed = [] \<and> (\<forall>x. Some x \<in> set (sk_elems sk) \<longrightarrow> copy x \<noteq> None)"
proof -
  obtain ret where ret: "sk_dup env (Some sk) = Some ret" using assms(2) by (auto simp: sk_deep_copy_def split: option.splits)
  note d = dup_inv [OF assms(1) ret]
  obtain ys where ys: "copy_slots copy [] (sk_elems ret) = Inr ys" and sk': "sk' = ret\<lparr>st_data := ys @ drop (st_num ret) (st_data ret)\<rparr>"
    using assms(2) by (auto simp: sk_deep_copy_def ret sk_elems_def split: sum.splits)
  from ys have "ys = map (\<lambda>x. Option.bind x copy) (sk_elems sk)" "\<forall>x. Some x \<in> set (sk_elems sk) \<longrightarrow> copy x \<noteq> None"
    using d by (simp_all add: copy_slots_copies)
  moreover from this have "length ys = st_num ret" using d length_elems by fastforce
  ultimately show ?thesis using assms(2) sk' by (auto simp: sk_elems_def sk_deep_copy_def ret split: sum.splits)
qed

end
