(* ===== verification/Emails.thy ===== *)
theory Emails
  imports Stack_Correct Cstring
begin

text \<open>
  A client of the stack: \<open>append_ia5\<close> of \<open>crypto/x509v3/v3_utl.c\<close> collects the e-mail addresses and
  URIs of a certificate without duplicates. The stack of strings is sorted before every search, with
  \<open>sk_strcmp\<close> as its comparison.
\<close>

record ia5string =
  ia_type :: nat
  ia_data :: "bytes option"
  ia_length :: nat

definition V_ASN1_IA5STRING :: nat where "V_ASN1_IA5STRING = 22"

text \<open>The strings behind the pointers, which are not null, and the function behind the address that the stack has.\<close>

definition sk_strcmp :: "bytes option \<Rightarrow> bytes option \<Rightarrow> int" where
  "sk_strcmp a b = bytes_cmp (at_ptr a) (at_ptr b)"

definition sk_strcmp_ptr :: u64 where "sk_strcmp_ptr = 1"

definition call_strcmp :: "u64 \<Rightarrow> bytes option \<Rightarrow> bytes option \<Rightarrow> int" where
  "call_strcmp f = sk_strcmp"

text \<open>The label \<open>err\<close>: the strings and the stack are freed, and the caller is left with a null pointer.\<close>

definition append_ia5 :: "bytes sk_env \<Rightarrow> bytes sk_stack option \<Rightarrow> ia5string \<Rightarrow> bool \<times> bytes sk_stack option" where
  "append_ia5 env sk email =
    (if ia_type email \<noteq> V_ASN1_IA5STRING then (True, sk)
     else case ia_data email of
       None \<Rightarrow> (True, sk)
     | Some data \<Rightarrow>
         if ia_length email = 0 then (True, sk)
         else if 0 \<in> set (take (ia_length email) data) then (True, sk)
         else (case (case sk of None \<Rightarrow> sk_new env sk_strcmp_ptr | Some _ \<Rightarrow> sk) of
             None \<Rightarrow> (False, None)
           | Some sk \<Rightarrow> (case OPENSSL_strndup (se_malloc env) data (ia_length email) of
               None \<Rightarrow> (False, None)
             | Some emtmp \<Rightarrow>
                 let sk = sk_sort call_strcmp sk in
                 if sk_find call_strcmp (Some sk) (Some emtmp) \<noteq> None then (True, Some sk)
                 else let (n, sk) = sk_push env sk (Some emtmp)
                      in if n = 0 then (False, None) else (True, Some sk))))"

subsection \<open>No duplicates\<close>

interpretation sk_strcmp: element_order sk_strcmp
proof
  show "sgn (sk_strcmp (Some b) (Some a)) = - sgn (sk_strcmp (Some a) (Some b))" for a b
    using bytes_cmp_opposite [of a b] by (simp add: sk_strcmp_def at_ptr_def)
  show "sk_strcmp (Some a) (Some b) \<le> 0 \<Longrightarrow> sk_strcmp (Some b) (Some c) \<le> 0 \<Longrightarrow> sk_strcmp (Some a) (Some c) \<le> 0" for a b c
    using bytes_cmp_trans by (simp add: sk_strcmp_def at_ptr_def)
qed (simp add: sk_strcmp_def)

text \<open>The string of an entry that is reported: of the right type, not empty and without a zero byte.\<close>

definition ia5_string :: "ia5string \<Rightarrow> bytes option" where
  "ia5_string email =
    (case ia_data email of
       None \<Rightarrow> None
     | Some data \<Rightarrow> if ia_type email = V_ASN1_IA5STRING \<and> ia_length email \<noteq> 0 \<and> 0 \<notin> set (take (ia_length email) data)
         then Some (take (ia_length email) data) else None)"

definition strings_of :: "bytes sk_stack option \<Rightarrow> bytes option list" where
  "strings_of sk = (case sk of None \<Rightarrow> [] | Some sk \<Rightarrow> sk_elems sk)"

definition strings_inv :: "bytes sk_stack option \<Rightarrow> bool" where
  "strings_inv sk \<longleftrightarrow> distinct (strings_of sk) \<and> None \<notin> set (strings_of sk) \<and>
     (case sk of None \<Rightarrow> True | Some sk \<Rightarrow> sk_inv call_strcmp sk \<and> st_comp sk = sk_strcmp_ptr)"

lemma find_string:
  assumes "strings_inv (Some sk)"
  shows "sk_find call_strcmp (Some sk) (Some s) = None \<longleftrightarrow> Some s \<notin> set (sk_elems sk)"
proof -
  have i: "sk_inv call_strcmp sk" "st_comp sk = 1" "None \<notin> set (sk_elems sk)"
    using assms by (simp_all add: strings_inv_def strings_of_def sk_strcmp_ptr_def)
  have o: "element_order (call_strcmp (st_comp sk))" unfolding call_strcmp_def by (rule sk_strcmp.element_order_axioms)
  have e: "sk_elems sk ! j = st_data sk ! j" if "j < st_num sk" for j using that by (simp add: sk_elems_def)
  have "sk_strcmp (Some s) (st_data sk ! j) = 0 \<longleftrightarrow> Some s = sk_elems sk ! j" if "j < st_num sk" for j
  proof -
    have "sk_elems sk ! j \<noteq> None" using i length_elems [OF i(1)] that nth_mem [of j "sk_elems sk"] by metis
    then show ?thesis using e [OF that] by (auto simp: sk_strcmp_def at_ptr_def)
  qed
  moreover have "call_strcmp (st_comp sk) = sk_strcmp" by (simp add: call_strcmp_def)
  ultimately show ?thesis using find_first [OF i(1) o i(3), of s] i by (auto simp: first_slot_None in_set_conv_nth)
qed

lemma sort_strings:
  assumes "strings_inv (Some sk)"
  shows "strings_inv (Some (sk_sort call_strcmp sk)) \<and> set (sk_elems (sk_sort call_strcmp sk)) = set (sk_elems sk)"
proof -
  have o: "element_order (call_strcmp (st_comp sk))" unfolding call_strcmp_def by (rule sk_strcmp.element_order_axioms)
  have s: "sk_inv call_strcmp (sk_sort call_strcmp sk)" "mset (sk_elems (sk_sort call_strcmp sk)) = mset (sk_elems sk)"
    "st_comp (sk_sort call_strcmp sk) = st_comp sk"
    using sort_inv [of call_strcmp sk] o assms by (simp_all add: strings_inv_def strings_of_def)
  have "distinct (sk_elems (sk_sort call_strcmp sk)) \<longleftrightarrow> distinct (sk_elems sk)" using s(2) by (rule mset_eq_imp_distinct_iff)
  with s mset_eq_setD [OF s(2)] assms show ?thesis by (simp add: strings_inv_def strings_of_def)
qed

lemma push_string:
  assumes "strings_inv (Some sk)" "Some s \<notin> set (sk_elems sk)" "sk_push env sk (Some s) = (n, sk')" "n \<noteq> 0"
  shows "strings_inv (Some sk') \<and> set (sk_elems sk') = insert (Some s) (set (sk_elems sk))"
  using push_inv [of call_strcmp sk env "Some s" n sk'] assms by (auto simp: strings_inv_def strings_of_def)

text \<open>An entry is added unless it is there already, and a failure leaves no stack.\<close>

lemma append_ia5_adds:
  assumes "strings_inv sk" "append_ia5 env sk email = (ok, sk')"
  shows "if ok then strings_inv sk' \<and> set (strings_of sk') = set (strings_of sk) \<union> Some ` set_option (ia5_string email) else sk' = None"
proof (cases "ia5_string email")
  case None
  then show ?thesis using assms by (auto simp: append_ia5_def ia5_string_def split: option.splits if_splits)
next
  case (Some s)
  then obtain data where d: "ia_data email = Some data" "ia_type email = V_ASN1_IA5STRING" "ia_length email \<noteq> 0"
    "0 \<notin> set (take (ia_length email) data)" "s = take (ia_length email) data"
    by (auto simp: ia5_string_def split: option.splits if_splits)
  let ?new = "case sk of None \<Rightarrow> sk_new env sk_strcmp_ptr | Some _ \<Rightarrow> sk"
  show ?thesis
  proof (cases "?new = None \<or> OPENSSL_strndup (se_malloc env) data (ia_length email) = None")
    case True
    then show ?thesis using assms(2) d by (auto simp: append_ia5_def split: option.splits)
  next
    case False
    then obtain st where st: "?new = Some st" by fastforce
    have dup: "OPENSSL_strndup (se_malloc env) data (ia_length email) = Some s"
      using False strndup_takeWhile [of "se_malloc env" data "ia_length email"] d(4,5)
      by (auto simp: takeWhile_eq_all_conv [THEN iffD2])
    have i: "strings_inv (Some st)" "set (sk_elems st) = set (strings_of sk)"
      using st assms(1) new_inv [of env sk_strcmp_ptr st call_strcmp]
      by (auto simp: strings_inv_def strings_of_def split: option.splits)
    let ?st = "sk_sort call_strcmp st"
    obtain n st' where p: "sk_push env ?st (Some s) = (n, st')" by (cases "sk_push env ?st (Some s)")
    have r: "append_ia5 env sk email = (if sk_find call_strcmp (Some ?st) (Some s) \<noteq> None then (True, Some ?st)
        else if n = 0 then (False, None) else (True, Some st'))"
      using d st dup p by (simp add: append_ia5_def Let_def)
    show ?thesis using r assms(2) sort_strings [OF i(1)] i(2) Some find_string [of ?st s] push_string [of ?st s env n st'] p
      by (auto simp: strings_of_def split: if_splits)
  qed
qed

subsection \<open>\<open>sk_set\<close> and the flag \<open>sorted\<close>\<close>

text \<open>
  \<open>sk_set\<close> leaves the flag alone: in a stack that was sorted, an element that it stores out of order is
  in the stack and is not found.
\<close>

definition sorted_strings :: "bytes sk_stack" where
  "sorted_strings = \<lparr>st_num = 3, st_data = [Some [97], Some [98], Some [99], None], st_sorted = True, st_num_alloc = 4,
     st_comp = sk_strcmp_ptr\<rparr>"

lemma sk_set_misses:
  "sk_inv call_strcmp sorted_strings \<and> Some [122] \<in> set (sk_elems (snd (sk_set sorted_strings 0 (Some [122])))) \<and>
   sk_find call_strcmp (Some (snd (sk_set sorted_strings 0 (Some [122])))) (Some [122]) = None"
  by (simp add: sorted_strings_def sk_inv_def sk_elems_def SIZE_MOD_def ordered_by_def call_strcmp_def sk_strcmp_def at_ptr_def
      sk_strcmp_ptr_def sk_set_def sk_find_def find_sorted.simps Let_def)

end
