(* ===== verification/Base64.thy ===== *)
theory Base64
  imports Cstring
begin

text \<open>
  Base64, \<open>crypto/base64/base64.c\<close>, with the constant-time primitives of \<open>crypto/internal.h\<close> that it
  uses. What a function writes from \<open>out\<close> on is a result; the zero byte that the encoder writes
  behind its output is left out.
\<close>

subsection \<open>Constant-time primitives\<close>

definition constant_time_msb_w :: "u64 \<Rightarrow> u64" where
  "constant_time_msb_w a = 0 - drop_bit 63 a"

definition constant_time_is_zero_w :: "u64 \<Rightarrow> u64" where
  "constant_time_is_zero_w a = constant_time_msb_w (NOT a AND (a - 1))"

definition constant_time_eq_w :: "u64 \<Rightarrow> u64 \<Rightarrow> u64" where
  "constant_time_eq_w a b = constant_time_is_zero_w (a XOR b)"

definition constant_time_eq_8 :: "u64 \<Rightarrow> u64 \<Rightarrow> u8" where
  "constant_time_eq_8 a b = ucast (constant_time_eq_w a b)"

definition constant_time_select_w :: "u64 \<Rightarrow> u64 \<Rightarrow> u64 \<Rightarrow> u64" where
  "constant_time_select_w m a b = (m AND a) OR (NOT m AND b)"

definition constant_time_select_8 :: "u8 \<Rightarrow> u8 \<Rightarrow> u8 \<Rightarrow> u8" where
  "constant_time_select_8 m a b = ucast (constant_time_select_w (ucast m) (ucast a) (ucast b))"

definition constant_time_lt_args_8 :: "u8 \<Rightarrow> u8 \<Rightarrow> u8" where
  "constant_time_lt_args_8 a b = ucast (constant_time_msb_w (ucast a - ucast b))"

definition constant_time_in_range_8 :: "u8 \<Rightarrow> u8 \<Rightarrow> u8 \<Rightarrow> u8" where
  "constant_time_in_range_8 a lo hi = constant_time_lt_args_8 (a - lo) (hi - lo + 1)"

subsection \<open>Encoding\<close>

definition conv_bin2ascii :: "u8 \<Rightarrow> u8" where
  "conv_bin2ascii a =
    (let a = a AND 0x3f;
         ret = constant_time_select_8 (constant_time_eq_8 (ucast a) 62) 43 47;
         ret = constant_time_select_8 (constant_time_lt_args_8 a 62) (a - 52 + 48) ret;
         ret = constant_time_select_8 (constant_time_lt_args_8 a 52) (a - 26 + 97) ret;
         ret = constant_time_select_8 (constant_time_lt_args_8 a 26) (a + 65) ret
     in ret)"

definition EVP_EncodedLength :: "nat \<Rightarrow> nat option" where
  "EVP_EncodedLength len =
    (if szadd len 2 < len then None
     else
       let len = szadd len 2 div 3 in
       if len * 4 mod SIZE_MOD div 4 \<noteq> len then None
       else
         let len = len * 4 mod SIZE_MOD in
         if szadd len 1 < len then None else Some (szadd len 1))"

record encode_ctx =
  cx_data_used :: nat
  cx_data :: bytes
  cx_eof_seen :: bool
  cx_error_encountered :: bool

definition EVP_EncodeInit :: encode_ctx where
  "EVP_EncodeInit = \<lparr>cx_data_used = 0, cx_data = replicate 48 0, cx_eof_seen = False, cx_error_encountered = False\<rparr>"

text \<open>The four characters of the 24 bits of \<open>l\<close>.\<close>

definition sextet :: "nat \<Rightarrow> u32 \<Rightarrow> u8" where
  "sextet n l = conv_bin2ascii (ucast (drop_bit n l))"

fun EVP_EncodeBlock :: "bytes \<Rightarrow> bytes \<times> nat" where
  "EVP_EncodeBlock [] = ([], 0)"
| "EVP_EncodeBlock [a] =
    (let l = push_bit 16 (ucast a) in ([sextet 18 l, sextet 12 l, 61, 61], 4))"
| "EVP_EncodeBlock [a, b] =
    (let l = push_bit 16 (ucast a) OR push_bit 8 (ucast b) in ([sextet 18 l, sextet 12 l, sextet 6 l, 61], 4))"
| "EVP_EncodeBlock (a # b # c # src) =
    (let l = push_bit 16 (ucast a) OR push_bit 8 (ucast b) OR ucast c; (dst, ret) = EVP_EncodeBlock src
     in ([sextet 18 l, sextet 12 l, sextet 6 l, sextet 0 l] @ dst, szadd ret 4))"

text \<open>\<open>memcpy(&ctx->data[ctx->data_used], in, in_len)\<close>.\<close>

definition fill_data :: "encode_ctx \<Rightarrow> bytes \<Rightarrow> bytes" where
  "fill_data ctx inp = take (cx_data_used ctx) (cx_data ctx) @ inp @ drop (cx_data_used ctx + length inp) (cx_data ctx)"

text \<open>
  The loop over whole lines: what it writes, and the total and the input that is left, or \<open>None\<close> where the
  total wraps around and the function returns.
\<close>

function encode_lines :: "nat \<Rightarrow> bytes \<Rightarrow> bytes \<times> (nat \<times> bytes) option" where
  "encode_lines tot inp =
    (if length inp \<ge> 48 then
       let (line, encoded) = EVP_EncodeBlock (take 48 inp) in
       if szadd (szadd tot encoded) 1 < tot then (line @ [10], None)
       else let (out, r) = encode_lines (szadd tot (szadd encoded 1)) (drop 48 inp) in (line @ [10] @ out, r)
     else ([], Some (tot, inp)))"
  by pat_completeness auto
termination
  by (relation "measure (\<lambda>(_, inp). length inp)") auto

declare encode_lines.simps [simp del]

text \<open>The results are what is written, \<open>*out_len\<close> and the context.\<close>

definition EVP_EncodeUpdate :: "encode_ctx \<Rightarrow> bytes \<Rightarrow> bytes \<times> nat \<times> encode_ctx" where
  "EVP_EncodeUpdate ctx inp =
    (if length inp = 0 then ([], 0, ctx)
     else if 48 - cx_data_used ctx > length inp then
       ([], 0, ctx\<lparr>cx_data := fill_data ctx inp, cx_data_used := cx_data_used ctx + length inp\<rparr>)
     else
       let (out, tot, inp, ctx) =
             (if cx_data_used ctx \<noteq> 0 then
                let todo = 48 - cx_data_used ctx;
                    data = fill_data ctx (take todo inp);
                    (line, encoded) = EVP_EncodeBlock data
                in (line @ [10], szadd encoded 1, drop todo inp, ctx\<lparr>cx_data := data, cx_data_used := 0\<rparr>)
              else ([], 0, inp, ctx));
           (lines, r) = encode_lines tot inp
       in case r of
            None \<Rightarrow> (out @ lines, 0, ctx)
          | Some (tot, inp) \<Rightarrow>
              (out @ lines, if tot > INT_MAX then 0 else tot,
               ctx\<lparr>cx_data := inp @ drop (length inp) (cx_data ctx), cx_data_used := length inp\<rparr>))"

definition EVP_EncodeFinal :: "encode_ctx \<Rightarrow> bytes \<times> nat \<times> encode_ctx" where
  "EVP_EncodeFinal ctx =
    (if cx_data_used ctx = 0 then ([], 0, ctx)
     else let (line, encoded) = EVP_EncodeBlock (take (cx_data_used ctx) (cx_data ctx))
          in (line @ [10], szadd encoded 1, ctx\<lparr>cx_data_used := 0\<rparr>))"

subsection \<open>Decoding\<close>

definition EVP_DecodedLength :: "nat \<Rightarrow> nat option" where
  "EVP_DecodedLength len = (if len mod 4 \<noteq> 0 then None else Some (len div 4 * 3))"

definition EVP_DecodeInit :: encode_ctx where
  "EVP_DecodeInit = \<lparr>cx_data_used = 0, cx_data = replicate 48 0, cx_eof_seen = False, cx_error_encountered = False\<rparr>"

definition base64_ascii_to_bin :: "u8 \<Rightarrow> u8" where
  "base64_ascii_to_bin a =
    (let is_upper = constant_time_in_range_8 a 65 90;
         is_lower = constant_time_in_range_8 a 97 122;
         is_digit = constant_time_in_range_8 a 48 57;
         is_plus = constant_time_eq_8 (ucast a) 43;
         is_slash = constant_time_eq_8 (ucast a) 47;
         is_equals = constant_time_eq_8 (ucast a) 61;
         ret = 0;
         ret = ret OR (is_upper AND (a - 65));
         ret = ret OR (is_lower AND (a - 97 + 26));
         ret = ret OR (is_digit AND (a - 48 + 52));
         ret = ret OR (is_plus AND 62);
         ret = ret OR (is_slash AND 63);
         is_valid = is_upper OR is_lower OR is_digit OR is_plus OR is_slash OR is_equals;
         ret = ret OR NOT is_valid
     in ret)"

text \<open>The bytes that a quad of characters stands for.\<close>

definition base64_decode_quad :: "u8 \<Rightarrow> u8 \<Rightarrow> u8 \<Rightarrow> u8 \<Rightarrow> bytes option" where
  "base64_decode_quad in0 in1 in2 in3 =
    (let a = base64_ascii_to_bin in0; b = base64_ascii_to_bin in1; c = base64_ascii_to_bin in2; d = base64_ascii_to_bin in3 in
     if a = 0xff \<or> b = 0xff \<or> c = 0xff \<or> d = 0xff then None
     else
       let v = push_bit 18 (ucast a) OR push_bit 12 (ucast b) OR push_bit 6 (ucast c) OR ucast d :: u32;
           padding_pattern = push_bit 3 (of_bool (in0 = 61)) OR push_bit 2 (of_bool (in1 = 61))
             OR push_bit 1 (of_bool (in2 = 61)) OR of_bool (in3 = 61) :: u32
       in if padding_pattern = 0 then Some [ucast (drop_bit 16 v), ucast (drop_bit 8 v), ucast v]
          else if padding_pattern = 1 then Some [ucast (drop_bit 16 v), ucast (drop_bit 8 v)]
          else if padding_pattern = 3 then Some [ucast (drop_bit 16 v)]
          else None)"

definition is_space :: "u8 \<Rightarrow> bool" where
  "is_space c \<longleftrightarrow> c = 32 \<or> c = 9 \<or> c = 13 \<or> c = 10"

text \<open>The loop of \<open>EVP_DecodeUpdate\<close>: whether it ran to the end of the input, what it wrote, and the context.\<close>

fun decode_chars :: "encode_ctx \<Rightarrow> bytes \<Rightarrow> bool \<times> bytes \<times> encode_ctx" where
  "decode_chars ctx [] = (True, [], ctx)"
| "decode_chars ctx (c # inp) =
    (if is_space c then decode_chars ctx inp
     else if cx_eof_seen ctx then (False, [], ctx\<lparr>cx_error_encountered := True\<rparr>)
     else
       let ctx = ctx\<lparr>cx_data := (cx_data ctx)[cx_data_used ctx := c], cx_data_used := cx_data_used ctx + 1\<rparr> in
       if cx_data_used ctx = 4 then
         (case base64_decode_quad (cx_data ctx ! 0) (cx_data ctx ! 1) (cx_data ctx ! 2) (cx_data ctx ! 3) of
            None \<Rightarrow> (False, [], ctx\<lparr>cx_error_encountered := True\<rparr>)
          | Some bs \<Rightarrow>
              let ctx = ctx\<lparr>cx_data_used := 0\<rparr>;
                  ctx = (if length bs < 3 then ctx\<lparr>cx_eof_seen := True\<rparr> else ctx);
                  (ok, out, ctx) = decode_chars ctx inp
              in (ok, bs @ out, ctx))
       else decode_chars ctx inp)"

text \<open>The results are the value, what is written, \<open>*out_len\<close> and the context.\<close>

definition EVP_DecodeUpdate :: "encode_ctx \<Rightarrow> bytes \<Rightarrow> int \<times> bytes \<times> nat \<times> encode_ctx" where
  "EVP_DecodeUpdate ctx inp =
    (if cx_error_encountered ctx then (- 1, [], 0, ctx)
     else case decode_chars ctx inp of
       (False, out, ctx) \<Rightarrow> (- 1, out, 0, ctx)
     | (True, out, ctx) \<Rightarrow>
         if length out > INT_MAX then (- 1, out, 0, ctx\<lparr>cx_error_encountered := True\<rparr>)
         else (if cx_eof_seen ctx then 0 else 1, out, length out, ctx))"

definition EVP_DecodeFinal :: "encode_ctx \<Rightarrow> int" where
  "EVP_DecodeFinal ctx = (if cx_error_encountered ctx \<or> cx_data_used ctx \<noteq> 0 then - 1 else 1)"

text \<open>The loop over quads: a short one is the last.\<close>

fun decode_quads :: "bytes \<Rightarrow> bytes option" where
  "decode_quads (a # b # c # d # inp) =
    (case base64_decode_quad a b c d of
       None \<Rightarrow> None
     | Some bs \<Rightarrow> if length bs \<noteq> 3 \<and> inp \<noteq> [] then None else map_option ((@) bs) (decode_quads inp))"
| "decode_quads inp = Some []"

definition EVP_DecodeBase64 :: "nat \<Rightarrow> bytes \<Rightarrow> bytes option" where
  "EVP_DecodeBase64 max_out inp =
    (if length inp mod 4 \<noteq> 0 then None
     else case EVP_DecodedLength (length inp) of
       None \<Rightarrow> None
     | Some max_len \<Rightarrow> if max_out < max_len then None else decode_quads inp)"

definition pad_zeros :: "bytes \<Rightarrow> bytes" where
  "pad_zeros bs = (if length bs mod 3 = 1 then bs @ [0, 0] else if length bs mod 3 = 2 then bs @ [0] else bs)"

definition EVP_DecodeBlock :: "bytes \<Rightarrow> bytes option" where
  "EVP_DecodeBlock src =
    (let src = dropWhile (\<lambda>c. c = 32 \<or> c = 9) src;
         src = rev (dropWhile is_space (rev src))
     in case EVP_DecodedLength (length src) of
          None \<Rightarrow> None
        | Some dst_len \<Rightarrow>
            if dst_len > INT_MAX then None
            else map_option pad_zeros (EVP_DecodeBase64 dst_len src))"

end
