(* ===== verification/Base64_Correct.thy ===== *)
theory Base64_Correct
  imports Base64
begin

text \<open>
  Base64 as a codec: the constant-time conversions are table lookups, blocks are read back, and a stream that is
  encoded in pieces is read back in other pieces.
\<close>

subsection \<open>The constant-time conversions\<close>

lemma constant_time_msb: "constant_time_msb_w a = (if bit a 63 then - 1 else 0)"
proof -
  have "bit a (63 + n) \<longleftrightarrow> n = 0 \<and> bit a 63" for n by (cases n) (auto dest: bit_imp_le_length)
  then have "drop_bit 63 a = of_bool (bit a 63)" by (intro bit_word_eqI) (auto simp: bit_simps)
  then show ?thesis by (simp add: constant_time_msb_w_def)
qed

lemma bit_63: "bit (w :: u64) 63 \<longleftrightarrow> 2 ^ 63 \<le> unat w"
proof -
  have "unat w div 2 ^ 63 = of_bool (2 ^ 63 \<le> unat w)"
    using unat_u64_less [of w] by (auto simp: nat_div_eq_iff simp del: unat_u64_less)
  then show ?thesis by (simp add: bit_unat_odd)
qed

lemma ucast_minus_1 [simp]: "ucast (- 1 :: u64) = (- 1 :: u8)"
  by (rule bit_word_eqI) (simp add: bit_simps)

lemma constant_time_lt: "constant_time_lt_args_8 a b = (if a < b then - 1 else 0)"
proof -
  have "bit (ucast a - ucast b :: u64) 63 \<longleftrightarrow> a < b"
    unfolding bit_63 using unat_u8_less [of a] unat_u8_less [of b] 
    by (auto simp: unat_sub_if' word_less_nat_alt simp del: unat_u8_less)
  then show ?thesis by (simp add: constant_time_lt_args_8_def constant_time_msb)
qed

lemma constant_time_eq: "constant_time_eq_8 a b = (if a = b then - 1 else 0)"
proof -
  have "bit (NOT c AND (c - 1)) 63 \<longleftrightarrow> c = 0" for c :: u64
  proof (cases "c = 0")
    case False
    then have "unat (c - 1) = unat c - 1" by (rule unat_minus_one)
    then show ?thesis using False unfolding bit_and_iff bit_not_iff unfolding bit_63 by auto
  qed simp
  then show ?thesis by (simp add: constant_time_eq_8_def constant_time_eq_w_def constant_time_is_zero_w_def constant_time_msb xor_0_iff)
qed

lemma constant_time_select: "constant_time_select_8 (if c then - 1 else 0) a b = (if c then a else b)"
proof (cases c)
  case True
  then show ?thesis by (simp add: constant_time_select_8_def constant_time_select_w_def) (rule bit_word_eqI, auto simp: bit_simps)
next
  case False
  then show ?thesis by (simp add: constant_time_select_8_def constant_time_select_w_def word_unat_eq_iff unat_ucast_mod)
qed

lemmas constant_time = constant_time_lt constant_time_eq constant_time_select

lemma ucast_eq_iff: "unat (w :: u64) < 256 \<Longrightarrow> ucast (x :: u8) = w \<longleftrightarrow> x = ucast w"
  by (simp add: word_unat_eq_iff unat_ucast_mod)

lemma bin2ascii_cases: "conv_bin2ascii a = (let a = a AND 0x3f in if a < 26 then a + 65 else if a < 52 then a - 26 + 97
   else if a < 62 then a - 52 + 48 else if a = 62 then 43 else 47)"
  by (simp add: conv_bin2ascii_def constant_time ucast_eq_iff Let_def)

lemma constant_time_in_range:
  assumes "lo \<le> hi" "unat hi < 255"
  shows "constant_time_in_range_8 a lo hi = (if lo \<le> a \<and> a \<le> hi then - 1 else 0)"
proof -
  have lh: "unat lo \<le> unat hi" using assms(1) by (simp add: word_le_nat_alt)
  then have "unat (hi - lo) = unat hi - unat lo" using assms(1) by (simp add: unat_sub)
  then have "unat (hi - lo + 1) = unat hi - unat lo + 1" using assms(2) by (simp add: unat_word_ariths)
  then have "a - lo < hi - lo + 1 \<longleftrightarrow> lo \<le> a \<and> a \<le> hi"
    using lh assms(2) unat_u8_less [of a] unfolding word_less_nat_alt word_le_nat_alt unat_sub_if' by (auto simp del: unat_u8_less)
  then show ?thesis by (simp add: constant_time_in_range_8_def constant_time_lt)
qed

lemma ascii2bin_cases: "base64_ascii_to_bin a = (if 65 \<le> a \<and> a \<le> 90 then a - 65 else if 97 \<le> a \<and> a \<le> 122 then a - 97 + 26
  else if 48 \<le> a \<and> a \<le> 57 then a - 48 + 52 else if a = 43 then 62 else if a = 47 then 63 else if a = 61 then 0 else 255)"
proof -
  let ?u = "65 \<le> a \<and> a \<le> 90" and ?l = "97 \<le> a \<and> a \<le> 122" and ?d = "48 \<le> a \<and> a \<le> 57"
  have r: "base64_ascii_to_bin a =
    ((if ?u then a - 65 else 0) OR (if ?l then a - 97 + 26 else 0) OR (if ?d then a - 48 + 52 else 0) OR
     (if a = 43 then 62 else 0) OR (if a = 47 then 63 else 0)) OR
    NOT ((if ?u then - 1 else 0) OR (if ?l then - 1 else 0) OR (if ?d then - 1 else 0) OR
     (if a = 43 then - 1 else 0) OR (if a = 47 then - 1 else 0) OR (if a = 61 then - 1 else 0))"
  proof -
    have m: "(if c then - 1 else 0) AND x = (if c then x else 0)" for c and x :: u8 by simp
    show ?thesis unfolding base64_ascii_to_bin_def Let_def by (simp add: constant_time_in_range constant_time_eq ucast_eq_iff m or.assoc)
  qed
  have ul: "?u \<Longrightarrow> \<not> ?l" and ud: "?u \<Longrightarrow> \<not> ?d" and ld: "?l \<Longrightarrow> \<not> ?d" by (auto simp: word_le_nat_alt)
  show ?thesis unfolding r using ul ud ld by (cases ?u; cases ?l; cases ?d) auto
qed
lemma bin2ascii_table:
  "list_all (\<lambda>n. base64_ascii_to_bin (conv_bin2ascii (of_nat n)) = of_nat n \<and> conv_bin2ascii (of_nat n) \<noteq> 61 \<and>
     \<not> is_space (conv_bin2ascii (of_nat n))) [0..<64]"
  by (simp add: upt_rec ascii2bin_cases bin2ascii_cases is_space_def)

lemma and_3f: "(a :: u8) AND 0x3f = take_bit 6 a"
  by (simp add: take_bit_eq_mask mask_numeral)

lemma bin2ascii_inverse:
  "base64_ascii_to_bin (conv_bin2ascii a) = take_bit 6 a" "conv_bin2ascii a \<noteq> 61" "\<not> is_space (conv_bin2ascii a)"
proof -
  have "unat (take_bit 6 a) < 64" by (simp add: unat_take_bit_mod)
  moreover have "conv_bin2ascii a = conv_bin2ascii (of_nat (unat (take_bit 6 a)))" by (simp add: bin2ascii_cases and_3f)
  ultimately show "base64_ascii_to_bin (conv_bin2ascii a) = take_bit 6 a" "conv_bin2ascii a \<noteq> 61" "\<not> is_space (conv_bin2ascii a)"
    using bin2ascii_table [unfolded list_all_iff, THEN bspec, of "unat (take_bit 6 a)"] by simp_all
qed

subsection \<open>Quads\<close>

lemma sextet_bits: "bit (ucast (take_bit 6 (ucast (drop_bit n (l :: u32)) :: u8)) :: u32) i \<longleftrightarrow> i < 6 \<and> bit l (n + i)"
  by (auto simp: bit_simps)

lemma sextets_join:
  assumes "\<And>i. bit (l :: u32) i \<Longrightarrow> i < 24"
  shows "push_bit 18 (ucast (take_bit 6 (ucast (drop_bit 18 l) :: u8))) OR push_bit 12 (ucast (take_bit 6 (ucast (drop_bit 12 l) :: u8))) OR
    push_bit 6 (ucast (take_bit 6 (ucast (drop_bit 6 l) :: u8))) OR ucast (take_bit 6 (ucast (drop_bit 0 l) :: u8)) = l"
    (is "?v = l")
proof (rule bit_word_eqI)
  fix n assume "n < LENGTH(32)"
  then show "bit ?v n \<longleftrightarrow> bit l n"
    unfolding bit_or_iff bit_push_bit_iff sextet_bits using assms [of n] by (auto cong: conj_cong)
qed

lemmas decode_quad_simps = base64_decode_quad_def sextet_def bin2ascii_inverse Let_def

lemma take_bit_6_not_ff: "take_bit 6 (a :: u8) \<noteq> 0xff"
proof
  assume "take_bit 6 a = 0xff"
  then have "unat (take_bit 6 a) = 255" by simp
  then show False using mod_less_divisor [of 64 "unat a"] by (simp add: unat_take_bit_mod)
qed

lemma equals_zero: "base64_ascii_to_bin 61 = 0"
  by (simp add: ascii2bin_cases)

lemma decode_quad_3:
  assumes "\<And>i. bit (l :: u32) i \<Longrightarrow> i < 24"
  shows "base64_decode_quad (sextet 18 l) (sextet 12 l) (sextet 6 l) (sextet 0 l) =
    Some [ucast (drop_bit 16 l), ucast (drop_bit 8 l), ucast l]"
  using sextets_join [OF assms] by (simp add: decode_quad_simps take_bit_6_not_ff)

lemma decode_quad_2:
  assumes "\<And>i. bit (l :: u32) i \<Longrightarrow> 6 \<le> i \<and> i < 24"
  shows "base64_decode_quad (sextet 18 l) (sextet 12 l) (sextet 6 l) 61 = Some [ucast (drop_bit 16 l), ucast (drop_bit 8 l)]"
proof -
  have "take_bit 6 (ucast l :: u8) = 0" by (intro bit_word_eqI) (auto simp: bit_simps dest!: assms)
  then show ?thesis using sextets_join [of l] assms by (simp add: decode_quad_simps take_bit_6_not_ff equals_zero)
qed

lemma decode_quad_1:
  assumes "\<And>i. bit (l :: u32) i \<Longrightarrow> 12 \<le> i \<and> i < 24"
  shows "base64_decode_quad (sextet 18 l) (sextet 12 l) 61 61 = Some [ucast (drop_bit 16 l)]"
proof -
  have "take_bit 6 (ucast l :: u8) = 0" "take_bit 6 (ucast (drop_bit 6 l) :: u8) = 0"
    by (auto intro!: bit_word_eqI simp: bit_simps dest!: assms)
  then show ?thesis using sextets_join [of l] assms by (simp add: decode_quad_simps take_bit_6_not_ff equals_zero)
qed

lemma no_high_bits [simp]: "\<not> bit (x :: u8) (8 + n)" "\<not> bit (x :: u8) (16 + n)"
  by (auto dest: bit_imp_le_length)

text \<open>The quads that the encoder writes.\<close>

lemma encoded_quads:
  defines "l a b c \<equiv> push_bit 16 (ucast (a :: u8)) OR push_bit 8 (ucast (b :: u8)) OR ucast (c :: u8) :: u32"
  shows "base64_decode_quad (sextet 18 (l a b c)) (sextet 12 (l a b c)) (sextet 6 (l a b c)) (sextet 0 (l a b c)) = Some [a, b, c]"
    "base64_decode_quad (sextet 18 (l a b 0)) (sextet 12 (l a b 0)) (sextet 6 (l a b 0)) 61 = Some [a, b]"
    "base64_decode_quad (sextet 18 (l a 0 0)) (sextet 12 (l a 0 0)) 61 61 = Some [a]"
proof -
  have "bit (l a b c) i \<Longrightarrow> i < 24" "bit (l a b 0) i \<Longrightarrow> 6 \<le> i \<and> i < 24" "bit (l a 0 0) i \<Longrightarrow> 12 \<le> i \<and> i < 24" for i a b c
    by (auto simp: l_def bit_simps dest: bit_imp_le_length)
  moreover have "ucast (drop_bit 16 (l a b c)) = a" "ucast (drop_bit 8 (l a b c)) = b" "ucast (l a b c) = c" for a b c
    by (auto simp: l_def bit_simps intro!: bit_word_eqI dest: bit_imp_le_length)
  ultimately show "base64_decode_quad (sextet 18 (l a b c)) (sextet 12 (l a b c)) (sextet 6 (l a b c)) (sextet 0 (l a b c)) = Some [a, b, c]"
    "base64_decode_quad (sextet 18 (l a b 0)) (sextet 12 (l a b 0)) (sextet 6 (l a b 0)) 61 = Some [a, b]"
    "base64_decode_quad (sextet 18 (l a 0 0)) (sextet 12 (l a 0 0)) 61 61 = Some [a]"
    using decode_quad_3 [of "l a b c"] decode_quad_2 [of "l a b 0"] decode_quad_1 [of "l a 0 0"] by simp_all
qed

subsection \<open>Blocks\<close>

definition base64 :: "bytes \<Rightarrow> bytes" where
  "base64 src = fst (EVP_EncodeBlock src)"

lemma base64_step:
  "base64 (a # b # c # src) =
    (let l = push_bit 16 (ucast a) OR push_bit 8 (ucast b) OR ucast c in [sextet 18 l, sextet 12 l, sextet 6 l, sextet 0 l] @ base64 src)"
  by (simp add: base64_def Let_def split: prod.split)

lemma encode_length: "length src < SIZE_MOD div 2 \<Longrightarrow> EVP_EncodeBlock src = (base64 src, 4 * ((length src + 2) div 3)) \<and>
    length (base64 src) = 4 * ((length src + 2) div 3)"
proof (induction src rule: EVP_EncodeBlock.induct)
  case (4 a b c src)
  have "(Suc (Suc (Suc (length src))) + 2) div 3 = Suc ((length src + 2) div 3)" by simp
  moreover have "4 * ((length src + 2) div 3) + 4 < SIZE_MOD" using "4.prems" by (simp add: SIZE_MOD_def)
  ultimately show ?case using "4.IH" [OF refl] "4.prems"
    by (cases "EVP_EncodeBlock src") (simp add: base64_def szadd_exact Let_def)
qed (simp_all add: base64_def Let_def)

lemma decode_encode_quads: "decode_quads (base64 src) = Some src"
proof (induction src rule: EVP_EncodeBlock.induct)
  case (4 a b c src)
  then show ?case using encoded_quads(1) [of a b c] by (simp add: base64_step Let_def del: EVP_EncodeBlock.simps)
qed (use encoded_quads(2,3) in \<open>simp_all add: base64_def Let_def\<close>)

lemma decode_encode_block:
  assumes "length src < SIZE_MOD div 2" "3 * ((length src + 2) div 3) \<le> max_out"
  shows "EVP_DecodeBase64 max_out (base64 src) = Some src"
  using assms encode_length [OF assms(1)] by (simp add: EVP_DecodeBase64_def EVP_DecodedLength_def decode_encode_quads)

lemma encoded_length: "length src < SIZE_MOD div 2 \<Longrightarrow> EVP_EncodedLength (length src) = Some (length (base64 src) + 1)"
proof -
  assume a: "length src < SIZE_MOD div 2"
  have "szadd (length src) 2 = length src + 2" using a by (simp add: szadd_def SIZE_MOD_def)
  moreover have "(length src + 2) div 3 * 4 + 1 < SIZE_MOD" using a by (simp add: SIZE_MOD_def)
  ultimately show ?thesis using encode_length [OF a] by (simp add: EVP_EncodedLength_def szadd_def Let_def mult.commute)
qed

subsection \<open>Encoding a stream\<close>

text \<open>Lines of 48 bytes, and a last shorter one.\<close>

function pem_lines :: "bytes \<Rightarrow> bytes" where
  "pem_lines x = (if length x \<ge> 48 then base64 (take 48 x) @ [10] @ pem_lines (drop 48 x)
     else if x = [] then [] else base64 x @ [10])"
  by pat_completeness auto
termination by (relation "measure length") auto

declare pem_lines.simps [simp del]

text \<open>A run of whole lines with what is written for it.\<close>

definition whole :: "bytes \<Rightarrow> bytes \<Rightarrow> bool" where
  "whole x out \<longleftrightarrow> (\<forall>z. pem_lines (x @ z) = out @ pem_lines z)"

lemma whole_Nil [simp]: "whole [] []"
  by (simp add: whole_def)

lemma whole_append: "whole x out \<Longrightarrow> whole x' out' \<Longrightarrow> whole (x @ x') (out @ out')"
  by (simp add: whole_def)

lemma whole_line: "length x = 48 \<Longrightarrow> whole x (base64 x @ [10])"
  unfolding whole_def by (subst pem_lines.simps) simp

lemma line_length: "length x = 48 \<Longrightarrow> EVP_EncodeBlock x = (base64 x, 64) \<and> length (base64 x) = 64"
  using encode_length [of x] by (simp add: SIZE_MOD_def)

lemma encode_lines_whole:
  assumes "tot + 2 * length inp + 65 < SIZE_MOD"
  shows "\<exists>out x rest. encode_lines tot inp = (out, Some (tot + length out, rest)) \<and> inp = x @ rest \<and> length rest < 48 \<and> whole x out \<and>
    length out \<le> 2 * length x"
  using assms
proof (induction "length inp" arbitrary: tot inp rule: less_induct)
  case less
  show ?case
  proof (cases "length inp \<ge> 48")
    case False
    then show ?thesis by (subst encode_lines.simps) (auto intro!: exI [of _ "[]"])
  next
    case True
    let ?l = "take 48 inp"
    have l: "EVP_EncodeBlock ?l = (base64 ?l, 64)" "length (base64 ?l) = 64" using line_length [of ?l] True by simp_all
    have t: "szadd (szadd tot 64) 1 = tot + 65" "szadd tot (szadd 64 1) = tot + 65" using less.prems by (simp_all add: szadd_def)
    have h: "length (drop 48 inp) < length inp" "tot + 65 + 2 * length (drop 48 inp) + 65 < SIZE_MOD" using less.prems True by simp_all
    obtain out x rest where r: "encode_lines (tot + 65) (drop 48 inp) = (out, Some (tot + 65 + length out, rest))"
      "drop 48 inp = x @ rest" "length rest < 48" "whole x out" "length out \<le> 2 * length x"
      using less.hyps [OF h] by blast
    have "inp = (?l @ x) @ rest" using r(2) append_take_drop_id [of 48 inp] by (simp only: append_assoc)
    moreover have "whole (?l @ x) (base64 ?l @ 10 # out)" using whole_append [OF whole_line [of ?l] r(4)] True by simp
    moreover have "encode_lines tot inp = (base64 ?l @ 10 # out, Some (tot + length (base64 ?l @ 10 # out), rest))"
      using True l t r(1) by (subst encode_lines.simps) (simp add: Let_def)
    ultimately show ?thesis using r(3,5) l(2) True by (intro exI [of _ "?l @ x"] exI) (auto simp: min_absorb2)
  qed
qed

text \<open>The bytes that the context keeps for the next line.\<close>

definition ctx_pending :: "encode_ctx \<Rightarrow> bytes" where
  "ctx_pending ctx = take (cx_data_used ctx) (cx_data ctx)"

definition encoding :: "encode_ctx \<Rightarrow> bool" where
  "encoding ctx \<longleftrightarrow> length (cx_data ctx) = 48 \<and> cx_data_used ctx < 48"

lemma fill_pending:
  assumes "encoding ctx" "cx_data_used ctx + length inp \<le> 48"
  shows "take (cx_data_used ctx + length inp) (fill_data ctx inp) = ctx_pending ctx @ inp" "length (fill_data ctx inp) = 48"
  using assms by (simp_all add: fill_data_def ctx_pending_def encoding_def)

text \<open>An update writes whole lines, of which \<open>out_len\<close> is the size, and keeps the rest.\<close>

lemma encode_update:
  assumes "encoding ctx" "length inp \<le> 1000000000"
  obtains out ctx' x where "EVP_EncodeUpdate ctx inp = (out, length out, ctx')" "encoding ctx'"
    "ctx_pending ctx @ inp = x @ ctx_pending ctx'" "whole x out"
proof (cases "48 - cx_data_used ctx > length inp")
  case True
  let ?ctx = "ctx\<lparr>cx_data := fill_data ctx inp, cx_data_used := cx_data_used ctx + length inp\<rparr>"
  have "ctx_pending ?ctx = ctx_pending ctx @ inp" "encoding ?ctx"
    using True fill_pending [of ctx inp] assms(1) by (simp_all add: ctx_pending_def encoding_def)
  moreover have "EVP_EncodeUpdate ctx inp = ([], 0, if inp = [] then ctx else ?ctx)"
    using True by (simp add: EVP_EncodeUpdate_def)
  ultimately show thesis using that [of "[]" "if inp = [] then ctx else ?ctx" "[]"] assms(1) by (cases "inp = []") simp_all
next
  case False
  let ?used = "cx_data_used ctx"
  have u: "?used < 48" "length (cx_data ctx) = 48" "inp \<noteq> []" using assms(1) False by (auto simp: encoding_def)
  define first where "first = (if ?used \<noteq> 0 then
      let todo = 48 - ?used; data = fill_data ctx (take todo inp); (line, encoded) = EVP_EncodeBlock data
      in (line @ [10], szadd encoded 1, drop todo inp, ctx\<lparr>cx_data := data, cx_data_used := 0\<rparr>)
    else ([], 0, inp, ctx))"
  obtain out1 inp1 ctx1 x1 where f: "first = (out1, length out1, inp1, ctx1)" "ctx_pending ctx @ inp = x1 @ inp1" "whole x1 out1"
    "length (cx_data ctx1) = 48" "length inp1 \<le> length inp" "length out1 \<le> 65"
  proof (cases "?used = 0")
    case True
    then show thesis using that [of "[]" inp ctx "[]"] u by (simp add: first_def ctx_pending_def)
  next
    case used: False
    let ?todo = "48 - ?used"
    let ?data = "fill_data ctx (take ?todo inp)"
    have d: "?data = ctx_pending ctx @ take ?todo inp" "length ?data = 48"
      using fill_pending [of ctx "take ?todo inp"] assms(1) False u by (simp_all add: min_absorb2)
    have "ctx_pending ctx @ inp = ?data @ drop ?todo inp" unfolding d(1) by simp
    then show thesis using that [of "base64 ?data @ [10]" "drop ?todo inp" "ctx\<lparr>cx_data := ?data, cx_data_used := 0\<rparr>" ?data]
        used line_length [OF d(2)] whole_line [OF d(2)] d(2) by (simp add: first_def Let_def szadd_def SIZE_MOD_def)
  qed
  have "length out1 + 2 * length inp1 + 65 < SIZE_MOD" using f(5,6) assms(2) by (simp add: SIZE_MOD_def)
  then obtain out2 x2 rest where l: "encode_lines (length out1) inp1 = (out2, Some (length out1 + length out2, rest))" "inp1 = x2 @ rest"
    "length rest < 48" "whole x2 out2" "length out2 \<le> 2 * length x2" using encode_lines_whole by blast
  let ?ctx = "ctx1\<lparr>cx_data := rest @ drop (length rest) (cx_data ctx1), cx_data_used := length rest\<rparr>"
  have "length out1 + length out2 \<le> INT_MAX" using l(2,5) f(5,6) assms(2) by (simp add: INT_MAX_def)
  then have "EVP_EncodeUpdate ctx inp = (out1 @ out2, length (out1 @ out2), ?ctx)"
    using False u(3) f(1) l(1) unfolding EVP_EncodeUpdate_def first_def [symmetric] by simp
  moreover have "encoding ?ctx" "ctx_pending ?ctx = rest" using f(4) l(3) by (simp_all add: encoding_def ctx_pending_def)
  ultimately show thesis using that [of "out1 @ out2" ?ctx "x1 @ x2"] f(2,3) l(2,4) whole_append by simp
qed

fun encode_pieces :: "encode_ctx \<Rightarrow> bytes list \<Rightarrow> bytes" where
  "encode_pieces ctx [] = (let (out, out_len, _) = EVP_EncodeFinal ctx in take out_len out)"
| "encode_pieces ctx (x # xs) = (let (out, out_len, ctx) = EVP_EncodeUpdate ctx x in take out_len out @ encode_pieces ctx xs)"

lemma encode_pieces_lines:
  "encoding ctx \<Longrightarrow> list_all (\<lambda>x. length x \<le> 1000000000) xs \<Longrightarrow> encode_pieces ctx xs = pem_lines (ctx_pending ctx @ concat xs)"
proof (induction xs arbitrary: ctx)
  case Nil
  have l: "length (ctx_pending ctx) = cx_data_used ctx" "length (ctx_pending ctx) < 48" using Nil(1) by (simp_all add: ctx_pending_def encoding_def)
  moreover have "EVP_EncodeBlock (ctx_pending ctx) = (base64 (ctx_pending ctx), length (base64 (ctx_pending ctx)))"
    "length (base64 (ctx_pending ctx)) < SIZE_MOD - 1"
    using encode_length [of "ctx_pending ctx"] l(2) by (simp_all add: SIZE_MOD_def)
  ultimately show ?case
    by (subst pem_lines.simps) (auto simp: EVP_EncodeFinal_def ctx_pending_def [symmetric] szadd_exact Let_def)
next
  case (Cons x xs)
  obtain out ctx' w where u: "EVP_EncodeUpdate ctx x = (out, length out, ctx')" "encoding ctx'"
    "ctx_pending ctx @ x = w @ ctx_pending ctx'" "whole w out" using encode_update [of ctx x] Cons.prems by auto
  have "pem_lines (ctx_pending ctx @ concat (x # xs)) = pem_lines (w @ ctx_pending ctx' @ concat xs)"
    using u(3) by (metis append_assoc concat.simps(2))
  then show ?case using u Cons by (simp add: whole_def)
qed

subsection \<open>Decoding a stream\<close>

lemma decode_append:
  "decode_chars ctx (x @ y) = (case decode_chars ctx x of
     (False, out, ctx) \<Rightarrow> (False, out, ctx)
   | (True, out, ctx) \<Rightarrow> (case decode_chars ctx y of (ok, out', ctx) \<Rightarrow> (ok, out @ out', ctx)))"
  by (induction ctx x rule: decode_chars.induct) (auto simp: Let_def split: prod.splits bool.splits option.splits)

text \<open>Between two quads.\<close>

definition quad_start :: "bool \<Rightarrow> encode_ctx \<Rightarrow> bool" where
  "quad_start eof ctx \<longleftrightarrow> length (cx_data ctx) = 48 \<and> cx_data_used ctx = 0 \<and> cx_eof_seen ctx = eof \<and> \<not> cx_error_encountered ctx"

lemma quad_length: "base64_decode_quad a b c d = Some bs \<Longrightarrow> 1 \<le> length bs \<and> length bs \<le> 3"
  by (auto simp: base64_decode_quad_def Let_def split: if_splits)

lemma decode_quad_chars:
  assumes "quad_start False ctx" "\<not> is_space a" "\<not> is_space b" "\<not> is_space c" "\<not> is_space d" "base64_decode_quad a b c d = Some bs"
  shows "\<exists>ctx'. decode_chars ctx [a, b, c, d] = (True, bs, ctx') \<and> quad_start (length bs < 3) ctx'"
  using assms by (simp add: quad_start_def Let_def numeral_eq_Suc)

lemma equals_not_space: "\<not> is_space 61"
  by (simp add: is_space_def)

lemma decode_base64:
  "quad_start False ctx \<Longrightarrow> \<exists>ctx'. decode_chars ctx (base64 x) = (True, x, ctx') \<and> quad_start (length x mod 3 \<noteq> 0) ctx'"
proof (induction x arbitrary: ctx rule: EVP_EncodeBlock.induct)
  case 1
  then show ?case by (simp add: base64_def)
next
  case (2 a)
  then show ?case using decode_quad_chars [OF 2 _ _ _ _ encoded_quads(3) [of a]] bin2ascii_inverse(3) equals_not_space
    by (simp add: base64_def sextet_def Let_def del: decode_chars.simps)
next
  case (3 a b)
  then show ?case using decode_quad_chars [OF 3 _ _ _ _ encoded_quads(2) [of a b]] bin2ascii_inverse(3) equals_not_space
    by (simp add: base64_def sextet_def Let_def del: decode_chars.simps)
next
  case (4 a b c x)
  obtain ctx1 where 1: "decode_chars ctx (base64 [a, b, c]) = (True, [a, b, c], ctx1)" "quad_start False ctx1"
    using decode_quad_chars [OF "4.prems" _ _ _ _ encoded_quads(1) [of a b c]] bin2ascii_inverse(3)
    by (auto simp: base64_def sextet_def Let_def simp del: decode_chars.simps)
  obtain ctx2 where 2: "decode_chars ctx1 (base64 x) = (True, x, ctx2)" "quad_start (length x mod 3 \<noteq> 0) ctx2"
    using "4.IH" 1(2) by blast
  have "base64 (a # b # c # x) = base64 [a, b, c] @ base64 x" by (simp add: base64_def Let_def split: prod.split)
  then show ?case using 1(1) 2 by (simp add: decode_append)
qed

lemma decode_lines:
  "quad_start False ctx \<Longrightarrow> \<exists>ctx' eof. decode_chars ctx (pem_lines x) = (True, x, ctx') \<and> quad_start eof ctx'"
proof (induction x arbitrary: ctx rule: pem_lines.induct)
  case (1 x)
  have nl: "decode_chars ctx [10] = (True, [], ctx)" for ctx by (simp add: is_space_def)
  show ?case
  proof (cases "length x \<ge> 48")
    case True
    obtain ctx1 where c1: "decode_chars ctx (base64 (take 48 x)) = (True, take 48 x, ctx1)" "quad_start False ctx1"
      using decode_base64 [OF "1.prems", of "take 48 x"] True by auto
    obtain ctx2 eof where c2: "decode_chars ctx1 (pem_lines (drop 48 x)) = (True, drop 48 x, ctx2)" "quad_start eof ctx2"
      using "1.IH" [OF True c1(2)] by blast
    have "pem_lines x = base64 (take 48 x) @ [10] @ pem_lines (drop 48 x)" using True by (subst pem_lines.simps) simp
    then have "decode_chars ctx (pem_lines x) = (True, take 48 x @ drop 48 x, ctx2)"
      using c1(1) c2(1) nl by (simp only: decode_append) simp
    then show ?thesis using c2(2) by auto
  next
    case False
    obtain ctx1 where c1: "decode_chars ctx (base64 x) = (True, x, ctx1)" "quad_start (length x mod 3 \<noteq> 0) ctx1"
      using decode_base64 [OF "1.prems", of x] by blast
    have "pem_lines x = (if x = [] then [] else base64 x @ [10])" using False by (subst pem_lines.simps) simp
    then have "decode_chars ctx (pem_lines x) = (if x = [] then (True, [], ctx) else (True, x, ctx1))"
      using c1(1) nl by (simp add: decode_append del: decode_chars.simps(2))
    then show ?thesis using c1(2) "1.prems" by (cases "x = []") auto
  qed
qed

fun decode_pieces :: "encode_ctx \<Rightarrow> bytes list \<Rightarrow> bytes option" where
  "decode_pieces ctx [] = (if EVP_DecodeFinal ctx = 1 then Some [] else None)"
| "decode_pieces ctx (y # ys) = (case EVP_DecodeUpdate ctx y of (ret, out, out_len, ctx) \<Rightarrow>
     if ret < 0 then None else map_option ((@) (take out_len out)) (decode_pieces ctx ys))"

lemma decode_out_length:
  "decode_chars ctx inp = (ok, out, ctx') \<Longrightarrow> cx_data_used ctx < 4 \<Longrightarrow>
   length out \<le> cx_data_used ctx + length inp \<and>
   (ok \<longrightarrow> cx_data_used ctx' < 4 \<and> cx_error_encountered ctx' = cx_error_encountered ctx)"
proof (induction ctx inp arbitrary: out rule: decode_chars.induct)
  case (2 ctx c inp)
  let ?ctx = "ctx\<lparr>cx_data := (cx_data ctx)[cx_data_used ctx := c], cx_data_used := cx_data_used ctx + 1\<rparr>"
  let ?quad = "base64_decode_quad (cx_data ?ctx ! 0) (cx_data ?ctx ! 1) (cx_data ?ctx ! 2) (cx_data ?ctx ! 3)"
  show ?case
  proof (cases "is_space c \<or> cx_eof_seen ctx \<or> cx_data_used ?ctx \<noteq> 4")
    case True
    then show ?thesis using "2.prems" "2.IH"(1) [of out] "2.IH"(3) [of ?ctx out] by (auto simp: Let_def split: if_splits)
  next
    case False
    show ?thesis
    proof (cases ?quad)
      case None
      then show ?thesis using False "2.prems" by (auto simp: Let_def)
    next
      case (Some bs)
      let ?ctx' = "if length bs < 3 then (?ctx\<lparr>cx_data_used := 0\<rparr>)\<lparr>cx_eof_seen := True\<rparr> else ?ctx\<lparr>cx_data_used := 0\<rparr>"
      obtain ok' out' ctx'' where d: "decode_chars ?ctx' inp = (ok', out', ctx'')" by (metis prod_cases3)
      have r: "ok = ok'" "out = bs @ out'" "ctx' = ctx''" using False Some d "2.prems"(1) by (cases "length bs < 3"; simp add: Let_def)+
      have "length out' \<le> cx_data_used ?ctx' + length inp \<and>
          (ok' \<longrightarrow> cx_data_used ctx'' < 4 \<and> cx_error_encountered ctx'' = cx_error_encountered ?ctx')"
        using "2.IH"(2) [of ?ctx bs "?ctx\<lparr>cx_data_used := 0\<rparr>" ?ctx' out'] False Some d r by simp
      then show ?thesis using r quad_length [OF Some] False by (cases "length bs < 3") auto
    qed
  qed
qed simp

lemma decode_pieces_chars:
  assumes "decode_chars ctx (concat ys) = (True, out, ctx')" "list_all (\<lambda>y. length y \<le> 1000000000) ys"
    "cx_data_used ctx < 4" "\<not> cx_error_encountered ctx" "cx_data_used ctx' = 0"
  shows "decode_pieces ctx ys = Some out"
  using assms
proof (induction ys arbitrary: ctx out)
  case Nil
  then show ?case by (simp add: EVP_DecodeFinal_def)
next
  case (Cons y ys)
  obtain ok out1 ctx1 where c1: "decode_chars ctx y = (ok, out1, ctx1)" by (metis prod_cases3)
  obtain ok2 out2 ctx2 where c2: "decode_chars ctx1 (concat ys) = (ok2, out2, ctx2)" by (metis prod_cases3)
  have e: "ok" "ok2" "out = out1 @ out2" "ctx' = ctx2" using Cons.prems(1) c1 c2 by (auto simp: decode_append split: bool.splits)
  have l: "length out1 \<le> INT_MAX" "cx_data_used ctx1 < 4" "\<not> cx_error_encountered ctx1"
    using decode_out_length [OF c1 Cons.prems(3)] Cons.prems(2,3,4) e(1) by (simp_all add: INT_MAX_def)
  then have "decode_pieces ctx1 ys = Some out2" using Cons.IH [of ctx1 out2] c2 e Cons.prems by simp
  then show ?case using c1 e l Cons.prems(4) by (simp add: EVP_DecodeUpdate_def)
qed

lemma stream_read_back:
  assumes "list_all (\<lambda>x. length x \<le> 1000000000) xs" "list_all (\<lambda>y. length y \<le> 1000000000) ys" "concat ys = encode_pieces EVP_EncodeInit xs"
  shows "decode_pieces EVP_DecodeInit ys = Some (concat xs)"
proof -
  have "concat ys = pem_lines (concat xs)"
    using encode_pieces_lines [OF _ assms(1), of EVP_EncodeInit] assms(3) by (simp add: encoding_def EVP_EncodeInit_def ctx_pending_def)
  moreover have q: "quad_start False EVP_DecodeInit" by (simp add: quad_start_def EVP_DecodeInit_def)
  ultimately obtain ctx' eof where "decode_chars EVP_DecodeInit (concat ys) = (True, concat xs, ctx')" "quad_start eof ctx'"
    using decode_lines [OF q, of "concat xs"] by auto
  then show ?thesis using decode_pieces_chars [OF _ assms(2)] q by (simp add: quad_start_def)
qed

subsection \<open>What \<open>EVP_DecodeBlock\<close> strips\<close>

text \<open>Spaces before the text are stripped; a newline before it or a minus behind it are not.\<close>

lemma decode_block_strips:
  "EVP_DecodeBlock [32, 81, 85, 74, 68, 10] = Some [65, 66, 67] \<and> EVP_DecodeBlock [10, 81, 85, 74, 68] = None \<and>
   EVP_DecodeBlock [81, 85, 74, 68, 45] = None"
  by (simp add: EVP_DecodeBlock_def EVP_DecodedLength_def EVP_DecodeBase64_def is_space_def INT_MAX_def base64_decode_quad_def
      ascii2bin_cases pad_zeros_def Let_def)

end
