(* ===== verification/Buf.thy ===== *)
theory Buf
  imports Cbb
begin

text \<open>
  The growing buffer of \<open>crypto/buf/buf.c\<close>. The array at \<open>data\<close> has \<open>max\<close> bytes; what \<open>realloc\<close>
  adds to it is unspecified.
\<close>

record buf_mem =
  bm_length :: nat
  bm_data :: bytes
  bm_max :: nat

definition BUF_MEM_new :: "mem_env \<Rightarrow> buf_mem option" where
  "BUF_MEM_new env = (if \<not> env_malloc env 24 then None else Some \<lparr>bm_length = 0, bm_data = [], bm_max = 0\<rparr>)"

definition BUF_MEM_reserve :: "mem_env \<Rightarrow> nat \<Rightarrow> buf_mem \<Rightarrow> bool \<times> buf_mem" where
  "BUF_MEM_reserve env cap buf =
    (if bm_max buf \<ge> cap then (True, buf)
     else
       let n = szadd cap 3 in
       if n < cap then (False, buf)
       else
         let n = n div 3; alloc_size = n * 4 mod SIZE_MOD in
         if alloc_size div 4 \<noteq> n then (False, buf)
         else if \<not> env_realloc env alloc_size then (False, buf)
         else (True, buf\<lparr>bm_data := bm_data buf @ map (env_uninit env) [bm_max buf..<alloc_size], bm_max := alloc_size\<rparr>))"

text \<open>The result is \<open>len\<close>, or 0 where there is no memory.\<close>

definition BUF_MEM_grow :: "mem_env \<Rightarrow> nat \<Rightarrow> buf_mem \<Rightarrow> nat \<times> buf_mem" where
  "BUF_MEM_grow env len buf =
    (case BUF_MEM_reserve env len buf of
       (False, buf) \<Rightarrow> (0, buf)
     | (True, buf) \<Rightarrow>
         let data = (if bm_length buf < len
               then take (bm_length buf) (bm_data buf) @ replicate (len - bm_length buf) 0 @ drop len (bm_data buf)
               else bm_data buf)
         in (len, buf\<lparr>bm_data := data, bm_length := len\<rparr>))"

definition BUF_MEM_grow_clean :: "mem_env \<Rightarrow> nat \<Rightarrow> buf_mem \<Rightarrow> nat \<times> buf_mem" where
  "BUF_MEM_grow_clean env len buf = BUF_MEM_grow env len buf"

definition BUF_MEM_append :: "mem_env \<Rightarrow> bytes \<Rightarrow> buf_mem \<Rightarrow> bool \<times> buf_mem" where
  "BUF_MEM_append env inp buf =
    (let len = length inp in
     if len = 0 then (True, buf)
     else
       let new_len = szadd (bm_length buf) len in
       if new_len < len then (False, buf)
       else case BUF_MEM_reserve env new_len buf of
         (False, buf) \<Rightarrow> (False, buf)
       | (True, buf) \<Rightarrow>
           (True, buf\<lparr>bm_data := take (bm_length buf) (bm_data buf) @ inp @ drop new_len (bm_data buf), bm_length := new_len\<rparr>))"

subsection \<open>The contents\<close>

definition bm_inv :: "buf_mem \<Rightarrow> bool" where
  "bm_inv buf \<longleftrightarrow> length (bm_data buf) = bm_max buf \<and> bm_length buf \<le> bm_max buf \<and> bm_max buf < SIZE_MOD"

definition bm_contents :: "buf_mem \<Rightarrow> bytes" where
  "bm_contents buf = take (bm_length buf) (bm_data buf)"

lemma new_buffer: "BUF_MEM_new env = Some buf \<Longrightarrow> bm_inv buf \<and> bm_contents buf = []"
  by (auto simp: BUF_MEM_new_def bm_inv_def bm_contents_def SIZE_MOD_def split: if_splits)

text \<open>A reservation gives room and keeps the contents, whether it succeeds or not.\<close>

lemma reserve_room:
  assumes "bm_inv buf" "cap < SIZE_MOD" "BUF_MEM_reserve env cap buf = (ok, buf')"
  shows "bm_inv buf' \<and> bm_contents buf' = bm_contents buf \<and> bm_length buf' = bm_length buf \<and> (if ok then cap \<le> bm_max buf' else buf' = buf)"
proof (cases "ok \<and> bm_max buf < cap")
  case False
  then show ?thesis using assms(1,3) by (auto simp: BUF_MEM_reserve_def Let_def split: if_splits)
next
  case True
  let ?n = "szadd cap 3 div 3"
  let ?a = "?n * 4 mod SIZE_MOD"
  have b: "\<not> szadd cap 3 < cap" "?a div 4 = ?n"
    and buf': "buf' = buf\<lparr>bm_data := bm_data buf @ map (env_uninit env) [bm_max buf..<?a], bm_max := ?a\<rparr>"
    using True assms(3) by (auto simp: BUF_MEM_reserve_def Let_def split: if_splits)
  have "cap + 3 < SIZE_MOD" using b(1) szadd_wraps [of cap 3] assms(2) by (simp add: SIZE_MOD_def)
  then have "?n = (cap + 3) div 3" by (simp add: szadd_exact)
  then have "cap \<le> ?n * 4" by simp
  moreover have "?n * 4 = ?a div 4 * 4" using b(2) by simp
  ultimately have "cap \<le> ?a" using div_times_less_eq_dividend [of ?a 4] by linarith
  moreover have "?a < SIZE_MOD" by (simp add: SIZE_MOD_def)
  ultimately show ?thesis using True assms(1) buf' by (auto simp: bm_inv_def bm_contents_def)
qed

lemma append_contents_bm:
  assumes "bm_inv buf" "length inp < SIZE_MOD" "BUF_MEM_append env inp buf = (ok, buf')"
  shows "bm_inv buf' \<and> bm_contents buf' = bm_contents buf @ (if ok then inp else [])"
proof (cases "inp = [] \<or> szadd (bm_length buf) (length inp) < length inp")
  case True
  then show ?thesis using assms by (auto simp: BUF_MEM_append_def Let_def split: if_splits)
next
  case False
  let ?new = "szadd (bm_length buf) (length inp)"
  have "bm_length buf + length inp < SIZE_MOD"
    using False szadd_wraps [of "length inp" "bm_length buf"] assms(1,2) by (simp add: szadd_def add.commute bm_inv_def)
  then have n: "?new = bm_length buf + length inp" "?new < SIZE_MOD" by (simp_all add: szadd_exact)
  obtain ok' buf1 where r: "BUF_MEM_reserve env ?new buf = (ok', buf1)" by (metis prod.exhaust)
  note c = reserve_room [OF assms(1) n(2) r]
  have "bm_length buf \<le> length (bm_data buf)" using assms(1) by (simp add: bm_inv_def)
  then show ?thesis using False assms(3) r c n(1)
    by (cases ok') (auto simp: BUF_MEM_append_def bm_inv_def bm_contents_def Let_def split: if_splits)
qed

lemma grow_contents:
  assumes "bm_inv buf" "len < SIZE_MOD" "BUF_MEM_grow env len buf = (r, buf')" "r \<noteq> 0 \<or> len = 0"
  shows "bm_inv buf' \<and> bm_contents buf' = take len (bm_contents buf) @ replicate (len - bm_length buf) 0"
proof -
  obtain ok buf1 where r: "BUF_MEM_reserve env len buf = (ok, buf1)" by (metis prod.exhaust)
  note c = reserve_room [OF assms(1,2) r]
  have ok: "ok" using assms(3,4) r by (auto simp: BUF_MEM_grow_def BUF_MEM_reserve_def split: bool.splits if_splits)
  let ?d = "if bm_length buf1 < len then take (bm_length buf1) (bm_data buf1) @ replicate (len - bm_length buf1) 0 @ drop len (bm_data buf1) else bm_data buf1"
  have buf': "buf' = buf1\<lparr>bm_data := ?d, bm_length := len\<rparr>" using assms(3) r ok by (auto simp: BUF_MEM_grow_def Let_def)
  have "take len (bm_contents buf1) = take len (bm_contents buf)" using c by simp
  moreover have "bm_length buf \<le> length (bm_data buf)" using assms(1) by (simp add: bm_inv_def)
  ultimately show ?thesis using c ok unfolding buf' by (cases "bm_length buf1 < len") (auto simp: bm_inv_def bm_contents_def min_absorb1 min_absorb2)
qed

end
