(* ===== verification/Spec2Isabelle.thy ===== *)
theory Spec2Isabelle
  imports Oid Set_Of Unicode Ber_Trees Pb_Decode_Total Pb_Field_Codec Pb_Required Obj_Builtin Emails Base64_Correct Buf
begin

text \<open>
  The repository is an attendance application for a phone. The application itself is a handful of
  Flutter screens in Dart; what its build holds besides is the C and C++ code of the libraries that it
  links on iOS. This development verifies the C libraries of that code that read and write
  everything the application exchanges with its server: the byte-string library of BoringSSL
  (\<open>src/ios/Pods/BoringSSL-GRPC/src/crypto/bytestring\<close>), on which certificates, keys and the TLS
  handshake rest, with the containers, the registry of object identifiers and the base64 codec beside it
  (\<open>crypto/lhash\<close>, \<open>crypto/stack\<close>, \<open>crypto/obj\<close>, \<open>crypto/base64\<close>), and nanopb (\<open>src/ios/Pods/nanopb\<close>), with
  which Firestore encodes and decodes its protocol buffers.

  \<^bold>\<open>How the parts are modelled.\<close> A C function that returns a status and updates an object through a
  pointer is a function from the object to the result and the object afterwards, on every branch;
  out-parameters are results. Integers are words of their width, or naturals with the wrap-around
  written out where a \<open>size_t\<close> is only compared and added. Runs of memory that are only read or only
  appended to are lists of bytes; the message structures of nanopb live in a byte-addressed memory, with
  pointers as 64-bit words, so that field offsets, counts and unions are what the code computes with.

  \<^item> \<open>C_Prelude\<close>: words, byte strings, big-endian values and the masks of the sources; \<open>Codec\<close>: the
    contract of a writer and a reader as a hierarchy of locales (a reader that inverts the writer, one that
    accepts nothing else, one that makes progress); \<open>Order\<close>: comparison functions as locales and the
    \<open>qsort\<close> of the C library.
  \<^item> \<open>Cbs\<close> models \<open>cbs.c\<close>, the reader: a \<open>CBS\<close> is the list of its bytes. \<open>Der\<close> shows that its
    element parser accepts exactly DER, and what its integer readers return.
  \<^item> \<open>Cbb\<close> models \<open>cbb.c\<close>, the builder: the record \<open>cbb\<close> has the shared buffer and the chain of open
    children with their offsets and pending lengths; allocation is a parameter, and bytes that it did
    not write are unspecified. \<open>Cbb_Refine\<close> gives the abstract builder, a stack of frames, and shows
    that every operation implements its abstract counterpart; \<open>Cbb_Asn1\<close> does so for the writers of ASN.1
    elements; \<open>Der_Codec\<close> interprets the codec locales on the pairs of writer and reader.
  \<^item> \<open>Oid\<close> has the textual object identifiers, \<open>Set_Of\<close> the sorting of SET OF, \<open>Unicode\<close> the
    character encodings of \<open>unicode.c\<close>.
  \<^item> \<open>Ber\<close> models \<open>ber.c\<close> and \<open>asn1_compat.c\<close>; its conversion is recursive on the nesting of the
    input and has fuel, and \<open>Ber_Correct\<close> shows that more fuel than bytes of input is enough. \<open>Ber_Trees\<close> has
    the trees of ASN.1 elements, their BER encodings as an inductive relation and their DER encoding, and shows that the
    conversion reads the one and writes the other (\<open>der_result\<close>), in both directions.
  \<^item> \<open>Pb_Common\<close> has the memory, the constants and field descriptors of \<open>pb.h\<close> and the iterator of
    \<open>pb_common.c\<close>; \<open>Pb_Iter\<close> shows that its search ends and does not depend on where it starts.
    \<open>Pb_Encode\<close> models \<open>pb_encode.c\<close>: the streams (\<open>ostream\<close>, whose state is the
    run of bytes stored so far), the writers of the wire format, the field encoders and the encoding of
    messages. \<open>Pb_Sizing\<close> shows that the sizing pass and the writing pass agree for every encoder
    (\<open>determined\<close>), and \<open>Pb_Encode_Total\<close> that the encoder returns.
  \<^item> \<open>Pb_Wire\<close> models the streams and readers of \<open>pb_decode.c\<close>, \<open>Pb_Codec\<close> shows that they read
    back what the encoder writes. \<open>Pb_Decode\<close> models the rest of \<open>pb_decode.c\<close>: field decoders,
    allocation, defaults, release, extensions and the message loop with its required and fixed-count
    fields. \<open>Pb_Readers\<close> and \<open>Pb_Decode_Safe\<close> show that reading and decoding stay in the input,
    through all substreams; \<open>Pb_Decode_Total\<close> that the decoder returns; \<open>Pb_Field_Codec\<close> that
    allocation asks for the right size and that a field which was encoded from one structure is
    copied into another; \<open>Pb_Required\<close> that the check for required fields is exact.

  \<^item> \<open>Cstring\<close> has the string functions of \<open>mem.c\<close>; \<open>Lhash\<close> models the hash table of \<open>lhash.c\<close>
    (the record \<open>lhash\<close> with its buckets as lists of items) and shows its invariant over all reachable
    tables and that it is a partial function; what it relies on, that equal data have equal hash values,
    is the locale \<open>hash_contract\<close>. \<open>Stack\<close> models \<open>stack.c\<close>, an array with its free slots, and
    \<open>Stack_Correct\<close> shows that it is a list and that the binary search finds the first match, with the
    order of the elements as the locale \<open>element_order\<close>. \<open>Emails\<close> is a client of the stack, the
    collection of strings without duplicates of \<open>v3_utl.c\<close>.
  \<^item> \<open>Obj\<close> models \<open>obj.c\<close>: the counter of numbers and four hash tables, whose hash and comparison
    functions interpret \<open>hash_contract\<close> in \<open>Obj_Correct\<close>; the text of a new object goes through the
    builder (\<open>CBB_add_asn1_oid_from_text\<close>) and comes back through \<open>CBS_asn1_oid_to_text\<close>. \<open>Obj_Builtin\<close>
    shows that names of the generated tables are found, where these are sorted.
  \<^item> \<open>Base64\<close> models \<open>base64.c\<close> with the constant-time primitives that it is written in, and
    \<open>Base64_Correct\<close> shows that these are table lookups and that blocks and streams are read back. \<open>Buf\<close> has the growing buffer of \<open>buf.c\<close> with its contents as a list.

  \<^bold>\<open>Fuel.\<close> The encoder and the decoder of nanopb call themselves through submessages, along pointers
  in memory. Their fuel bounds that nesting; \<open>None\<close> is a call that does not return. Fuel beyond the depth of
  the message in memory and the length of its lists of extensions is enough for the encoder (\<open>encodable\<close>,
  \<open>encode_returns\<close>); for message types that do not contain themselves and have no extension fields, so is fuel beyond
  the rank of the type, in every memory. For such types twice the rank and the length of the input are enough for the
  decoder (\<open>decode_returns\<close>), unless a callback of the user accepts a stream without reading (\<open>stalls\<close>). Nothing is shown of the return of the decoder for
  message types with extension fields: it walks lists in a memory that it writes to. The loops inside a call
  (packed arrays, the fields of a message) take their fuel from the bytes that the stream has
  left, of which every round takes at least one.

  \<^bold>\<open>Parameters.\<close> The allocator, and for nanopb the callbacks of the user, the field arrays of the generated
  code and the address that \<open>realloc\<close> returns, are arguments of the definitions. What the theorems need of
  them is stated as named hypotheses (\<open>alloc_ok\<close>, \<open>callbacks_determined\<close>, \<open>encodable\<close>, \<open>ranked_types\<close>,
  \<open>no_extensions\<close>, \<open>sized_pointers\<close>, \<open>well_behaved\<close>). So are the comparison functions of the stack, the hash
  functions of the hash table, and the generated tables of built-in objects (\<open>obj_dat.h\<close>), of which the
  property of \<open>OBJ_create\<close> assumes nothing.

  \<^bold>\<open>Not modelled.\<close> Whether a pointer of the caller is valid: reading through a pointer is total in the model.
  \<open>CBS_strdup\<close>, which only copies into a C string. The branches of nanopb for other build
  configurations than the one of the project (\<open>PB_FIELD_32BIT\<close>, \<open>PB_ENABLE_MALLOC\<close>, error messages,
  64-bit integers). The functions of the containers that only give memory back, and the locks around the
  registry. The rest of BoringSSL, gRPC, Abseil, LevelDB, the Firestore core, libuv and the
  Objective-C frameworks: C++ and Objective-C over threads, sockets and files, generated tables and
  cryptographic primitives. The Dart screens of the application have no algorithms of their own.
\<close>

definition ok_env :: mem_env where
  "ok_env = \<lparr>env_malloc = (\<lambda>_. True), env_realloc = (\<lambda>_. True), env_uninit = (\<lambda>_. 0)\<rparr>"

lemma alloc_ok_env [simp]: "alloc_ok ok_env"
  by (simp add: alloc_ok_def ok_env_def)

section \<open>Properties of the byte-string library\<close>

text \<open>
  C1. \<open>CBS_get_any_asn1_element\<close> accepts exactly DER: it succeeds if and only if the input starts
  with a tag in its shortest form, a length in its shortest form of at most four bytes and that
  many bytes of contents, and it then returns that element, its tag and the length of its header.
\<close>

theorem der_parser_exact:
  "CBS_get_any_asn1_element cbs = (Some e, rest) \<longleftrightarrow>
     cbs = elt_out e @ rest \<and>
     (\<exists>contents. length contents < 2 ^ 32 \<and>
        elt_out e = der_header (elt_tag e) (length contents) @ contents \<and>
        elt_header_len e = length (der_header (elt_tag e) (length contents)) \<and> \<not> elt_ber_found e)"
  unfolding any_asn1_element_iff der_element_def by auto

text \<open>
  C2. \<open>CBB_flush\<close> refines the abstract builder, a stack of frames: where it returns 1 the buffer
  holds the contents of the open children, innermost first, each behind its length; with a buffer
  that can grow and an allocator that does not fail it returns 1 wherever every length fits.
\<close>

theorem builder_flush_refines:
  "implements env (\<lambda>_. True) (CBB_flush env k) (a_flush k)"
  by (rule CBB_flush_implements)

text \<open>
  C3. \<open>CBB_add_asn1\<close> closes the open children of its builder, writes the DER encoding of the tag
  and opens a child whose length will be written in DER form when it is flushed.
\<close>

theorem builder_add_asn1_refines:
  "implements env (\<lambda>_. True) (CBB_add_asn1 env tag k)
     (\<lambda>fs. Option.bind (a_append k (der_tag tag) fs) (a_open k Asn1Prefix))"
  by (rule CBB_add_asn1_implements)

text \<open>
  C4. A signed 64-bit integer that \<open>CBB_add_asn1_int64\<close> writes into a new builder is what
  \<open>CBS_get_asn1_int64\<close> reads from the finished bytes, whatever follows them; and the write
  succeeds where the allocator does.
\<close>

theorem int64_write_read:
  assumes "alloc_ok env"
  shows "\<exists>out. build env cap (CBB_add_asn1_int64 env v 0) = Some out \<and>
    CBS_get_asn1_int64 (out @ rest) = (Some v, rest)"
proof -
  have "length (int_contents v) \<le> 0xfffffffe"
    using length_uint_contents [of "unat v"] int64_start_prefix [of v 7] by (auto simp: int_contents_def)
  from build_element(2) [OF CBB_add_asn1_int64_implements assms this]
  have "build env cap (CBB_add_asn1_int64 env v 0) = Some (der_elem CBS_ASN1_INTEGER (int_contents v))" .
  with asn1_int64.dec_enc [of v rest] show ?thesis by simp
qed

theorem int64_write_read_witness:
  "\<exists>out. build ok_env 0 (CBB_add_asn1_int64 ok_env (- 129) 0) = Some out \<and>
     CBS_get_asn1_int64 (out @ [7]) = (Some (- 129), [7])"
  by (rule int64_write_read [OF alloc_ok_env])

text \<open>
  C5. \<open>CBS_get_asn1_uint64\<close> is canonical: it accepts an INTEGER exactly in the form that
  \<open>CBB_add_asn1_uint64\<close> writes, without superfluous leading bytes, non-negative and in 64 bits.
\<close>

theorem uint64_canonical:
  assumes "alloc_ok env"
  shows "CBS_get_asn1_uint64 bs = (Some v, rest) \<longleftrightarrow>
    (\<exists>out. build env cap (CBB_add_asn1_uint64 env v 0) = Some out \<and> bs = out @ rest)"
proof -
  have "length (uint_contents (unat v)) \<le> 0xfffffffe" using length_uint_contents [of "unat v"] by simp
  from build_element(2) [OF CBB_add_asn1_uint64_implements assms this]
  show ?thesis by (simp add: asn1_uint64.dec_iff)
qed

theorem uint64_canonical_witness:
  "CBS_get_asn1_uint64 [2, 2, 0, 200, 1] = (Some 200, [1]) \<longleftrightarrow>
    (\<exists>out. build ok_env 0 (CBB_add_asn1_uint64 ok_env 200 0) = Some out \<and> [2, 2, 0, 200, 1] = out @ [1])"
  by (rule uint64_canonical [OF alloc_ok_env])

text \<open>
  C6. What \<open>CBS_get_asn1_int64\<close> returns is the two's complement value of the contents of the
  INTEGER at the front of its input, so that sign extension to eight bytes is right for every
  length from one to eight.
\<close>

theorem int64_value:
  assumes "CBS_get_asn1_int64 bs = (Some v, rest)"
  shows "\<exists>c. bs = der_elem CBS_ASN1_INTEGER c @ rest \<and> 0 < length c \<and> length c \<le> 8 \<and> sint v = asn1_int c"
proof -
  obtain c neg where c: "bs = der_elem CBS_ASN1_INTEGER c @ rest" "CBS_is_valid_asn1_integer c = Some neg"
    "length c \<le> 8" "unat v = be_nat (replicate (8 - length c) (if neg then 0xff else 0) @ c)"
    using assms unfolding CBS_get_asn1_int64_iff by (auto simp: der_elem_def)
  have "sint v = asn1_int c" by (rule CBS_get_asn1_int64_value [OF c(2-4)])
  with c(1,3) is_valid_asn1_integer_sign [OF c(2)] show ?thesis by auto
qed

theorem int64_value_witness:
  "\<exists>c. der_elem CBS_ASN1_INTEGER [0x80, 0, 0, 0, 0, 0, 0, 1] @ [9] = der_elem CBS_ASN1_INTEGER c @ [9] \<and>
     0 < length c \<and> length c \<le> 8 \<and> sint (0x8000000000000001 :: u64) = asn1_int c"
proof (rule int64_value)
  show "CBS_get_asn1_int64 (der_elem CBS_ASN1_INTEGER [0x80, 0, 0, 0, 0, 0, 0, 1] @ [9]) = (Some 0x8000000000000001, [9])"
    by (rule CBS_get_asn1_int64_complete [of _ True]) (simp_all add: valid_integer_Cons)
qed

text \<open>
  C7. A child opened with \<open>CBB_add_u16_length_prefixed\<close> gets its length when its parent is
  finished: what is written into the child is what \<open>CBS_get_u16_length_prefixed\<close> reads back,
  whatever is written to the parent after it.
\<close>

theorem u16_prefixed_write_read:
  assumes "alloc_ok env" "length d < 2 ^ 16" "length t < 2 ^ 16"
  shows "\<exists>out. build env cap (\<lambda>c. and_then (and_then (CBB_add_u16_length_prefixed env 0 c)
      (CBB_add_bytes env d 1)) (CBB_add_bytes env t 0)) = Some out \<and>
    CBS_get_u16_length_prefixed out = (Some d, t)"
proof -
  have sz: "length d < SIZE_MOD" "length t < SIZE_MOD" using assms(2,3) by (simp_all add: SIZE_MOD_def)
  let ?fs = "[(LenPrefix 0, []), (LenPrefix 2, d)]"
  have w: "implements env (\<lambda>_. True) (\<lambda>c. and_then (and_then (CBB_add_u16_length_prefixed env 0 c)
      (CBB_add_bytes env d 1)) (CBB_add_bytes env t 0))
      (\<lambda>x. Option.bind (Option.bind (a_open 0 (LenPrefix 2) x) (a_append 1 d)) (a_append 0 t))"
    unfolding CBB_add_u16_length_prefixed_def
    by (intro implements_seq [of _ "\<lambda>_. True" _ _ "\<lambda>_. True"] length_prefixed_implements
        CBB_add_bytes_implements sz) (simp_all add: SIZE_MOD_def)
  have o: "a_open 0 (LenPrefix 2) [(LenPrefix 0, [])] = Some [(LenPrefix 0, []), (LenPrefix 2, [])]"
    by (simp add: a_open_def a_flush_top)
  have a: "a_append 1 d [(LenPrefix 0, []), (LenPrefix 2, [])] = Some ?fs"
    by (simp add: a_append_top app_last_def)
  have f: "a_append 0 t ?fs = Some [(LenPrefix 0, be_bytes 2 (length d) @ d @ t)]"
    using assms(2) by (simp add: a_append_def a_flush_def app_last_def)
  have tf: "a_flush 0 [(LenPrefix 0, x)] = Some [(LenPrefix 0, x)]" for x by (simp add: a_flush_top)
  have oaf: "Option.bind (Option.bind (a_open 0 (LenPrefix 2) [(LenPrefix 0, [])]) (a_append 1 d)) (a_append 0 t) =
      Some [(LenPrefix 0, be_bytes 2 (length d) @ d @ t)]"
    by (simp only: o a f Option.bind.simps)
  have "length (be_bytes 2 (length d) @ d @ t) < SIZE_MOD" using assms(2,3) by (simp add: SIZE_MOD_def)
  then have "build env cap (\<lambda>c. and_then (and_then (CBB_add_u16_length_prefixed env 0 c)
      (CBB_add_bytes env d 1)) (CBB_add_bytes env t 0)) = Some (be_bytes 2 (length d) @ d @ t)"
    by (rule build_live [OF w assms(1) oaf tf])
  with u16_prefixed.dec_enc [OF assms(2), of t] show ?thesis by simp
qed

theorem u16_prefixed_write_read_witness:
  "\<exists>out. build ok_env 0 (\<lambda>c. and_then (and_then (CBB_add_u16_length_prefixed ok_env 0 c)
      (CBB_add_bytes ok_env [1, 2, 3] 1)) (CBB_add_bytes ok_env [9] 0)) = Some out \<and>
    CBS_get_u16_length_prefixed out = (Some [1, 2, 3], [9])"
  by (rule u16_prefixed_write_read [OF alloc_ok_env]) simp_all


text \<open>
  C8. \<open>CBB_flush_asn1_set_of\<close> sorts: where it returns 1, the contents of its builder were a run of
  DER elements, and they are now the same elements in ascending order of their encodings: octet by
  octet as numbers, an encoding before those that it is the beginning of.
\<close>

theorem set_of_flush_sorts:
  assumes "cbb_abs c fs" "CBB_flush_asn1_set_of env k c = (True, c')"
  shows "\<exists>gs kind cs ds. a_flush k fs = Some (gs @ [(kind, concat cs)]) \<and> list_all der_child cs \<and>
    cbb_abs c' (gs @ [(kind, concat ds)]) \<and> mset ds = mset cs \<and> sorted_wrt octets_le ds"
proof -
  obtain gs kind content cs where r: "a_flush k fs = Some (gs @ [(kind, content)])" "set_of_children content = Some cs"
    "cbb_abs c' (gs @ [(kind, concat (qsort compare_set_of_element cs))])"
    by (rule CBB_flush_asn1_set_of_sound [OF assms])
  then have cs: "content = concat cs" "list_all der_child cs" by (simp_all add: set_of_children_iff)
  show ?thesis
    by (rule exI [of _ gs], rule exI [of _ kind], rule exI [of _ cs], rule exI [of _ "qsort compare_set_of_element cs"])
       (intro conjI cs r(3) set_of.qsort_ordered [unfolded ordered_octets_le] r(1) [unfolded cs] mset_qsort)
qed

definition sample_set :: cbb where
  "sample_set = \<lparr>cbb_base = Some \<lparr>bb_buf = [5, 0, 1, 1, 255], bb_cap = 64, bb_can_resize = True,
     bb_error = False\<rparr>, cbb_chain = []\<rparr>"

lemma sample_set_abs: "cbb_abs sample_set [(LenPrefix 0, [5, 0, 1, 1, 255])]"
  by (simp add: sample_set_def cbb_abs_def SIZE_MOD_def)

lemma sample_set_flush:
  "CBB_flush_asn1_set_of ok_env 0 sample_set = (True, snd (CBB_flush_asn1_set_of ok_env 0 sample_set))"
  by code_simp

theorem set_of_flush_sorts_witness:
  "\<exists>gs kind cs ds. a_flush 0 [(LenPrefix 0, [5, 0, 1, 1, 255])] = Some (gs @ [(kind, concat cs)]) \<and>
    list_all der_child cs \<and>
    cbb_abs (snd (CBB_flush_asn1_set_of ok_env 0 sample_set)) (gs @ [(kind, concat ds)]) \<and>
    mset ds = mset cs \<and> sorted_wrt octets_le ds"
  by (rule set_of_flush_sorts [OF sample_set_abs sample_set_flush])

text \<open>
  C9. The encoding of a SET OF does not depend on the order in which its elements were added: two
  builders that hold the same elements hold the same bytes after \<open>CBB_flush_asn1_set_of\<close>.
\<close>

theorem set_of_order_independent:
  assumes "list_all der_child cs" "list_all der_child ds" "mset cs = mset ds"
    and "cbb_abs c [(LenPrefix 0, concat cs)]" "CBB_flush_asn1_set_of env 0 c = (True, c')"
    and "cbb_abs d [(LenPrefix 0, concat ds)]" "CBB_flush_asn1_set_of env 0 d = (True, d')"
  shows "CBB_data 0 c' = CBB_data 0 d'"
proof -
  have r: "CBB_data 0 x' = concat (qsort compare_set_of_element xs)"
    if x: "list_all der_child xs" "cbb_abs x [(LenPrefix 0, concat xs)]" "CBB_flush_asn1_set_of env 0 x = (True, x')" for xs x x'
  proof -
    obtain gs kind content ys where y: "a_flush 0 [(LenPrefix 0, concat xs)] = Some (gs @ [(kind, content)])"
      "length gs = 0" "set_of_children content = Some ys"
      "cbb_abs x' (gs @ [(kind, concat (qsort compare_set_of_element ys))])"
      by (rule CBB_flush_asn1_set_of_sound [OF x(2,3)])
    then have "content = concat xs" by (simp add: a_flush_top)
    moreover have "set_of_children (concat xs) = Some xs" using x(1) by (simp add: set_of_children_iff)
    ultimately have "ys = xs" using y(3) by simp
    then show ?thesis using CBB_data_last [OF y(4,2)] by simp
  qed
  show ?thesis unfolding r [OF assms(1,4,5)] r [OF assms(2,6,7)] by (rule arg_cong [OF set_of.qsort_cong [OF assms(3)]])
qed

definition sample_set_swapped :: cbb where
  "sample_set_swapped = \<lparr>cbb_base = Some \<lparr>bb_buf = [1, 1, 255, 5, 0], bb_cap = 64, bb_can_resize = True,
     bb_error = False\<rparr>, cbb_chain = []\<rparr>"

theorem set_of_order_independent_witness:
  "CBB_data 0 (snd (CBB_flush_asn1_set_of ok_env 0 sample_set)) =
   CBB_data 0 (snd (CBB_flush_asn1_set_of ok_env 0 sample_set_swapped))"
proof (rule set_of_order_independent [of "[[5, 0], [1, 1, 255]]" "[[1, 1, 255], [5, 0]]" sample_set ok_env _ sample_set_swapped])
  have "get_child [5, 0] = (Some [5, 0], [])" "get_child [1, 1, 255] = (Some [1, 1, 255], [])"
    by (simp_all add: get_child_def element_eval)
  then have "der_child [5, 0]" "der_child [1, 1, 255]" unfolding get_child_iff by simp_all
  then show "list_all der_child [[5, 0], [1, 1, 255]]" "list_all der_child [[1, 1, 255], [5, 0]]" by simp_all
  show "mset [[5, 0], [1, 1, 255]] = mset [[1, 1, 255], [5, 0 :: u8]]" by simp
  show "cbb_abs sample_set [(LenPrefix 0, concat [[5, 0], [1, 1, 255]])]" using sample_set_abs by simp
  show "CBB_flush_asn1_set_of ok_env 0 sample_set = (True, snd (CBB_flush_asn1_set_of ok_env 0 sample_set))"
    by (rule sample_set_flush)
  show "cbb_abs sample_set_swapped [(LenPrefix 0, concat [[1, 1, 255], [5, 0]])]"
    by (simp add: sample_set_swapped_def cbb_abs_def SIZE_MOD_def)
  show "CBB_flush_asn1_set_of ok_env 0 sample_set_swapped =
      (True, snd (CBB_flush_asn1_set_of ok_env 0 sample_set_swapped))" by code_simp
qed


text \<open>
  C10. \<open>CBB_add_asn1_oid_from_text\<close> accepts exactly the dotted decimal texts of object identifiers
  (two or more components of 64 bits without leading zeros, the first at most 2, the second at
  most 39 below the first arc 2) and writes the contents of that identifier.
\<close>

theorem oid_from_text_exact:
  assumes "alloc_ok env" "10 * length txt < SIZE_MOD"
  shows "build env cap (CBB_add_asn1_oid_from_text env txt 0) = Some out \<longleftrightarrow>
    (\<exists>cs. txt = dotted cs \<and> oid_valid cs \<and> out = oid_contents cs)"
  using oid_text_build [OF assms, of cap] by (simp add: oid_of_text_iff)

theorem oid_from_text_exact_witness:
  "build ok_env 0 (CBB_add_asn1_oid_from_text ok_env [49, 46, 50, 46, 51] 0) = Some [42, 3] \<longleftrightarrow>
    (\<exists>cs. [49, 46, 50, 46, 51] = dotted cs \<and> oid_valid cs \<and> [42, 3] = oid_contents cs)"
  by (rule oid_from_text_exact [OF alloc_ok_env]) (simp add: SIZE_MOD_def)

text \<open>
  C11. \<open>CBS_asn1_oid_to_text\<close> inverts the reading of text: it prints exactly the valid contents,
  as the NUL-terminated text from which \<open>CBB_add_asn1_oid_from_text\<close> makes the same contents.
\<close>

theorem oid_to_text_exact:
  assumes "alloc_ok env" "21 * (length bs + 2) < SIZE_MOD"
  shows "CBS_asn1_oid_to_text env bs = Some t \<longleftrightarrow>
    (\<exists>cs. oid_valid cs \<and> bs = oid_contents cs \<and> t = dotted cs @ [0] \<and> oid_of_text (dotted cs) = Some bs)"
proof
  assume "CBS_asn1_oid_to_text env bs = Some t"
  then obtain cs where "oid_valid cs" "bs = oid_contents cs" "t = dotted cs @ [0]" by (rule oid_to_text_sound)
  then show "\<exists>cs. oid_valid cs \<and> bs = oid_contents cs \<and> t = dotted cs @ [0] \<and> oid_of_text (dotted cs) = Some bs"
    by (intro exI [of _ cs]) (auto simp: oid_of_text_iff)
next
  assume "\<exists>cs. oid_valid cs \<and> bs = oid_contents cs \<and> t = dotted cs @ [0] \<and> oid_of_text (dotted cs) = Some bs"
  then obtain cs where cs: "oid_valid cs" "bs = oid_contents cs" "t = dotted cs @ [0]" by blast
  have "length (dotted cs) + 1 < SIZE_MOD"
    using assms(2) length_dotted [of cs] length_oid_contents(2) [OF cs(1)] cs(2) by simp
  then show "CBS_asn1_oid_to_text env bs = Some t"
    using oid_to_text_complete [of env cs] assms(1) cs by (simp add: alloc_ok_def)
qed

theorem oid_to_text_exact_witness:
  "CBS_asn1_oid_to_text ok_env [42, 3] = Some [49, 46, 50, 46, 51, 0] \<longleftrightarrow>
    (\<exists>cs. oid_valid cs \<and> [42, 3] = oid_contents cs \<and> [49, 46, 50, 46, 51, 0] = dotted cs @ [0] \<and>
       oid_of_text (dotted cs) = Some [42, 3])"
  by (rule oid_to_text_exact [OF alloc_ok_env]) (simp add: SIZE_MOD_def)



text \<open>
  C13. The recursion of \<open>cbs_convert_ber\<close> ends: more steps than bytes of input are never needed,
  so that the conversion always returns and leaves at most its input.
\<close>

theorem ber_conversion_terminates:
  assumes "length inp < fuel"
  shows "\<exists>ok inp' out'. cbs_convert_ber env fuel k string_tag eoc depth inp out = Some (ok, inp', out') \<and>
    length inp' \<le> length inp"
  using convert_ber_total [OF assms] .

theorem ber_conversion_terminates_witness:
  "\<exists>ok inp' out'. cbs_convert_ber ok_env 5 0 0 False 0 [0x24, 0x80, 0, 0] sample_set = Some (ok, inp', out') \<and>
    length inp' \<le> length [0x24, 0x80, 0, 0 :: u8]"
  by (rule ber_conversion_terminates) simp






text \<open>
  C15. \<open>CBS_get_asn1_implicit_string\<close> returns the contents of a primitive string, or the
  concatenation of the chunks of a constructed one whose elements all have the inner tag.
\<close>

theorem implicit_string_concatenates:
  assumes "CBS_get_asn1_implicit_string env outer inner inp = (Some (data, stored), inp')"
  shows "\<not> stored \<and> inp = der_elem outer data @ inp' \<or>
    stored \<and> (\<exists>cs. inp = der_elem (outer OR CBS_ASN1_CONSTRUCTED) (concat (map (der_elem inner) cs)) @ inp' \<and>
      data = concat cs)"
  using implicit_string_sound [OF assms] .

theorem implicit_string_concatenates_witness:
  "\<not> False \<and> [0x80, 1, 7, 9] = der_elem 0x80000000 [7] @ [9] \<or>
    False \<and> (\<exists>cs. [0x80, 1, 7, 9] = der_elem (0x80000000 OR CBS_ASN1_CONSTRUCTED) (concat (map (der_elem 4) cs)) @ [9] \<and>
      [7] = concat cs)"
proof (rule implicit_string_concatenates [of ok_env])
  show "CBS_get_asn1_implicit_string ok_env 0x80000000 4 [0x80, 1, 7, 9] = (Some ([7], False), [9])" by code_simp
qed



text \<open>
  C17. \<open>cbs_find_ber\<close> misses BER that is nested in an element with a later sibling, because the next
  element overwrites the flag that the recursive call has set: the constructed string in the first
  element of this SEQUENCE goes unnoticed, and \<open>CBS_asn1_ber_to_der\<close> returns it unconverted.
\<close>

theorem find_ber_misses_nested:
  "ber_inside with_sibling \<and> cbs_find_ber 0 with_sibling = Some False \<and>
   CBS_asn1_ber_to_der env with_sibling = (Some (with_sibling, False), [])"
  using with_sibling_ber with_sibling_missed with_sibling_not_converted by blast

section \<open>Properties of nanopb\<close>

definition sample_field :: pb_field where
  "sample_field = \<lparr>pf_tag = 1, pf_type = 0x02, pf_data_offset = 0, pf_size_offset = 0, pf_data_size = 4,
     pf_array_size = 0, pf_ptr = 0\<rparr>"


definition sample_mem :: mem where
  "sample_mem = (\<lambda>_. 0)(16 := 150)"





text \<open>
  C19. \<open>pb_encode\<close> returns: for a message whose submessages and extensions form, in memory, a tree of
  less than \<open>d\<close> levels with lists of extensions of less than \<open>d\<close> entries, whether or not its type contains
  itself, it has a result on every stream with fuel beyond \<open>d\<close>. Messages of types that do not contain themselves,
  as a rank shows, and have no extension fields are such trees whatever the memory holds. Neither
  condition covers a list of extensions that leads back to itself, which the encoder does not leave.
\<close>

theorem encode_returns:
  assumes "encodable d env m fds src \<or> ranked_types (env_fields env) rank \<and> no_extensions (env_fields env) \<and> rank fds < d"
    and "d < n"
  shows "\<exists>ok s'. pb_encode n env m fds src s = Some (ok, s')"
proof -
  have "encodable d env m fds src" using assms(1) ranked_encodable by blast
  from encode_total [OF this assms(2), of s] show ?thesis by fastforce
qed

text \<open>A message of the type at address 8 with an extension field, and a list of one extension.\<close>

definition extended_env :: pb_env where
  "extended_env = \<lparr>env_fields = (\<lambda>p.
       if p = 8 then [sample_field, \<lparr>pf_tag = 100, pf_type = 0x59, pf_data_offset = 4, pf_size_offset = 0,
         pf_data_size = 8, pf_array_size = 0, pf_ptr = 0\<rparr>]
       else if p = 200 then [sample_field\<lparr>pf_tag := 100\<rparr>] else []),
     env_encode = (\<lambda>_ _ _ _ s. (True, s)), env_ext_encode = (\<lambda>_ _ _ s. (True, s))\<rparr>"

definition extended_mem :: mem where
  "extended_mem = sample_mem(24 := 64, 64 := 96, 72 := 128, 112 := 200, 128 := 7)"

lemma extended_loads:
  "ld64 extended_mem 24 = 64" "ld64 extended_mem 64 = 96" "ld64 extended_mem 72 = 128" "ld64 extended_mem 80 = 0"
  "ld64 extended_mem 104 = 0" "ld64 extended_mem 112 = 200"
  by (simp_all add: ld64_def mem_bytes_def extended_mem_def sample_mem_def upt_rec)

lemma extended_encodable: "encodable 3 extended_env extended_mem 8 16"
proof -
  have t: "ext_type_encode extended_mem 64 = 0" "ext_type_arg extended_mem 64 = 200"
    by (simp_all add: ext_type_encode_def ext_type_arg_def ext_type_def extended_loads)
  show ?thesis unfolding numeral_3_eq_3
    by (simp add: iter_all_def iter_walk.simps pb_field_iter_begin_def pb_field_iter_next_def it_field_def field_at_def
        extended_env_def sample_field_def field_extent_def size_ptr_def PB_ATYPE_def PB_HTYPE_def PB_LTYPE_def pb_consts
        PB_LAST_FIELD_def extended_loads ext_next_def t encodable_field_def known_field_def ext_field_def Let_def)
qed

theorem encode_returns_witness:
  "\<exists>ok s'. pb_encode 4 extended_env extended_mem 8 16 PB_OSTREAM_SIZING = Some (ok, s')"
proof (rule encode_returns)
  show "encodable 3 extended_env extended_mem 8 16 \<or>
      ranked_types (env_fields extended_env) (\<lambda>_. 0) \<and> no_extensions (env_fields extended_env) \<and> (0 :: nat) < 3"
    using extended_encodable ..
qed simp

text \<open>
  C20. The writers stay in the buffer: \<open>pb_write\<close> and \<open>pb_encode_string\<close>, on success and on failure,
  keep the number of stored bytes equal to \<open>bytes_written\<close> and at most \<open>max_size\<close>.
\<close>

theorem writers_in_bounds:
  assumes "in_bounds s" "length buf = unat n"
  shows "in_bounds (snd (pb_write buf n s)) \<and> in_bounds (snd (pb_encode_string buf n s)) \<and>
    os_max_size (snd (pb_write buf n s)) = os_max_size s \<and>
    os_max_size (snd (pb_encode_string buf n s)) = os_max_size s"
  using write_in_bounds [OF assms] encode_string_in_bounds [OF assms] by blast

theorem writers_in_bounds_witness:
  "in_bounds (snd (pb_write [1, 2] 2 (pb_ostream_from_buffer 2))) \<and>
   in_bounds (snd (pb_encode_string [1, 2] 2 (pb_ostream_from_buffer 2))) \<and>
   os_max_size (snd (pb_write [1, 2] 2 (pb_ostream_from_buffer 2))) = os_max_size (pb_ostream_from_buffer 2) \<and>
   os_max_size (snd (pb_encode_string [1, 2] 2 (pb_ostream_from_buffer 2))) = os_max_size (pb_ostream_from_buffer 2)"
  by (rule writers_in_bounds) (simp_all add: in_bounds_def pb_ostream_from_buffer_def)

text \<open>
  C21. What \<open>pb_encode_varint\<close> writes is what \<open>pb_decode_varint\<close> reads, for all 64-bit values and
  whatever follows; it takes at most ten bytes.
\<close>

theorem varint_write_read:
  "\<exists>out. emits (\<lambda>s. Some (pb_encode_varint v s)) out \<and> length out \<le> 10 \<and>
     on_buffer pb_decode_varint (out @ rest) = (Some v, rest)"
  using emits_varint length_varint_bytes varint.dec_enc by blast

text \<open>
  C22. The zigzag encoding is inverted: what \<open>pb_encode_svarint\<close> writes is what \<open>pb_decode_svarint\<close>
  reads, for all signed 64-bit values.
\<close>

theorem svarint_write_read:
  "\<exists>out. emits (\<lambda>s. Some (pb_encode_svarint v s)) out \<and>
     on_buffer pb_decode_svarint (out @ rest) = (Some v, rest)"
  unfolding pb_encode_svarint_def using emits_varint svarint.dec_enc by blast



text \<open>
  C24. The 32-bit reader takes both forms of a 32-bit value: the unsigned value, and a negative value
  that was extended to 64 bits, of which it checks the sign extension in the ten bytes.
\<close>

theorem varint32_both_forms:
  "on_buffer pb_decode_varint32 (varint_bytes (ucast v) @ rest) = (Some v, rest) \<and>
   on_buffer pb_decode_varint32 (varint_bytes (scast v) @ rest) = (Some v, rest)"
proof -
  have "on_buffer pb_decode_varint32 (varint_bytes (scast v) @ rest) = (Some v, rest)" if "bit v 31"
    by (rule on_bufferI) (use varint32_reads_negative [OF _ _ that] in \<open>simp add: length_varint_negative [OF that]\<close>)
  then show ?thesis using varint32.dec_enc [of v rest] nonnegative_scast [of v] by (cases "bit v 31") simp_all
qed

text \<open>
  C25. The fixed-length integers are canonical: \<open>pb_decode_fixed64\<close> and \<open>pb_decode_fixed32\<close> accept
  exactly what \<open>pb_encode_fixed64\<close> and \<open>pb_encode_fixed32\<close> write.
\<close>

theorem fixed_write_read:
  "\<exists>out64 out32. emits (\<lambda>s. Some (pb_encode_fixed64 v s)) out64 \<and> emits (\<lambda>s. Some (pb_encode_fixed32 w s)) out32 \<and>
     (\<forall>bs rest. on_buffer pb_decode_fixed64 bs = (Some v, rest) \<longleftrightarrow> bs = out64 @ rest) \<and>
     (\<forall>bs rest. on_buffer pb_decode_fixed32 bs = (Some w, rest) \<longleftrightarrow> bs = out32 @ rest)"
  using emits_fixed64_bytes emits_fixed32_bytes on_buffer_fixed64 on_buffer_fixed32 by blast

text \<open>
  C26. A substream is confined to its string: it shows the bytes that \<open>pb_encode_string\<close> has written,
  and closing it leaves the parent stream behind the string, however much of it has been read.
\<close>

theorem string_substream:
  fixes n :: u32
  assumes "over_buffer s" "view s = varint_bytes (ucast n) @ data @ rest" "length data = unat n" "j \<le> unat n"
  shows "emits (\<lambda>s. Some (pb_encode_string data (ucast n) s)) (varint_bytes (ucast n) @ data) \<and>
    (\<exists>sub s'. pb_make_string_substream s = (Some sub, s') \<and> over_buffer sub \<and> view sub = data \<and>
      pb_close_string_substream s' (advance j sub) = (True, advance (length (varint_bytes (ucast n)) + unat n) s))"
proof
  show "emits (\<lambda>s. Some (pb_encode_string data (ucast n) s)) (varint_bytes (ucast n) @ data)"
    using assms(3) by (intro emits_string) simp
qed (rule substream_confined [OF assms])

theorem string_substream_witness:
  "emits (\<lambda>s. Some (pb_encode_string [5, 6] (ucast (2 :: u32)) s)) (varint_bytes (ucast (2 :: u32)) @ [5, 6]) \<and>
   (\<exists>sub s'. pb_make_string_substream (pb_istream_from_buffer [2, 5, 6, 7] 4) = (Some sub, s') \<and> over_buffer sub \<and>
     view sub = [5, 6] \<and>
     pb_close_string_substream s' (advance 1 sub) =
       (True, advance (length (varint_bytes (ucast (2 :: u32))) + unat (2 :: u32)) (pb_istream_from_buffer [2, 5, 6, 7] 4)))"
  by (rule string_substream [where rest = "[7]"])
    (simp_all add: over_buffer_def pb_istream_from_buffer_def view_def varint_bytes_def)

text \<open>
  C27. \<open>pb_skip_field\<close> skips exactly one value: it leaves the stream behind a varint of any number of
  bytes, behind eight or four bytes, and behind a string with its length in the shortest form, as the
  wire type says.
\<close>

theorem skip_field_exact:
  assumes "wire_value wt bs" "over_buffer s" "view s = bs @ rest"
  shows "pb_skip_field wt s = (Some (), advance (length bs) s)"
  using skip_field_reads [OF assms] .

theorem skip_field_exact_witness:
  "pb_skip_field PB_WT_32BIT (pb_istream_from_buffer [1, 2, 3, 4, 5] 5) =
     (Some (), advance (length [1, 2, 3, 4 :: u8]) (pb_istream_from_buffer [1, 2, 3, 4, 5] 5))"
  by (rule skip_field_exact [where rest = "[5]"])
    (simp_all add: wire_value.intros over_buffer_def pb_istream_from_buffer_def view_def)

text \<open>
  C28. \<open>pb_decode_varint32_eof\<close> misses overflows: it checks the upper bits of the fifth byte only
  where that byte is the last one, so that \<open>2 ^ 32\<close> with a sixth byte of zero is read as 0, without
  an error, where \<open>pb_decode_varint\<close> reads \<open>2 ^ 32\<close>; and it does not bound the number of bytes, so that the bit
  position, of eight bits, wraps around and the 38th byte is added into the result at bit 3, where
  \<open>pb_decode_varint\<close> rejects the bytes.
\<close>

theorem varint32_misses_overflow:
  "on_buffer pb_decode_varint32 [0x80, 0x80, 0x80, 0x80, 0x90, 0x00] = (Some 0, []) \<and>
   on_buffer pb_decode_varint [0x80, 0x80, 0x80, 0x80, 0x90, 0x00] = (Some (2 ^ 32), []) \<and>
   on_buffer pb_decode_varint32 (replicate 37 0x80 @ [0x01]) = (Some 8, []) \<and>
   fst (on_buffer pb_decode_varint (replicate 37 0x80 @ [0x01])) = None"
  using varint32_33_bits varint_33_bits varint32_position_wraps by blast

text \<open>
  C29. A base64 stream is read back: bytes that are encoded in pieces of any size by \<open>EVP_EncodeInit\<close>,
  \<open>EVP_EncodeUpdate\<close> and \<open>EVP_EncodeFinal\<close> are what \<open>EVP_DecodeInit\<close>, \<open>EVP_DecodeUpdate\<close> and
  \<open>EVP_DecodeFinal\<close> return for the text, cut into pieces of any size at any place; \<open>out_len\<close> is right in
  every call. The pieces are below the size at which the counts leave an \<open>int\<close>.
\<close>

theorem base64_stream_read_back:
  assumes "list_all (\<lambda>x. length x \<le> 1000000000) xs" "list_all (\<lambda>y. length y \<le> 1000000000) ys"
    and "concat ys = encode_pieces EVP_EncodeInit xs"
  shows "decode_pieces EVP_DecodeInit ys = Some (concat xs)"
  by (rule stream_read_back [OF assms])

theorem base64_stream_read_back_witness:
  "decode_pieces EVP_DecodeInit [[65, 81], [73, 68, 10]] = Some (concat [[1, 2], [3]])"
proof (rule base64_stream_read_back)
  have "encode_pieces EVP_EncodeInit [[1, 2], [3]] = pem_lines [1, 2, 3]"
    using encode_pieces_lines [of EVP_EncodeInit "[[1, 2], [3]]"] by (simp add: encoding_def EVP_EncodeInit_def ctx_pending_def)
  also have "\<dots> = base64 [1, 2, 3] @ [10]" by (subst pem_lines.simps) simp
  also have "\<dots> = [65, 81, 73, 68, 10]" by (simp add: base64_def sextet_def bin2ascii_cases Let_def)
  finally show "concat [[65, 81], [73, 68, 10]] = encode_pieces EVP_EncodeInit [[1, 2], [3]]" by simp
qed simp_all

text \<open>
  A message type for the decoder, at address 1: a submessage of the type at address 2, which has a
  callback, and a 32-bit integer. The callback reads a byte.
\<close>

definition demo_fields :: "addr \<Rightarrow> pb_field list" where
  "demo_fields p =
    (if p = 1 then
       [\<lparr>pf_tag = 1, pf_type = 0x17, pf_data_offset = 8, pf_size_offset = - 8, pf_data_size = 16, pf_array_size = 0, pf_ptr = 2\<rparr>,
        \<lparr>pf_tag = 2, pf_type = 0x02, pf_data_offset = 0, pf_size_offset = 0, pf_data_size = 4, pf_array_size = 0, pf_ptr = 0\<rparr>]
     else if p = 2 then
       [\<lparr>pf_tag = 3, pf_type = 0x46, pf_data_offset = 0, pf_size_offset = 0, pf_data_size = 16, pf_array_size = 0, pf_ptr = 0\<rparr>]
     else [])"

definition demo_env :: dec_env where
  "demo_env = \<lparr>de_fields = demo_fields, de_realloc = (\<lambda>_ n _. if n \<le> 100 then 64 else 0), de_frame = (\<lambda>n. 0x1000 + 8 * of_nat n),
     de_decode = (\<lambda>_ _ _ s h. case pb_readbyte s of (r, s) \<Rightarrow> (r \<noteq> None, s, h)), de_ext_decode = (\<lambda>_ _ _ _ s h. (True, s, h))\<rparr>"

definition demo_heap :: heap where
  "demo_heap = \<lparr>h_mem = (\<lambda>_. 0), h_live = []\<rparr>"

definition demo_stream :: istream where
  "demo_stream = pb_istream_from_buffer [0x0A, 2, 0x18, 5, 0x10, 7] 6"

lemma demo_stream_buffer [simp]: "over_buffer demo_stream" "is_bytes_left demo_stream = 6"
  by (simp_all add: demo_stream_def pb_istream_from_buffer_def over_buffer_def)

lemma demo_types:
  "ranked_types (de_fields demo_env) (\<lambda>p. if p = 1 then 1 else 0)" "no_extensions (de_fields demo_env)"
  "sized_pointers (de_fields demo_env)"
  by (auto simp: ranked_types_def no_extensions_def sized_pointers_def demo_env_def demo_fields_def known_field_def PB_LTYPE_def
      PB_HTYPE_def PB_ATYPE_def pb_consts)

lemma demo_well_behaved: "well_behaved demo_env"
  using within_reader [OF strict_readerD [OF strict_reader_readbyte]]
  by (auto simp: well_behaved_def demo_env_def simp del: not_None_eq split: prod.split)

lemma demo_not_stalling: "\<not> stalls demo_env"
proof
  assume "stalls demo_env"
  then obtain s where "fst (pb_readbyte s) \<noteq> None" "is_bytes_left (snd (pb_readbyte s)) = is_bytes_left s"
    by (auto simp: stalls_def demo_env_def case_prod_beta simp del: not_None_eq)
  then show False using readbyte_left [of s] by (cases "pb_readbyte s") auto
qed

lemma demo_returns: "\<exists>ok s' h'. pb_decode 10 demo_env 1 0x2000 demo_stream demo_heap = Some (ok, s', h')"
proof -
  have "decodable_types demo_env (\<lambda>p. if p = 1 then 1 else 0)" using demo_types by (simp add: decodable_types_def)
  from decode_total [OF this demo_well_behaved demo_not_stalling, of 1 demo_stream 10] show ?thesis by fastforce
qed

text \<open>
  C30. \<open>pb_decode\<close> returns: for message types that do not contain themselves, as a rank shows, and that
  have no extension fields, whose lists in memory need not end, it has a result on every input and for
  every content of the memory, unless a callback of the user for one of their fields accepts a stream that is not
  empty and takes nothing of it; the recursion is not deeper than twice the rank and the length of the
  input. The exception is real: the loop of \<open>decode_callback_field\<close>, which calls the callback until
  the stream is empty, does not return from a callback that leaves everything as it is.
\<close>

theorem decode_returns:
  assumes "ranked_types (de_fields env) rank" "no_extensions (de_fields env)" "sized_pointers (de_fields env)"
    and "well_behaved env" "2 * rank fds + is_bytes_left s + 2 \<le> n"
  shows "((\<exists>ok s' h'. pb_decode n env fds dest s h = Some (ok, s', h')) \<or> stalls env) \<and>
    (\<forall>k cb sub h. is_bytes_left sub \<noteq> 0 \<and> (\<forall>h. cb sub h = (True, sub, h)) \<longrightarrow> callback_loop k cb sub h = None)"
proof (intro conjI allI impI)
  have "decodable_types env rank" using assms(1-3) by (simp add: decodable_types_def)
  from decode_total [OF this assms(4) _ assms(5), of dest h]
  show "(\<exists>ok s' h'. pb_decode n env fds dest s h = Some (ok, s', h')) \<or> stalls env" by fastforce
  show "callback_loop k cb sub h = None" if "is_bytes_left sub \<noteq> 0 \<and> (\<forall>h. cb sub h = (True, sub, h))" for k cb sub h
    using that by (intro stalling_callback_stuck) simp_all
qed

theorem decode_returns_witness:
  "\<exists>ok s' h'. pb_decode 10 demo_env 1 0x2000 demo_stream demo_heap = Some (ok, s', h')"
  using decode_returns [OF demo_types demo_well_behaved, of 1 demo_stream 10 "0x2000" demo_heap] demo_not_stalling by simp

text \<open>
  C31. \<open>pb_decode\<close> stays in its input: where it returns, whether it succeeds or not, the number of bytes that are left
  does not grow, and where it succeeds on a buffer, the stream is further on in the same buffer, with
  everything that submessages, packed arrays and unknown fields took accounted for.
\<close>

theorem decode_stays_in_input:
  assumes "well_behaved env" "pb_decode n env fds dest s h = Some (ok, s', h')"
  shows "is_bytes_left s' \<le> is_bytes_left s \<and>
    (ok \<and> over_buffer s \<longrightarrow> over_buffer s' \<and> view s' = drop (is_bytes_left s - is_bytes_left s') (view s))"
proof -
  have e: "eats ok s s'" using confined_Some [OF decode_confined [OF assms(1)] assms(2)] by (simp add: within_def)
  have "over_buffer s' \<and> view s' = drop (is_bytes_left s - is_bytes_left s') (view s)" if ok: ok and ob: "over_buffer s"
  proof -
    obtain k er where "k \<le> is_bytes_left s" "s' = (advance k s)\<lparr>is_errmsg := er\<rparr>" using e ok ob unfolding eats_def by blast
    then show ?thesis using ob view_advance [of k s] by (simp add: view_def)
  qed
  then show ?thesis using eats_left [OF e] by blast
qed

theorem decode_stays_in_input_witness:
  "\<exists>ok s' h'. pb_decode 10 demo_env 1 0x2000 demo_stream demo_heap = Some (ok, s', h') \<and>
     is_bytes_left s' \<le> 6 \<and> (if ok then view s' = drop (6 - is_bytes_left s') (view demo_stream) else True)"
  using demo_returns decode_stays_in_input [OF demo_well_behaved, of 10 1 "0x2000" demo_stream demo_heap] by fastforce

text \<open>
  C32. The field iterator does not depend on its history: from every position the search for a tag ends
  at the field that has it, with the addresses that a walk from the beginning gives, and where there is
  no such field it comes back to where it was; that walk visits every field once, in order.
\<close>

theorem iterator_finds:
  assumes "tagged fds" "distinct (map pf_tag fds)" "p < length fds"
  shows "(\<forall>i < length fds. PB_LTYPE (pf_type (fds ! i)) = PB_LTYPE_EXTENSION \<or>
       pb_field_iter_find (pf_tag (fds ! i)) (iter_at fds dest p) = (True, iter_at fds dest i)) \<and>
    (\<forall>tag. tag \<in> pf_tag ` set fds \<or> pb_field_iter_find tag (iter_at fds dest p) = (False, iter_at fds dest p)) \<and>
    iter_all fds dest = map (iter_at fds dest) [0..<length fds]"
proof (intro conjI)
  have fds: "fds \<noteq> []" using assms(3) by auto
  show "\<forall>i < length fds. PB_LTYPE (pf_type (fds ! i)) = PB_LTYPE_EXTENSION \<or>
       pb_field_iter_find (pf_tag (fds ! i)) (iter_at fds dest p) = (True, iter_at fds dest i)"
    using iter_find_unique [OF assms] by blast
  show "\<forall>tag. tag \<in> pf_tag ` set fds \<or> pb_field_iter_find tag (iter_at fds dest p) = (False, iter_at fds dest p)"
    using iter_find_absent [OF assms(1,3)] by blast
  show "iter_all fds dest = map (iter_at fds dest) [0..<length fds]" by (rule iter_all_at [OF assms(1) fds])
qed

theorem iterator_finds_witness:
  "pb_field_iter_find 1 (iter_at (demo_fields 1) 0x2000 1) = (True, iter_at (demo_fields 1) 0x2000 0) \<and>
   pb_field_iter_find 9 (iter_at (demo_fields 1) 0x2000 1) = (False, iter_at (demo_fields 1) 0x2000 1)"
proof -
  have t: "tagged (demo_fields 1)" "distinct (map pf_tag (demo_fields 1))" "1 < length (demo_fields 1)"
    by (simp_all add: tagged_def demo_fields_def)
  have l: "PB_LTYPE (pf_type (demo_fields 1 ! 0)) \<noteq> PB_LTYPE_EXTENSION" "pf_tag (demo_fields 1 ! 0) = 1"
    "0 < length (demo_fields 1)" "9 \<notin> pf_tag ` set (demo_fields 1)"
    by (simp_all add: demo_fields_def PB_LTYPE_def pb_consts)
  from iterator_finds [OF t, of "0x2000"] l show ?thesis by metis
qed





text \<open>
  C35. The check for required fields is exact: with the indices of required fields marked in any order
  and any number of times, \<open>pb_decode_noinit\<close> finds all of them present if and only if every index
  below the number of required fields has been marked.
\<close>

theorem required_fields_exact:
  assumes "list_all (\<lambda>i. i < n) idxs" "n \<le> PB_MAX_REQUIRED_FIELDS"
  shows "required_present n (fold mark_seen idxs [0, 0]) \<longleftrightarrow> (\<forall>i < n. i \<in> set idxs)"
  by (rule required_marked [OF assms])

theorem required_fields_exact_witness:
  "required_present 2 (fold mark_seen [1, 0, 1] [0, 0]) \<and> \<not> required_present 2 (fold mark_seen [1, 1] [0, 0])"
proof -
  have "i = 0 \<or> i = 1" if "i < 2" for i :: u32
    using that by (auto simp: word_less_nat_alt word_unat_eq_iff)
  then have "\<forall>i < 2. i \<in> set [1, 0, 1 :: u32]" by fastforce
  moreover have "\<not> (\<forall>i < 2. i \<in> set [1, 1 :: u32])" by (rule notI, drule spec [of _ 0]) simp
  ultimately show ?thesis
    using required_fields_exact [of 2 "[1, 0, 1]"] required_fields_exact [of 2 "[1, 1]"]
    by (simp only: PB_MAX_REQUIRED_FIELDS_def) simp
qed


text \<open>A table with one object.\<close>

definition sample_object :: asn1_object where
  "sample_object = \<lparr>ob_sn = Some [97], ob_ln = None, ob_nid = 1000, ob_length = 1, ob_data = Some [42], ob_flags = 0\<rparr>"

definition sample_table :: "asn1_object lhash" where
  "sample_table = \<lparr>lh_num_items = 1, lh_buckets = (replicate 16 [])[8 := [\<lparr>li_data = sample_object, li_hash = 1000\<rparr>]],
     lh_num_buckets = 16, lh_callback_depth = 0, lh_comp = cmp_nid, lh_hash = hash_nid\<rparr>"

lemma sample_table_reachable: "lh_reachable {\<lambda>_. True} hash_nid cmp_nid sample_table"
proof (rule lh_reachable.insert)
  let ?new = "\<lparr>lh_num_items = 0, lh_buckets = replicate kMinNumBuckets [], lh_num_buckets = kMinNumBuckets,
    lh_callback_depth = 0, lh_comp = cmp_nid, lh_hash = hash_nid\<rparr>"
  show "lh_reachable {\<lambda>_. True} hash_nid cmp_nid ?new"
    by (rule lh_reachable.new [where malloc = "\<lambda>_. True"]) (simp_all add: OPENSSL_lh_new_def)
  show "(\<lambda>_. True) \<in> {\<lambda>_ :: nat. True}" by simp
  show "24 * Suc (lh_num_items ?new) < SIZE_MOD" by (simp add: SIZE_MOD_def)
  show "OPENSSL_lh_insert (\<lambda>_. True) ?new sample_object = (True, None, sample_table)"
    by (simp add: OPENSSL_lh_insert_def get_next_ptr_and_hash_def deref_next_def kMinNumBuckets_def hash_nid_def sample_object_def
        sample_table_def lh_maybe_resize_def kMaxAverageChainLength_def kMinAverageChainLength_def szadd_def SIZE_MOD_def Let_def)
qed


text \<open>
  C37. The hash table refines a partial function: \<open>OPENSSL_lh_retrieve\<close> is the lookup of the contents,
  \<open>OPENSSL_lh_insert\<close> updates it at the data, returns what was there, and changes nothing where it fails,
  and \<open>OPENSSL_lh_delete\<close> removes what it returns; rehashing is not visible.
\<close>

theorem lhash_refines_map:
  assumes "hash_contract hash cmp" "lh_reachable mallocs hash cmp lh" "24 * Suc (lh_num_items lh) < SIZE_MOD"
  shows "OPENSSL_lh_retrieve lh d = lh_lookup lh d \<and>
    (case OPENSSL_lh_insert malloc lh d of (ok, old, lh') \<Rightarrow>
      if ok then old = lh_lookup lh d \<and> lh_lookup lh' = (\<lambda>d'. if cmp d d' = 0 then Some d else lh_lookup lh d')
      else lh' = lh \<and> \<not> malloc 24) \<and>
    (case OPENSSL_lh_delete malloc lh d of (old, lh') \<Rightarrow>
      old = lh_lookup lh d \<and> lh_lookup lh' = (\<lambda>d'. if cmp d d' = 0 then None else lh_lookup lh d'))"
proof -
  have i: "lh_inv lh" "lh_hash lh = hash" "lh_comp lh = cmp" "Suc (lh_num_items lh) < SIZE_MOD"
    using hash_contract.reachable_inv [OF assms(1,2)] assms(3) by simp_all
  obtain ok old lh' where ins: "OPENSSL_lh_insert malloc lh d = (ok, old, lh')" by (metis prod_cases3)
  obtain old' lh'' where del: "OPENSSL_lh_delete malloc lh d = (old', lh'')" by (metis prod.exhaust)
  show ?thesis
    using hash_contract.retrieve_lookup [OF assms(1) i(1-3)] hash_contract.insert_correct [OF assms(1) i ins]
      hash_contract.delete_correct [OF assms(1) i(1-3) Suc_lessD [OF i(4)] del]
    by (simp add: ins del split: if_splits)
qed

theorem lhash_refines_map_witness:
  "OPENSSL_lh_retrieve sample_table sample_object = lh_lookup sample_table sample_object \<and>
   snd (OPENSSL_lh_delete (\<lambda>_. True) sample_table sample_object) \<noteq> sample_table"
proof -
  have n: "24 * Suc (lh_num_items sample_table) < SIZE_MOD" by (simp add: sample_table_def SIZE_MOD_def)
  note m = lhash_refines_map [OF by_nid.hash_contract_axioms sample_table_reachable n, where d = sample_object and malloc = "\<lambda>_. True"]
  have "lh_lookup sample_table sample_object \<noteq> None" by (simp add: lh_lookup_def sample_table_def numeral_eq_Suc)
  moreover obtain old lh' where d: "OPENSSL_lh_delete (\<lambda>_. True) sample_table sample_object = (old, lh')" by (metis prod.exhaust)
  moreover have "lh_lookup lh' sample_object = None" using m by (simp add: d)
  ultimately show ?thesis using m by (metis snd_conv)
qed
text \<open>
  C38. The pointer stack \<open>stack.c\<close> refines a list, with its invariant: \<open>sk_insert\<close> inserts at the position
  or at the end, or fails for lack of memory and changes nothing; \<open>sk_delete\<close> removes and returns the
  element at the position; \<open>sk_pop\<close> undoes \<open>sk_push\<close>; \<open>sk_zero\<close> empties the stack, and \<open>sk_set_cmp_func\<close> and
  \<open>sk_sort\<close> permute it at most. The invariant has the array as long as \<open>num_alloc\<close>, a free slot, and the elements
  in order where \<open>sorted\<close> is set; \<open>sk_set\<close>, which does not reset \<open>sorted\<close>, is not among these operations.
\<close>

theorem stack_refines_list:
  assumes "sk_inv call sk" "\<forall>c. element_order (call c)" "None \<notin> set (sk_elems sk)"
  shows "(case sk_insert env sk p pos of (n, sk') \<Rightarrow>
      if n = 0 then sk' = sk \<and> ((\<exists>n. \<not> se_realloc env n) \<or> SIZE_MOD \<le> 8 * Suc (st_num_alloc sk))
      else sk_inv call sk' \<and> n = Suc (length (sk_elems sk)) \<and> sk_elems sk' = take pos (sk_elems sk) @ p # drop pos (sk_elems sk)) \<and>
    (case sk_delete sk pos of (r, sk') \<Rightarrow>
      if pos < length (sk_elems sk)
      then sk_inv call sk' \<and> r = sk_elems sk ! pos \<and> sk_elems sk' = take pos (sk_elems sk) @ drop (Suc pos) (sk_elems sk)
      else r = None \<and> sk' = sk) \<and>
    (case sk_push env sk p of (n, sk') \<Rightarrow>
      if n = 0 then True else fst (sk_pop sk') = p \<and> sk_elems (snd (sk_pop sk')) = sk_elems sk) \<and>
    (sk_inv call (sk_zero sk) \<and> sk_elems (sk_zero sk) = []) \<and>
    (sk_inv call (snd (sk_set_cmp_func sk c)) \<and> sk_elems (snd (sk_set_cmp_func sk c)) = sk_elems sk) \<and>
    (sk_inv call (sk_sort call sk) \<and> mset (sk_elems (sk_sort call sk)) = mset (sk_elems sk))"
proof -
  obtain n sk1 where i: "sk_insert env sk p pos = (n, sk1)" by (metis prod.exhaust)
  obtain m sk2 where u: "sk_push env sk p = (m, sk2)" by (metis prod.exhaust)
  obtain r sk3 where d: "sk_delete sk pos = (r, sk3)" by (metis prod.exhaust)
  have "if m = 0 then True else fst (sk_pop sk2) = p \<and> sk_elems (snd (sk_pop sk2)) = sk_elems sk"
    using push_inv [OF assms(1) u] pop_inv [of call sk2 "sk_elems sk" p] by simp
  moreover have "if pos < length (sk_elems sk)
      then sk_inv call sk3 \<and> r = sk_elems sk ! pos \<and> sk_elems sk3 = take pos (sk_elems sk) @ drop (Suc pos) (sk_elems sk)
      else r = None \<and> sk3 = sk"
    using delete_inv [OF assms(1), of pos] delete_out_of_range [of sk pos] assms(1) d by simp
  moreover have "if n = 0 then sk1 = sk \<and> ((\<exists>n. \<not> se_realloc env n) \<or> SIZE_MOD \<le> 8 * Suc (st_num_alloc sk))
      else sk_inv call sk1 \<and> n = Suc (length (sk_elems sk)) \<and> sk_elems sk1 = take pos (sk_elems sk) @ p # drop pos (sk_elems sk)"
    using insert_inv [OF assms(1) i] assms(1) by (cases "n = 0") simp_all
  moreover have "element_order (call (st_comp sk))" using assms(2) by blast
  ultimately show ?thesis unfolding i u d prod.case
    using zero_inv [OF assms(1)] set_cmp_func_inv [OF assms(1), of c] sort_inv [OF assms(1) _ assms(3)] by blast
qed

text \<open>An environment in which no allocation fails.\<close>

definition stack_env :: "bytes sk_env" where
  "stack_env = \<lparr>se_malloc = (\<lambda>_. True), se_realloc = (\<lambda>_. True), se_uninit = (\<lambda>_. None)\<rparr>"

lemma sorted_strings_facts:
  "sk_inv call_strcmp sorted_strings" "sk_elems sorted_strings = [Some [97], Some [98], Some [99]]" "element_order (call_strcmp c)"
  using sk_set_misses sk_strcmp.element_order_axioms by (simp_all add: sorted_strings_def sk_elems_def call_strcmp_def)

theorem stack_refines_list_witness:
  "sk_elems (snd (sk_insert stack_env sorted_strings (Some [120]) 1)) = [Some [97], Some [120], Some [98], Some [99]] \<and>
   sk_elems (snd (sk_delete sorted_strings 1)) = [Some [97], Some [99]]"
proof -
  have "\<forall>c. element_order (call_strcmp c)" "None \<notin> set (sk_elems sorted_strings)" by (simp_all add: sorted_strings_facts)
  note s = stack_refines_list [OF sorted_strings_facts(1) this, where env = stack_env and p = "Some [120]" and pos = 1 and c = 0]
  obtain n sk1 where i: "sk_insert stack_env sorted_strings (Some [120]) 1 = (n, sk1)" by (metis prod.exhaust)
  obtain r sk2 where d: "sk_delete sorted_strings 1 = (r, sk2)" by (metis prod.exhaust)
  have "\<not> ((\<exists>n. \<not> se_realloc stack_env n) \<or> SIZE_MOD \<le> 8 * Suc (st_num_alloc sorted_strings))"
    by (simp add: stack_env_def sorted_strings_def SIZE_MOD_def)
  then have "sk_elems sk1 = take 1 (sk_elems sorted_strings) @ Some [120] # drop 1 (sk_elems sorted_strings)"
    "sk_elems sk2 = take 1 (sk_elems sorted_strings) @ drop (Suc 1) (sk_elems sorted_strings)"
    using s unfolding i d prod.case by (auto simp: sorted_strings_facts(2) split: if_splits)
  then show ?thesis unfolding i d by (simp add: sorted_strings_facts(2))
qed

text \<open>
  C39. The binary search of \<open>sk_find\<close> on a sorted stack and the linear search on an unsorted one return the
  same: the index of the first element that compares equal to the key, or nothing where there is none.
\<close>

theorem sk_find_first_match:
  assumes "sk_inv call sk" "\<forall>c. element_order (call c)" "None \<notin> set (sk_elems sk)" "st_comp sk \<noteq> 0"
  shows "sk_find call (Some sk) (Some p) = Some i \<longleftrightarrow> i < length (sk_elems sk) \<and> call (st_comp sk) (Some p) (sk_elems sk ! i) = 0 \<and>
    (\<forall>j < i. call (st_comp sk) (Some p) (sk_elems sk ! j) \<noteq> 0)"
proof -
  have "element_order (call (st_comp sk))" using assms(2) by blast
  moreover have "st_data sk ! j = sk_elems sk ! j" if "j < st_num sk" for j using that by (simp add: sk_elems_def)
  ultimately show ?thesis using find_first [OF assms(1) _ assms(3), of p] assms(1,4)
    by (auto simp: first_slot_Some)
qed

theorem sk_find_first_match_witness:
  "sk_find call_strcmp (Some sorted_strings) (Some [98]) = Some 1"
proof -
  have "\<forall>c. element_order (call_strcmp c)" "None \<notin> set (sk_elems sorted_strings)" by (simp_all add: sorted_strings_facts)
  moreover have "st_comp sorted_strings \<noteq> 0" by (simp add: sorted_strings_def sk_strcmp_ptr_def)
  ultimately show ?thesis using sk_find_first_match [OF sorted_strings_facts(1), of "[98]" 1]
    by (simp add: sorted_strings_facts(2) call_strcmp_def sk_strcmp_def at_ptr_def)
qed

text \<open>
  C40. The registry of object identifiers: with memory, \<open>OBJ_create\<close> accepts exactly the texts of object
  identifiers. It returns a number that was not in use; from then on \<open>OBJ_nid2obj\<close> has the object under the
  number, \<open>OBJ_cbs2nid\<close> the number under the encoding, \<open>OBJ_sn2nid\<close> and \<open>OBJ_ln2nid\<close> the number under the names,
  every other query answers as before, whatever the built-in tables are, and \<open>OBJ_obj2txt\<close> prints the text.
\<close>

theorem obj_create_registers:
  assumes "alloc_ok env" "obj_inv st" "unat (global_next_nid st) < INT_MAX" "10 * length oid \<le> INT_MAX"
  shows "case oid_of_text oid of
      None \<Rightarrow> OBJ_create env st oid sn ln = Some (NID_undef, st)
    | Some bs \<Rightarrow> \<exists>st' obj. let nid = global_next_nid st in
        OBJ_create env st oid sn ln = Some (nid, st') \<and> obj_inv st' \<and> global_next_nid st' = nid + 1 \<and> OBJ_nid2obj dat st nid = None \<and>
        ob_nid obj = nid \<and> ob_sn obj = sn \<and> ob_ln obj = ln \<and> obj_bytes obj = bs \<and>
        (\<forall>m. OBJ_nid2obj dat st' m = (if m = nid then Some obj else OBJ_nid2obj dat st m)) \<and>
        (\<forall>cbs. OBJ_cbs2nid dat st' cbs = (if cbs = bs then nid else OBJ_cbs2nid dat st cbs)) \<and>
        (\<forall>s. OBJ_sn2nid dat st' s = (if sn = Some s then nid else OBJ_sn2nid dat st s)) \<and>
        (\<forall>s. OBJ_ln2nid dat st' s = (if ln = Some s then nid else OBJ_ln2nid dat st s)) \<and>
        (\<forall>n. OBJ_obj2txt env dat st' n (Some obj) True = strlcpy_int oid n)"
proof (cases "oid_of_text oid")
  case None
  then show ?thesis using create_invalid [OF assms(1,4)] by simp
next
  case (Some bs)
  let ?nid = "global_next_nid st"
  obtain st' where c: "OBJ_create env st oid sn ln = Some (?nid, st')" "obj_inv st'" "registers (added_object ?nid bs sn ln) st st'"
    "global_next_nid st' = ?nid + 1" using create_registers [OF assms Some] by metis
  note b = oid_bytes [OF Some assms(4)]
  have n: "unat NUM_NID \<le> unat ?nid" "unat ?nid \<le> INT_MAX" using assms(2,3) by (simp_all add: obj_inv_def Let_def)
  have q: "bs \<noteq> []" using b(1) by simp
  note r = registered_queries [OF c(3) b(2) n q]
  have t: "OBJ_obj2txt env dat st' n (Some (added_object ?nid bs sn ln)) True = strlcpy_int oid n" for n
    by (rule obj2txt_text [OF assms(1) Some assms(4)]) simp_all
  have "obj_bytes (added_object ?nid bs sn ln) = bs" using b(2) by (simp add: obj_bytes_exact)
  moreover have "OBJ_cbs2nid dat st' cbs = (if cbs = bs then ?nid else OBJ_cbs2nid dat st cbs)" for cbs
    using r(2) [of cbs] b(2) by (cases "length cbs \<le> INT_MAX") (auto simp: OBJ_cbs2nid_def CBS_len_def)
  moreover have "OBJ_nid2obj dat st ?nid = None" using fresh_nid [OF assms(2) n(2)] .
  ultimately show ?thesis using c r t Some by (auto simp: Let_def intro!: exI [of _ st'] exI [of _ "added_object ?nid bs sn ln"])
qed

theorem obj_create_registers_witness:
  "\<exists>st'. OBJ_create ok_env obj_init [49, 46, 50, 46, 51] (Some [97]) None = Some (963, st') \<and>
     OBJ_sn2nid \<lparr>kObjects = [], kNIDsInOIDOrder = [], kNIDsInShortNameOrder = [], kNIDsInLongNameOrder = []\<rparr> st' [97] = 963"
proof -
  have "oid_of_text [49, 46, 50, 46, 51] = Some [42, 3]"
    unfolding oid_of_text_iff by (rule exI [of _ "[1, 2, 3]"]) (simp add: decimal_small oid_rest_def base128_def)
  moreover have "unat (global_next_nid obj_init) < INT_MAX" "10 * length [49, 46, 50, 46, 51 :: u8] \<le> INT_MAX" "global_next_nid obj_init = 963"
    by (simp_all add: obj_init_def NUM_NID_def INT_MAX_def)
  ultimately show ?thesis
    using obj_create_registers [OF alloc_ok_env obj_init_inv, of "[49, 46, 50, 46, 51]" "Some [97]" None
        "\<lparr>kObjects = [], kNIDsInOIDOrder = [], kNIDsInShortNameOrder = [], kNIDsInLongNameOrder = []\<rparr>"]
    by (auto simp: Let_def)
qed

end
